(* ===== verification/Prelude.thy ===== *)
theory Prelude
  imports "HOL-Library.Word" "HOL-Library.List_Lexorder"
begin

text \<open>
  What every component shares: the types of the Go program (bytes, machine integers and
  fixed-size byte arrays), the big-endian encodings of the standard package
  \<^verbatim>\<open>encoding/binary\<close>, the order of \<^verbatim>\<open>bytes.Compare\<close>, the errors of the program as one
  datatype, and the interface of a fixed-width codec as a locale.

  An array \<^verbatim>\<open>[n]byte\<close> (an address, a hash) is the word of \<open>8 * n\<close> bits with these bytes,
  most significant first: \<open>be_bytes n w\<close> is the slice \<^verbatim>\<open>w[:]\<close> and \<open>be_word bs\<close> the array
  a slice of \<open>n\<close> bytes is copied into. Equality, and the order of \<^verbatim>\<open>bytes.Compare\<close> on such
  arrays, are those of the words (\<open>be_bytes_less_iff\<close> below). A \<^verbatim>\<open>uint256.Int\<close> is a 256-bit
  machine integer, whose \<^verbatim>\<open>Bytes32\<close> form is big-endian too.
\<close>

unbundle bit_operations_syntax

type_synonym byte = "8 word"
type_synonym bytes = "8 word list"
type_synonym u32 = "32 word"
type_synonym u64 = "64 word"
type_synonym u256 = "256 word"
type_synonym address = "160 word"
type_synonym hash = "256 word"

named_theorems codec_simps "lengths and round trips of the byte encodings"
named_theorems key_simps "shape, distinctness and injectivity of the database keys"
named_theorems kv_simps "effect of the operations on the database contents"

subsection \<open>Errors\<close>

text \<open>
  What the third-party database reports: a missing key, or any other condition (I/O, a full
  map, a key of a size it does not take), by its code.
\<close>

datatype mdb_error = MDB_NOTFOUND | MDB_OTHER int

text \<open>
  The errors of the program, one constructor per sentinel or \<^verbatim>\<open>fmt.Errorf\<close> site that a caller
  can tell apart. \<open>Panic\<close> is a Go panic (an unknown kind in \<^verbatim>\<open>Encode\<close>, a slice out of range).
\<close>

datatype error =
    ErrNoGenesis
  | ErrBelowGenesis
  | ErrBaselineIncomplete
  | ErrDestructEdge
  | ErrNotFound
  | ErrLmdb mdb_error
  | ErrBadLength nat
  | ErrUnknownKind byte
  | ErrTruncated
  | ErrTrailing nat
  | ErrGenesisSet u64 u64
  | ErrQueuePending bytes
  | ErrOrder nat
  | ErrFinalize u64
  | ErrHashMismatch u64
  | ErrUnknownBlock hash
  | ErrNotExtending u64
  | ErrHeight u64 u64
  | ErrUninitialized
  | ErrBadMagic
  | ErrNoStore
  | ErrIterator
  | ErrIO int
  | ErrRefundUnderflow
  | ErrNoTip
  | ErrBadCall
  | ErrMsg string
  | ErrExt int
  | ErrCanceled
  | Panic string

subsection \<open>Big-endian encodings\<close>

fun be_nat :: "bytes \<Rightarrow> nat" where
  "be_nat [] = 0"
| "be_nat (b # bs) = unat b * 256 ^ length bs + be_nat bs"

fun nat_be :: "nat \<Rightarrow> nat \<Rightarrow> bytes" where
  "nat_be 0 k = []"
| "nat_be (Suc n) k = of_nat (k div 256 ^ n) # nat_be n (k mod 256 ^ n)"

definition be_bytes :: "nat \<Rightarrow> 'a::len word \<Rightarrow> bytes" where
  "be_bytes n w = nat_be n (unat w)"

definition be_word :: "bytes \<Rightarrow> 'a::len word" where
  "be_word bs = of_nat (be_nat bs)"

lemma length_nat_be [simp]: "length (nat_be n k) = n"
  by (induction n arbitrary: k) auto

lemma length_be_bytes [simp]: "length (be_bytes n w) = n"
  by (simp add: be_bytes_def)

lemma be_nat_bound: "be_nat bs < 256 ^ length bs"
proof (induction bs)
  case Nil
  then show ?case by simp
next
  case (Cons b bs)
  have "unat b < 256"
    using unsigned_less [of b] by simp
  then have le: "(unat b + 1) * 256 ^ length bs \<le> 256 * 256 ^ length bs"
    by (intro mult_right_mono) simp_all
  have "be_nat (b # bs) < unat b * 256 ^ length bs + 256 ^ length bs"
    using Cons by simp
  also have "\<dots> = (unat b + 1) * 256 ^ length bs"
    by (simp add: add_mult_distrib)
  also note le
  finally show ?case by simp
qed

lemma be_nat_nat_be [simp]: "be_nat (nat_be n k) = k mod 256 ^ n"
proof (induction n arbitrary: k)
  case 0
  then show ?case by simp
next
  case (Suc n)
  have "unat (of_nat (k div 256 ^ n) :: byte) = k div 256 ^ n mod 256"
    by (simp add: unat_of_nat)
  moreover have "k mod (256 ^ n * 256) = 256 ^ n * (k div 256 ^ n mod 256) + k mod 256 ^ n"
    by (rule mod_mult2_eq)
  ultimately show ?case
    using Suc [of "k mod 256 ^ n"] by (simp add: mult.commute)
qed

lemma nat_be_be_nat [simp]: "nat_be (length bs) (be_nat bs) = bs"
proof (induction bs)
  case Nil
  then show ?case by simp
next
  case (Cons b bs)
  have lt: "be_nat bs < 256 ^ length bs" by (rule be_nat_bound)
  then have "(unat b * 256 ^ length bs + be_nat bs) div 256 ^ length bs = unat b"
    by simp
  with lt Cons show ?case by simp
qed

lemma be_nat_append: "be_nat (xs @ ys) = be_nat xs * 256 ^ length ys + be_nat ys"
  by (induction xs) (simp_all add: algebra_simps power_add)

lemma be_nat_less_iff:
  "length xs = length ys \<Longrightarrow> be_nat xs < be_nat ys \<longleftrightarrow> xs < ys"
proof (induction xs ys rule: list_induct2)
  case Nil
  then show ?case by simp
next
  case (Cons x xs y ys)
  let ?M = "256 ^ length ys :: nat"
  have bx: "be_nat xs < ?M" using be_nat_bound [of xs] Cons.hyps by simp
  have bdy: "be_nat ys < ?M" by (rule be_nat_bound)
  have step: "a * ?M + p < b * ?M + q" if "a < b" "p < ?M" for a b p q :: nat
  proof -
    have "a * ?M + p < (a + 1) * ?M" using that(2) by simp
    also have "\<dots> \<le> b * ?M" using that(1) by (intro mult_right_mono) auto
    finally show ?thesis by simp
  qed
  consider "unat x < unat y" | "unat y < unat x" | "x = y"
    using nat_neq_iff word_unat_eq_iff by metis
  then show ?case
  proof cases
    case 1
    then show ?thesis using step [OF 1 bx, of "be_nat ys"] Cons.hyps
      by (simp add: word_less_nat_alt)
  next
    case 2
    then show ?thesis using step [OF 2 bdy, of "be_nat xs"] Cons.hyps
      by (auto simp: word_less_nat_alt)
  next
    case 3
    then show ?thesis using Cons by simp
  qed
qed

lemma unat_mod_pow:
  assumes "LENGTH('a) \<le> 8 * n"
  shows "unat (w :: 'a::len word) mod 256 ^ n = unat w"
proof -
  have "unat w < 2 ^ LENGTH('a)" by (rule unsigned_less)
  also have "(2 :: nat) ^ LENGTH('a) \<le> 2 ^ (8 * n)" using assms by (intro power_increasing) auto
  also have "\<dots> = 256 ^ n" by (simp add: power_mult)
  finally show ?thesis by simp
qed

lemma be_word_be_bytes:
  assumes "LENGTH('a) \<le> 8 * n"
  shows "be_word (be_bytes n w) = (w :: 'a::len word)"
  using assms by (simp add: be_word_def be_bytes_def unat_mod_pow)

lemma unat_be_word:
  assumes "8 * length bs \<le> LENGTH('a)"
  shows "unat (be_word bs :: 'a::len word) = be_nat bs"
proof -
  have "be_nat bs < 256 ^ length bs" by (rule be_nat_bound)
  also have "(256 :: nat) ^ length bs = 2 ^ (8 * length bs)" by (simp add: power_mult)
  also have "\<dots> \<le> 2 ^ LENGTH('a)" using assms by (intro power_increasing) auto
  finally show ?thesis by (simp add: be_word_def unat_of_nat)
qed

lemma be_bytes_be_word:
  assumes "length bs = n" and "8 * n \<le> LENGTH('a)"
  shows "be_bytes n (be_word bs :: 'a::len word) = bs"
  using assms unat_be_word [of bs, where 'a = 'a] by (auto simp: be_bytes_def)

lemma unat_u32_of_nat: "n < 2 ^ 32 \<Longrightarrow> unat (of_nat n :: u32) = n"
  by (simp add: unat_of_nat)

lemma unat_u64_of_nat: "n < 2 ^ 64 \<Longrightarrow> unat (of_nat n :: u64) = n"
  by (simp add: unat_of_nat)

lemma u64_succ:
  assumes "x < (- 1 :: u64)"
  shows "unat (x + 1) = unat x + 1"
proof -
  have "unat (- 1 :: u64) = 2 ^ 64 - 1" by (simp add: unsigned_minus_1_eq_mask mask_eq_exp_minus_1)
  with assms have "unat x + 1 < 2 ^ 64" by (simp add: word_less_nat_alt)
  then show ?thesis using unat_add_lem [of x 1] by simp
qed

lemma u64_le_minus_one:
  assumes "(0 :: u64) < n"
  shows "b \<le> n - 1 \<longleftrightarrow> b < n"
proof -
  from assms have "n \<noteq> 0" by auto
  then have "unat (n - 1) = unat n - 1" by (rule unat_minus_one)
  moreover from \<open>n \<noteq> 0\<close> have "0 < unat n" by (simp add: unat_gt_0)
  ultimately show ?thesis by (auto simp: word_le_nat_alt word_less_nat_alt)
qed

lemma be_bytes_0: "be_bytes n (0 :: 'a::len word) = replicate n 0"
proof -
  have "nat_be n 0 = replicate n 0" by (induction n) (simp_all add: replicate_append_same)
  then show ?thesis by (simp add: be_bytes_def)
qed

lemma be_bytes_less_iff:
  assumes "LENGTH('a) \<le> 8 * n"
  shows "be_bytes n v < be_bytes n w \<longleftrightarrow> v < (w :: 'a::len word)"
  using assms be_nat_less_iff [of "be_bytes n v" "be_bytes n w"]
  by (simp add: be_bytes_def unat_mod_pow word_less_nat_alt)

lemma append_less_append_iff [simp]:
  fixes p x y :: "'a::linorder list"
  shows "p @ x < p @ y \<longleftrightarrow> x < y"
  by (induction p) auto

lemma append_le_append_iff [simp]:
  fixes p x y :: "'a::linorder list"
  shows "p @ x \<le> p @ y \<longleftrightarrow> x \<le> y"
  by (induction p) auto

lemma between_common_prefix:
  fixes p x y k :: "'a::linorder list"
  assumes "p @ x \<le> k" and "k \<le> p @ y"
  shows "\<exists>t. k = p @ t"
  using assms
proof (induction p arbitrary: k)
  case Nil
  then show ?case by simp
next
  case (Cons a p)
  then obtain k' where "k = a # k'" and "p @ x \<le> k'" and "k' \<le> p @ y"
    by (cases k) auto
  with Cons.IH show ?case by auto
qed

subsection \<open>The interface of a fixed-width codec\<close>

text \<open>
  What the layers above rely on of every fixed-size field: its width, and that reading and
  writing are inverse both ways. The lemmas are what a parser of a concatenation of such
  fields needs.
\<close>

locale codec =
  fixes enc :: "'a \<Rightarrow> bytes" and dec :: "bytes \<Rightarrow> 'a" and width :: nat
  assumes length_enc: "length (enc x) = width"
    and dec_enc: "dec (enc x) = x"
    and enc_dec: "length bs = width \<Longrightarrow> enc (dec bs) = bs"
begin

lemma enc_inject: "enc x = enc y \<longleftrightarrow> x = y"
  by (metis dec_enc)

lemma take_enc: "take width (enc x @ r) = enc x"
  by (simp add: length_enc)

lemma drop_enc: "drop width (enc x @ r) = r"
  by (simp add: length_enc)

lemma enc_append_inject: "enc x @ r = enc y @ s \<longleftrightarrow> x = y \<and> r = s"
  by (simp add: length_enc enc_inject append_eq_append_conv)

lemma enc_surj: "length bs = width \<Longrightarrow> \<exists>x. bs = enc x"
  by (metis enc_dec)

end

text \<open>A codec whose encodings sort as its values do: the property a range seek needs.\<close>

locale ordered_codec = codec enc dec width
  for enc :: "'a::linorder \<Rightarrow> bytes" and dec :: "bytes \<Rightarrow> 'a" and width :: nat +
  assumes enc_less: "enc x < enc y \<longleftrightarrow> x < y"
begin

lemma enc_le: "enc x \<le> enc y \<longleftrightarrow> x \<le> y"
  using enc_less enc_inject by (metis order.order_iff_strict)

end

interpretation u32c: ordered_codec "be_bytes 4 :: u32 \<Rightarrow> bytes" be_word 4
  by unfold_locales (simp_all add: be_word_be_bytes be_bytes_be_word be_bytes_less_iff)

interpretation u64c: ordered_codec "be_bytes 8 :: u64 \<Rightarrow> bytes" be_word 8
  by unfold_locales (simp_all add: be_word_be_bytes be_bytes_be_word be_bytes_less_iff)

interpretation addrc: ordered_codec "be_bytes 20 :: address \<Rightarrow> bytes" be_word 20
  by unfold_locales (simp_all add: be_word_be_bytes be_bytes_be_word be_bytes_less_iff)

interpretation hashc: ordered_codec "be_bytes 32 :: hash \<Rightarrow> bytes" be_word 32
  by unfold_locales (simp_all add: be_word_be_bytes be_bytes_be_word be_bytes_less_iff)

lemmas word_codec_simps [codec_simps] =
  u32c.dec_enc u64c.dec_enc addrc.dec_enc hashc.dec_enc
  u32c.enc_inject u64c.enc_inject addrc.enc_inject hashc.enc_inject
  u32c.take_enc u64c.take_enc addrc.take_enc hashc.take_enc
  u32c.drop_enc u64c.drop_enc addrc.drop_enc hashc.drop_enc

subsection \<open>Lists and maps\<close>

lemma fold_upd_other:
  "k \<notin> fst ` set rows \<Longrightarrow> foldl (\<lambda>m (k, v). m(k \<mapsto> v)) m rows k = m k"
  by (induction rows arbitrary: m) auto

lemma foldl_upd_map_add: "foldl (\<lambda>m (k, v). m(k \<mapsto> v)) m rows = m ++ map_of (rev rows)"
  by (induction rows arbitrary: m) auto

end
