(* ===== verification/Lmdb.thy ===== *)
theory Lmdb
  imports Prelude
begin

text \<open>
  The database the program is written against, the third-party package
  \<^verbatim>\<open>github.com/PowerDNS/lmdb-go\<close>. It is a parameter of the model: a record of the operations the
  sources call, over a type \<open>'e\<close> of database states (the tree a transaction sees). The locale
  \<open>lmdb\<close> is its documented contract, stated through the contents \<open>kv e\<close> of a state:
  \<^item> \<^verbatim>\<open>Txn.Get\<close>, \<^verbatim>\<open>Txn.Put\<close> / \<^verbatim>\<open>Cursor.Put\<close>, \<^verbatim>\<open>Txn.Del\<close> and \<^verbatim>\<open>Txn.Drop\<close> read and change
    one map from keys to values;
  \<^item> \<^verbatim>\<open>Cursor.Get\<close> with \<^verbatim>\<open>SetRange\<close>, \<^verbatim>\<open>Next\<close>, \<^verbatim>\<open>Prev\<close>, \<^verbatim>\<open>Last\<close> moves in the order of the
    keys, which is the order of their bytes (a cursor is the key it stands on);
  \<^item> a commit makes what the transaction wrote the new state.

  \<open>lmdb\<close> only says what a successful call does; \<open>healthy_lmdb\<close> adds that no call fails
  for a reason other than a missing key (no I/O error, no full map) on keys of 1 to 511
  bytes, LMDB's limit. Everything that is about a returned value is proved from \<open>healthy_lmdb\<close>;
  what a failed call leaves behind is stated without it.
\<close>

record 'e lmdb_ops =
  mdb_get :: "'e \<Rightarrow> bytes \<Rightarrow> mdb_error + bytes"
  mdb_put :: "'e \<Rightarrow> bytes \<Rightarrow> bytes \<Rightarrow> mdb_error + 'e"
  mdb_del :: "'e \<Rightarrow> bytes \<Rightarrow> mdb_error + 'e"
  mdb_drop :: "'e \<Rightarrow> mdb_error + 'e"
  mdb_commit :: "'e \<Rightarrow> mdb_error + 'e"
  cur_set_range :: "'e \<Rightarrow> bytes \<Rightarrow> mdb_error + bytes \<times> bytes"
  cur_next :: "'e \<Rightarrow> bytes \<Rightarrow> mdb_error + bytes \<times> bytes"
  cur_prev :: "'e \<Rightarrow> bytes \<Rightarrow> mdb_error + bytes \<times> bytes"
  cur_last :: "'e \<Rightarrow> mdb_error + bytes \<times> bytes"

text \<open>
  \<^verbatim>\<open>Env.Update\<close> runs a function in a write transaction: an error of the function aborts (the
  state is the old one), otherwise the transaction commits, and a failing commit leaves the old
  state too. The result is the state and the error, \<open>None\<close> for Go's \<^verbatim>\<open>nil\<close>.
\<close>

definition Update :: "'e lmdb_ops \<Rightarrow> 'e \<Rightarrow> ('e \<Rightarrow> error + 'e) \<Rightarrow> 'e \<times> error option" where
  "Update L e fn =
     (case fn e of
        Inl err \<Rightarrow> (e, Some err)
      | Inr t \<Rightarrow> (case mdb_commit L t of
                    Inl m \<Rightarrow> (e, Some (ErrLmdb m))
                  | Inr e' \<Rightarrow> (e', None)))"

definition lift_mdb :: "mdb_error + 'a \<Rightarrow> error + 'a" where
  "lift_mdb r = (case r of Inl m \<Rightarrow> Inl (ErrLmdb m) | Inr x \<Rightarrow> Inr x)"

definition key_ok :: "bytes \<Rightarrow> bool" where
  "key_ok k \<longleftrightarrow> k \<noteq> [] \<and> length k \<le> 511"

subsection \<open>The contract\<close>

locale lmdb =
  fixes L :: "'e lmdb_ops" and kv :: "'e \<Rightarrow> bytes \<Rightarrow> bytes option"
  assumes get_found: "mdb_get L e k = Inr v \<Longrightarrow> kv e k = Some v"
    and get_missing: "mdb_get L e k = Inl MDB_NOTFOUND \<Longrightarrow> kv e k = None"
    and put_effect: "mdb_put L e k v = Inr e' \<Longrightarrow> kv e' = (kv e)(k \<mapsto> v)"
    and del_effect: "mdb_del L e k = Inr e' \<Longrightarrow> kv e' = (kv e)(k := None)"
    and del_missing: "mdb_del L e k = Inl MDB_NOTFOUND \<Longrightarrow> kv e k = None"
    and drop_effect: "mdb_drop L e = Inr e' \<Longrightarrow> kv e' = Map.empty"
    and commit_effect: "mdb_commit L e = Inr e' \<Longrightarrow> kv e' = kv e"
    and set_range_found: "cur_set_range L e k = Inr (k', v) \<Longrightarrow>
      kv e k' = Some v \<and> k \<le> k' \<and> (\<forall>j \<in> dom (kv e). k \<le> j \<longrightarrow> k' \<le> j)"
    and set_range_missing: "cur_set_range L e k = Inl MDB_NOTFOUND \<Longrightarrow> \<forall>j \<in> dom (kv e). j < k"
    and next_found: "cur_next L e k = Inr (k', v) \<Longrightarrow>
      kv e k' = Some v \<and> k < k' \<and> (\<forall>j \<in> dom (kv e). k < j \<longrightarrow> k' \<le> j)"
    and next_missing: "cur_next L e k = Inl MDB_NOTFOUND \<Longrightarrow> \<forall>j \<in> dom (kv e). j \<le> k"
    and prev_found: "cur_prev L e k = Inr (k', v) \<Longrightarrow>
      kv e k' = Some v \<and> k' < k \<and> (\<forall>j \<in> dom (kv e). j < k \<longrightarrow> j \<le> k')"
    and prev_missing: "cur_prev L e k = Inl MDB_NOTFOUND \<Longrightarrow> \<forall>j \<in> dom (kv e). k \<le> j"
    and last_found: "cur_last L e = Inr (k', v) \<Longrightarrow>
      kv e k' = Some v \<and> (\<forall>j \<in> dom (kv e). j \<le> k')"
    and last_missing: "cur_last L e = Inl MDB_NOTFOUND \<Longrightarrow> kv e = Map.empty"
    and finite_kv: "finite (dom (kv e))"

locale healthy_lmdb = lmdb L kv
  for L :: "'e lmdb_ops" and kv :: "'e \<Rightarrow> bytes \<Rightarrow> bytes option" +
  assumes get_total: "mdb_get L e k = Inl m \<Longrightarrow> m = MDB_NOTFOUND"
    and put_total: "key_ok k \<Longrightarrow> \<exists>e'. mdb_put L e k v = Inr e'"
    and del_total: "mdb_del L e k = Inl m \<Longrightarrow> m = MDB_NOTFOUND"
    and drop_total: "\<exists>e'. mdb_drop L e = Inr e'"
    and commit_total: "\<exists>e'. mdb_commit L e = Inr e'"
    and set_range_total: "cur_set_range L e k = Inl m \<Longrightarrow> m = MDB_NOTFOUND"
    and next_total: "cur_next L e k = Inl m \<Longrightarrow> m = MDB_NOTFOUND"
    and prev_total: "cur_prev L e k = Inl m \<Longrightarrow> m = MDB_NOTFOUND"
    and last_total: "cur_last L e = Inl m \<Longrightarrow> m = MDB_NOTFOUND"
begin

lemma get_eq: "mdb_get L e k = (case kv e k of None \<Rightarrow> Inl MDB_NOTFOUND | Some v \<Rightarrow> Inr v)"
proof (cases "mdb_get L e k")
  case (Inl m)
  with get_total have "mdb_get L e k = Inl MDB_NOTFOUND" by metis
  with get_missing show ?thesis by simp
next
  case (Inr v)
  with get_found show ?thesis by simp
qed

lemma put_eq: "key_ok k \<Longrightarrow> \<exists>e'. mdb_put L e k v = Inr e' \<and> kv e' = (kv e)(k \<mapsto> v)"
  using put_total put_effect by metis

lemma commit_eq: "\<exists>e'. mdb_commit L e = Inr e' \<and> kv e' = kv e"
  using commit_total commit_effect by metis

lemma del_cases:
  obtains (found) e' where "mdb_del L e k = Inr e'" and "kv e' = (kv e)(k := None)"
  | (missing) "mdb_del L e k = Inl MDB_NOTFOUND" and "kv e k = None"
  using del_total del_effect del_missing by (cases "mdb_del L e k") metis+

lemma set_range_cases:
  obtains (found) k' v where "cur_set_range L e k = Inr (k', v)" and "kv e k' = Some v"
      and "k \<le> k'" and "\<And>j. j \<in> dom (kv e) \<Longrightarrow> k \<le> j \<Longrightarrow> k' \<le> j"
  | (missing) "cur_set_range L e k = Inl MDB_NOTFOUND" and "\<And>j. j \<in> dom (kv e) \<Longrightarrow> j < k"
proof (cases "cur_set_range L e k")
  case (Inl m)
  with set_range_total have "cur_set_range L e k = Inl MDB_NOTFOUND" by metis
  with set_range_missing missing show ?thesis by blast
next
  case (Inr p)
  obtain k' v where p: "p = (k', v)" by (cases p)
  show ?thesis
    using set_range_found [OF Inr [unfolded p]] found [OF Inr [unfolded p]] by blast
qed

lemma Update_ok:
  assumes "fn e = Inr t"
  shows "\<exists>e'. Update L e fn = (e', None) \<and> kv e' = kv t"
  using assms commit_eq [of t] by (auto simp: Update_def)

end

subsection \<open>A reference instance\<close>

text \<open>
  An association list, newest binding first: the contract is satisfiable, and witnesses run
  the program on it.
\<close>

type_synonym alist_env = "(bytes \<times> bytes) list"

definition least_key :: "(bytes \<Rightarrow> bool) \<Rightarrow> alist_env \<Rightarrow> mdb_error + bytes \<times> bytes" where
  "least_key P e =
     (case filter P (map fst e) of
        [] \<Rightarrow> Inl MDB_NOTFOUND
      | k # ks \<Rightarrow> (let m = fold min ks k in Inr (m, the (map_of e m))))"

definition greatest_key :: "(bytes \<Rightarrow> bool) \<Rightarrow> alist_env \<Rightarrow> mdb_error + bytes \<times> bytes" where
  "greatest_key P e =
     (case filter P (map fst e) of
        [] \<Rightarrow> Inl MDB_NOTFOUND
      | k # ks \<Rightarrow> (let m = fold max ks k in Inr (m, the (map_of e m))))"

definition alist_lmdb :: "alist_env lmdb_ops" where
  "alist_lmdb = \<lparr>
     mdb_get = (\<lambda>e k. case map_of e k of None \<Rightarrow> Inl MDB_NOTFOUND | Some v \<Rightarrow> Inr v),
     mdb_put = (\<lambda>e k v. if key_ok k then Inr ((k, v) # e) else Inl (MDB_OTHER (- 30781))),
     mdb_del = (\<lambda>e k. case map_of e k of None \<Rightarrow> Inl MDB_NOTFOUND
                      | Some _ \<Rightarrow> Inr (filter (\<lambda>p. fst p \<noteq> k) e)),
     mdb_drop = (\<lambda>e. Inr []),
     mdb_commit = Inr,
     cur_set_range = (\<lambda>e k. least_key (\<lambda>j. k \<le> j) e),
     cur_next = (\<lambda>e k. least_key (\<lambda>j. k < j) e),
     cur_prev = (\<lambda>e k. greatest_key (\<lambda>j. j < k) e),
     cur_last = greatest_key (\<lambda>j. True)\<rparr>"

lemma fold_min_least:
  fixes k :: "'a::linorder"
  shows "fold min ks k \<in> set (k # ks) \<and> (\<forall>j \<in> set (k # ks). fold min ks k \<le> j)"
proof -
  have "fold min ks k = Min (set (k # ks))"
    using Min.set_eq_fold [of k ks] by simp
  then show ?thesis by (simp del: set_simps) 
qed

lemma fold_max_greatest:
  fixes k :: "'a::linorder"
  shows "fold max ks k \<in> set (k # ks) \<and> (\<forall>j \<in> set (k # ks). j \<le> fold max ks k)"
proof -
  have "fold max ks k = Max (set (k # ks))"
    using Max.set_eq_fold [of k ks] by simp
  then show ?thesis by (simp del: set_simps)
qed

lemma least_key_found:
  assumes "least_key P e = Inr (k', v)"
  shows "map_of e k' = Some v \<and> P k' \<and> (\<forall>j \<in> dom (map_of e). P j \<longrightarrow> k' \<le> j)"
proof -
  from assms obtain k ks where f: "filter P (map fst e) = k # ks" and k': "k' = fold min ks k"
    and v: "v = the (map_of e k')"
    by (auto simp: least_key_def Let_def split: list.splits)
  from f have s: "set (k # ks) = {j \<in> fst ` set e. P j}"
    by (metis image_set set_filter)
  from fold_min_least [of ks k] k' s have "k' \<in> fst ` set e" "P k'"
    and "\<forall>j. j \<in> fst ` set e \<longrightarrow> P j \<longrightarrow> k' \<le> j"
    by auto
  moreover from \<open>k' \<in> fst ` set e\<close> v have "map_of e k' = Some v"
    by (metis dom_map_of_conv_image_fst domD option.sel)
  ultimately show ?thesis by (simp add: dom_map_of_conv_image_fst)
qed

lemma greatest_key_found:
  assumes "greatest_key P e = Inr (k', v)"
  shows "map_of e k' = Some v \<and> P k' \<and> (\<forall>j \<in> dom (map_of e). P j \<longrightarrow> j \<le> k')"
proof -
  from assms obtain k ks where f: "filter P (map fst e) = k # ks" and k': "k' = fold max ks k"
    and v: "v = the (map_of e k')"
    by (auto simp: greatest_key_def Let_def split: list.splits)
  from f have s: "set (k # ks) = {j \<in> fst ` set e. P j}"
    by (metis image_set set_filter)
  from fold_max_greatest [of ks k] k' s have "k' \<in> fst ` set e" "P k'"
    and "\<forall>j. j \<in> fst ` set e \<longrightarrow> P j \<longrightarrow> j \<le> k'"
    by auto
  moreover from \<open>k' \<in> fst ` set e\<close> v have "map_of e k' = Some v"
    by (metis dom_map_of_conv_image_fst domD option.sel)
  ultimately show ?thesis by (simp add: dom_map_of_conv_image_fst)
qed

lemma least_key_missing: "least_key P e = Inl m \<Longrightarrow> m = MDB_NOTFOUND \<and> (\<forall>j \<in> dom (map_of e). \<not> P j)"
  by (auto simp: least_key_def Let_def dom_map_of_conv_image_fst filter_empty_conv
      split: list.splits)

lemma greatest_key_missing:
  "greatest_key P e = Inl m \<Longrightarrow> m = MDB_NOTFOUND \<and> (\<forall>j \<in> dom (map_of e). \<not> P j)"
  by (auto simp: greatest_key_def Let_def dom_map_of_conv_image_fst filter_empty_conv
      split: list.splits)

lemma map_of_filter_key: "map_of (filter (\<lambda>p. fst p \<noteq> k) e) = (map_of e)(k := None)"
  by (induction e) auto

lemma least_key_none_from:
  assumes "least_key ((\<le>) k) e = Inl m" and "map_of e j = Some y"
  shows "j < k"
  using least_key_missing [OF assms(1)] assms(2) by (meson domI not_le)

lemma least_key_none_above:
  assumes "least_key ((<) k) e = Inl m" and "map_of e j = Some y"
  shows "j \<le> k"
  using least_key_missing [OF assms(1)] assms(2) by (meson domI not_le)

lemma greatest_key_none_below:
  assumes "greatest_key (\<lambda>j. j < k) e = Inl m" and "map_of e j = Some y"
  shows "k \<le> j"
  using greatest_key_missing [OF assms(1)] assms(2) by (meson domI not_le)

lemmas alist_scan =
  least_key_none_from least_key_none_above greatest_key_none_below
  least_key_found least_key_missing greatest_key_found greatest_key_missing

interpretation alist: healthy_lmdb alist_lmdb map_of
  by unfold_locales
    (auto simp: alist_lmdb_def map_of_filter_key finite_dom_map_of dest: alist_scan
      split: option.splits if_splits)

end
