(* ===== verification/Schema.thy ===== *)
theory Schema
  imports Prelude
begin

text \<open>
  Package \<^verbatim>\<open>schema\<close> (\<^verbatim>\<open>src/schema/schema.go\<close>): the key layout of the main database and the fixed
  encodings. The definitions are those of the package, \<^verbatim>\<open>dst\<close> arguments included. The type
  \<open>row_key\<close> names the rows of the layout without their bytes; \<open>key_bytes\<close> is injective on it,
  so no two rows of the store can meet in one key, and history keys of one prefix sort from the
  newest block to the oldest, which is what a forward \<^verbatim>\<open>SetRange\<close> needs.
\<close>

subsection \<open>Keyspace prefixes and meta keys\<close>

definition PrefMeta :: byte where "PrefMeta = 0x00"
definition PrefAccount :: byte where "PrefAccount = 0x01"
definition PrefSlot :: byte where "PrefSlot = 0x02"
definition PrefDestruct :: byte where "PrefDestruct = 0x03"
definition PrefDiff :: byte where "PrefDiff = 0x04"
definition PrefCode :: byte where "PrefCode = 0x06"
definition PrefBaseAccount :: byte where "PrefBaseAccount = 0x07"
definition PrefBaseSlot :: byte where "PrefBaseSlot = 0x08"
definition PrefStorageQueue :: byte where "PrefStorageQueue = 0x09"

lemmas pref_defs =
  PrefMeta_def PrefAccount_def PrefSlot_def PrefDestruct_def PrefDiff_def PrefCode_def
  PrefBaseAccount_def PrefBaseSlot_def PrefStorageQueue_def

definition MetaGenesis :: bytes where "MetaGenesis = [PrefMeta, 0x01]"
definition MetaBaselineComplete :: bytes where "MetaBaselineComplete = [PrefMeta, 0x02]"
definition MetaFinalized :: bytes where "MetaFinalized = [PrefMeta, 0x03]"
definition MetaBaselineProgress :: bytes where "MetaBaselineProgress = [PrefMeta, 0x04]"

subsection \<open>Slot keys and accounts\<close>

type_synonym skey = "address \<times> hash"

record account =
  Balance :: u256
  Nonce :: u64
  CodeHash :: hash

text \<open>libevm's \<^verbatim>\<open>types.StateAccount\<close>, what an account leaf of the state trie holds.\<close>

record state_account =
  sa_Nonce :: u64
  sa_Balance :: "u256 option"
  sa_Root :: hash
  sa_CodeHash :: bytes

definition zero_account :: account where
  "zero_account = \<lparr>Balance = 0, Nonce = 0, CodeHash = 0\<rparr>"

definition AccountSize :: nat where
  "AccountSize = 32 + 8 + 32"

definition EncodeAccount :: "bytes \<Rightarrow> account \<Rightarrow> bytes" where
  "EncodeAccount dst a =
     dst @ be_bytes 32 (Balance a) @ be_bytes 8 (Nonce a) @ be_bytes 32 (CodeHash a)"

definition DecodeAccount :: "bytes \<Rightarrow> error + account" where
  "DecodeAccount b =
     (if length b \<noteq> AccountSize then Inl (ErrBadLength (length b))
      else Inr \<lparr>Balance = be_word (take 32 b), Nonce = be_word (take 8 (drop 32 b)),
                CodeHash = be_word (take 32 (drop 40 b))\<rparr>)"

subsection \<open>Keys\<close>

definition InvBlock :: "u64 \<Rightarrow> u64" where
  "InvBlock block = NOT block"

definition AppendInvBlock :: "bytes \<Rightarrow> u64 \<Rightarrow> bytes" where
  "AppendInvBlock dst block = dst @ be_bytes 8 (NOT block)"

definition DecodeInvBlock :: "bytes \<Rightarrow> u64" where
  "DecodeInvBlock keyTail = NOT (be_word (take 8 keyTail))"

definition AppendAccountKey :: "bytes \<Rightarrow> address \<Rightarrow> u64 \<Rightarrow> bytes" where
  "AppendAccountKey dst addr block = AppendInvBlock (dst @ [PrefAccount] @ be_bytes 20 addr) block"

definition AppendSlotKey :: "bytes \<Rightarrow> address \<Rightarrow> hash \<Rightarrow> u64 \<Rightarrow> bytes" where
  "AppendSlotKey dst addr slot block =
     AppendInvBlock (dst @ [PrefSlot] @ be_bytes 20 addr @ be_bytes 32 slot) block"

definition AppendDestructKey :: "bytes \<Rightarrow> address \<Rightarrow> u64 \<Rightarrow> bytes" where
  "AppendDestructKey dst addr block = AppendInvBlock (dst @ [PrefDestruct] @ be_bytes 20 addr) block"

definition AppendDiffKey :: "bytes \<Rightarrow> u64 \<Rightarrow> bytes" where
  "AppendDiffKey dst block = dst @ [PrefDiff] @ be_bytes 8 block"

definition AppendCodeKey :: "bytes \<Rightarrow> hash \<Rightarrow> bytes" where
  "AppendCodeKey dst h = dst @ [PrefCode] @ be_bytes 32 h"

definition AppendBaseAccountKey :: "bytes \<Rightarrow> hash \<Rightarrow> bytes" where
  "AppendBaseAccountKey dst addrHash = dst @ [PrefBaseAccount] @ be_bytes 32 addrHash"

definition AppendBaseSlotKey :: "bytes \<Rightarrow> hash \<Rightarrow> hash \<Rightarrow> bytes" where
  "AppendBaseSlotKey dst addrHash slotHash =
     dst @ [PrefBaseSlot] @ be_bytes 32 addrHash @ be_bytes 32 slotHash"

definition AppendStorageQueueKey :: "bytes \<Rightarrow> hash \<Rightarrow> bytes" where
  "AppendStorageQueueKey dst addrHash = dst @ [PrefStorageQueue] @ be_bytes 32 addrHash"

lemmas append_key_defs =
  AppendInvBlock_def AppendAccountKey_def AppendSlotKey_def AppendDestructKey_def
  AppendDiffKey_def AppendCodeKey_def AppendBaseAccountKey_def AppendBaseSlotKey_def
  AppendStorageQueueKey_def

subsection \<open>Accounts round-trip\<close>

lemma length_EncodeAccount: "length (EncodeAccount dst a) = length dst + AccountSize"
  by (simp add: EncodeAccount_def AccountSize_def)

lemma EncodeAccount_append: "EncodeAccount dst a = dst @ EncodeAccount [] a"
  by (simp add: EncodeAccount_def)

lemma DecodeAccount_EncodeAccount [simp]: "DecodeAccount (EncodeAccount [] a) = Inr a"
  by (simp add: DecodeAccount_def EncodeAccount_def AccountSize_def codec_simps)

lemma DecodeAccount_Inr:
  assumes "DecodeAccount b = Inr a"
  shows "b = EncodeAccount [] a"
proof -
  from assms have len: "length b = 72"
    and a: "a = \<lparr>Balance = be_word (take 32 b), Nonce = be_word (take 8 (drop 32 b)),
                CodeHash = be_word (take 32 (drop 40 b))\<rparr>"
    by (auto simp: DecodeAccount_def AccountSize_def split: if_splits)
  have "b = take 32 b @ take 8 (drop 32 b) @ take 32 (drop 40 b)"
    using append_take_drop_id [of 32 b] append_take_drop_id [of 8 "drop 32 b"] len by simp
  with a len show ?thesis
    by (simp add: EncodeAccount_def hashc.enc_dec u64c.enc_dec)
qed

interpretation accountc: codec "EncodeAccount []" "\<lambda>b. projr (DecodeAccount b)" AccountSize
proof unfold_locales
  fix bs :: bytes assume "length bs = AccountSize"
  then obtain a where "DecodeAccount bs = Inr a" by (auto simp: DecodeAccount_def)
  then show "EncodeAccount [] (projr (DecodeAccount bs)) = bs"
    using DecodeAccount_Inr by simp
qed (simp_all add: length_EncodeAccount)

lemma DecodeAccount_total: "length b = AccountSize \<Longrightarrow> \<exists>a. DecodeAccount b = Inr a"
  by (simp add: DecodeAccount_def)

subsection \<open>The rows of the store\<close>

datatype row_key =
    KMeta byte
  | KAccount address u64
  | KSlot address hash u64
  | KDestruct address u64
  | KDiff u64
  | KCode hash
  | KBaseAccount hash
  | KBaseSlot hash hash
  | KQueue hash

fun key_bytes :: "row_key \<Rightarrow> bytes" where
  "key_bytes (KMeta t) = [PrefMeta, t]"
| "key_bytes (KAccount a b) = AppendAccountKey [] a b"
| "key_bytes (KSlot a s b) = AppendSlotKey [] a s b"
| "key_bytes (KDestruct a b) = AppendDestructKey [] a b"
| "key_bytes (KDiff b) = AppendDiffKey [] b"
| "key_bytes (KCode h) = AppendCodeKey [] h"
| "key_bytes (KBaseAccount h) = AppendBaseAccountKey [] h"
| "key_bytes (KBaseSlot h s) = AppendBaseSlotKey [] h s"
| "key_bytes (KQueue h) = AppendStorageQueueKey [] h"

declare key_bytes.simps [simp del]

lemma key_bytes_rows [key_simps]:
  "AppendAccountKey [] a b = key_bytes (KAccount a b)"
  "AppendSlotKey [] a s b = key_bytes (KSlot a s b)"
  "AppendDestructKey [] a b = key_bytes (KDestruct a b)"
  "AppendDiffKey [] b = key_bytes (KDiff b)"
  "AppendCodeKey [] h = key_bytes (KCode h)"
  "AppendBaseAccountKey [] h = key_bytes (KBaseAccount h)"
  "AppendBaseSlotKey [] h s' = key_bytes (KBaseSlot h s')"
  "AppendStorageQueueKey [] h = key_bytes (KQueue h)"
  "MetaGenesis = key_bytes (KMeta 1)"
  "MetaBaselineComplete = key_bytes (KMeta 2)"
  "MetaFinalized = key_bytes (KMeta 3)"
  "MetaBaselineProgress = key_bytes (KMeta 4)"
  by (simp_all add: key_bytes.simps MetaGenesis_def MetaBaselineComplete_def MetaFinalized_def
      MetaBaselineProgress_def)

lemma key_bytes_layout:
  "key_bytes (KAccount a b) = (PrefAccount # be_bytes 20 a) @ be_bytes 8 (NOT b)"
  "key_bytes (KSlot a s b) = (PrefSlot # be_bytes 20 a @ be_bytes 32 s) @ be_bytes 8 (NOT b)"
  "key_bytes (KDestruct a b) = (PrefDestruct # be_bytes 20 a) @ be_bytes 8 (NOT b)"
  "key_bytes (KDiff b) = PrefDiff # be_bytes 8 b"
  "key_bytes (KCode h) = PrefCode # be_bytes 32 h"
  "key_bytes (KBaseAccount h) = PrefBaseAccount # be_bytes 32 h"
  "key_bytes (KBaseSlot h s) = PrefBaseSlot # be_bytes 32 h @ be_bytes 32 s"
  "key_bytes (KQueue h) = PrefStorageQueue # be_bytes 32 h"
  by (simp_all add: key_bytes.simps append_key_defs)

fun key_prefix :: "row_key \<Rightarrow> byte" where
  "key_prefix (KMeta _) = PrefMeta"
| "key_prefix (KAccount _ _) = PrefAccount"
| "key_prefix (KSlot _ _ _) = PrefSlot"
| "key_prefix (KDestruct _ _) = PrefDestruct"
| "key_prefix (KDiff _) = PrefDiff"
| "key_prefix (KCode _) = PrefCode"
| "key_prefix (KBaseAccount _) = PrefBaseAccount"
| "key_prefix (KBaseSlot _ _) = PrefBaseSlot"
| "key_prefix (KQueue _) = PrefStorageQueue"

lemma hd_key_bytes: "hd (key_bytes k) = key_prefix k"
  by (cases k) (simp_all add: key_bytes.simps append_key_defs)

lemma key_prefix_eq:
  "key_prefix k = PrefMeta \<longleftrightarrow> (\<exists>t. k = KMeta t)"
  "key_prefix k = PrefAccount \<longleftrightarrow> (\<exists>a b. k = KAccount a b)"
  "key_prefix k = PrefSlot \<longleftrightarrow> (\<exists>a s b. k = KSlot a s b)"
  "key_prefix k = PrefDestruct \<longleftrightarrow> (\<exists>a b. k = KDestruct a b)"
  "key_prefix k = PrefDiff \<longleftrightarrow> (\<exists>b. k = KDiff b)"
  "key_prefix k = PrefCode \<longleftrightarrow> (\<exists>h. k = KCode h)"
  "key_prefix k = PrefBaseAccount \<longleftrightarrow> (\<exists>h. k = KBaseAccount h)"
  "key_prefix k = PrefBaseSlot \<longleftrightarrow> (\<exists>h s. k = KBaseSlot h s)"
  "key_prefix k = PrefStorageQueue \<longleftrightarrow> (\<exists>h. k = KQueue h)"
  by (cases k; simp add: pref_defs)+

lemma not_block_inject: "NOT b = NOT c \<longleftrightarrow> b = (c :: u64)"
  by (metis bit.double_compl)

lemma key_bytes_inject [simp, key_simps]: "key_bytes k = key_bytes k' \<longleftrightarrow> k = k'"
proof
  assume eq: "key_bytes k = key_bytes k'"
  then have pre: "key_prefix k = key_prefix k'" by (metis hd_key_bytes)
  from pre eq show "k = k'"
    by (cases k; cases k';
        simp add: pref_defs key_bytes.simps append_key_defs codec_simps not_block_inject)
qed simp

lemma length_key_bytes: "2 \<le> length (key_bytes k) \<and> length (key_bytes k) \<le> 65"
  by (cases k) (simp_all add: key_bytes.simps append_key_defs)

lemma key_bytes_nonempty [simp]: "key_bytes k \<noteq> []"
  using length_key_bytes [of k] by auto

lemma NOT_less_iff: "NOT b < NOT c \<longleftrightarrow> c < (b :: u64)"
proof -
  have eq: "NOT x = - 1 - x" for x :: u64 by (simp add: not_eq_complement)
  have max: "x \<le> - 1" for x :: u64 by simp
  show ?thesis
    unfolding eq word_less_nat_alt
    using unat_sub [OF max, of b] unat_sub [OF max, of c]
      max [of b, unfolded word_le_nat_alt] max [of c, unfolded word_le_nat_alt] by linarith
qed

lemma NOT_le_iff: "NOT b \<le> NOT c \<longleftrightarrow> c \<le> (b :: u64)"
  by (simp add: NOT_less_iff flip: not_less)

lemma DecodeInvBlock_tail [simp]: "DecodeInvBlock (be_bytes 8 (NOT b)) = b"
  by (simp add: DecodeInvBlock_def codec_simps)

lemma history_keys_newest_first:
  "key_bytes (KAccount a b) < key_bytes (KAccount a c) \<longleftrightarrow> c < b"
  "key_bytes (KSlot a s b) < key_bytes (KSlot a s c) \<longleftrightarrow> c < b"
  "key_bytes (KDestruct a b) < key_bytes (KDestruct a c) \<longleftrightarrow> c < b"
  by (simp_all only: key_bytes_layout append_less_append_iff u64c.enc_less NOT_less_iff)

end
