(* ===== verification/Capture.thy ===== *)
theory Capture
  imports Schema
begin

text \<open>
  Package \<^verbatim>\<open>capture\<close> (\<^verbatim>\<open>src/capture/capture.go\<close>): the per-block batch of post-image operations, its
  binary encoding (the value of the per-block diff rows and the payload of the tip bus) and the
  decoder with its sticky-error reader. An operation is a tagged union on its kind; \<open>OpUnknown\<close>
  stands for a kind outside the five, on which \<^verbatim>\<open>Encode\<close> panics and the others return an error.
  The lemmas show that decoding inverts encoding, and that whatever \<^verbatim>\<open>Decode\<close> accepts is the
  encoding of what it returns. \<open>destruct_first\<close> and \<open>recreated\<close> are the batch contract of the
  package comment.
\<close>

datatype op =
    OpAccount address account
  | OpSlot address hash hash
  | OpDeleteSlot address hash
  | OpDestruct address
  | OpCode hash bytes
  | OpUnknown byte

fun op_kind :: "op \<Rightarrow> byte" where
  "op_kind (OpAccount _ _) = 1"
| "op_kind (OpSlot _ _ _) = 2"
| "op_kind (OpDeleteSlot _ _) = 3"
| "op_kind (OpDestruct _) = 4"
| "op_kind (OpCode _ _) = 5"
| "op_kind (OpUnknown k) = k"

record batch =
  Block :: u64
  Hash :: hash
  Parent :: hash
  Time :: u64
  Ops :: "op list"

subsection \<open>Encode\<close>

fun encode_op :: "bytes \<Rightarrow> op \<Rightarrow> error + bytes" where
  "encode_op dst (OpAccount a acc) = Inr (EncodeAccount (dst @ [1] @ be_bytes 20 a) acc)"
| "encode_op dst (OpSlot a s v) = Inr (dst @ [2] @ be_bytes 20 a @ be_bytes 32 s @ be_bytes 32 v)"
| "encode_op dst (OpDeleteSlot a s) = Inr (dst @ [3] @ be_bytes 20 a @ be_bytes 32 s)"
| "encode_op dst (OpDestruct a) = Inr (dst @ [4] @ be_bytes 20 a)"
| "encode_op dst (OpCode h c) =
     Inr (dst @ [5] @ be_bytes 32 h @ be_bytes 4 (of_nat (length c) :: u32) @ c)"
| "encode_op dst (OpUnknown k) = Inl (Panic ''capture: unknown op kind'')"

fun encode_ops :: "bytes \<Rightarrow> op list \<Rightarrow> error + bytes" where
  "encode_ops dst [] = Inr dst"
| "encode_ops dst (op # ops) =
     (case encode_op dst op of Inl e \<Rightarrow> Inl e | Inr dst' \<Rightarrow> encode_ops dst' ops)"

definition Encode :: "bytes \<Rightarrow> batch \<Rightarrow> error + bytes" where
  "Encode dst b =
     encode_ops
       (dst @ be_bytes 8 (Block b) @ be_bytes 32 (Hash b) @ be_bytes 32 (Parent b)
          @ be_bytes 8 (Time b) @ be_bytes 4 (of_nat (length (Ops b)) :: u32))
       (Ops b)"

subsection \<open>Decode\<close>

record reader =
  rd_b :: bytes
  rd_err :: "error option"

definition rd_take :: "nat \<Rightarrow> reader \<Rightarrow> bytes option \<times> reader" where
  "rd_take n r =
     (if rd_err r \<noteq> None then (None, r)
      else if length (rd_b r) < n then (None, r\<lparr>rd_err := Some ErrTruncated\<rparr>)
      else (Some (take n (rd_b r)), r\<lparr>rd_b := drop n (rd_b r)\<rparr>))"

definition rd_u8 :: "reader \<Rightarrow> byte \<times> reader" where
  "rd_u8 r = (case rd_take 1 r of (None, r') \<Rightarrow> (0, r') | (Some v, r') \<Rightarrow> (hd v, r'))"

definition rd_u32 :: "reader \<Rightarrow> u32 \<times> reader" where
  "rd_u32 r = (case rd_take 4 r of (None, r') \<Rightarrow> (0, r') | (Some v, r') \<Rightarrow> (be_word v, r'))"

definition rd_u64 :: "reader \<Rightarrow> u64 \<times> reader" where
  "rd_u64 r = (case rd_take 8 r of (None, r') \<Rightarrow> (0, r') | (Some v, r') \<Rightarrow> (be_word v, r'))"

text \<open>\<^verbatim>\<open>r.bytes(dst)\<close> for a fresh, all-zero \<^verbatim>\<open>dst\<close> of \<open>n\<close> bytes: its contents afterwards.\<close>

definition rd_bytes :: "nat \<Rightarrow> reader \<Rightarrow> bytes \<times> reader" where
  "rd_bytes n r =
     (case rd_take n r of (None, r') \<Rightarrow> (replicate n 0, r') | (Some v, r') \<Rightarrow> (v, r'))"

definition decode_op :: "reader \<Rightarrow> op \<times> reader" where
  "decode_op r0 =
     (case rd_u8 r0 of (kind, r) \<Rightarrow>
      if kind = 1 then
        (case rd_bytes 20 r of (a, r1) \<Rightarrow>
         case rd_bytes AccountSize r1 of (enc, r2) \<Rightarrow>
           (if rd_err r2 = None then
              (case DecodeAccount enc of
                 Inl e \<Rightarrow> (OpAccount (be_word a) zero_account, r2\<lparr>rd_err := Some e\<rparr>)
               | Inr acc \<Rightarrow> (OpAccount (be_word a) acc, r2))
            else (OpAccount (be_word a) zero_account, r2)))
      else if kind = 2 then
        (case rd_bytes 20 r of (a, r1) \<Rightarrow>
         case rd_bytes 32 r1 of (s, r2) \<Rightarrow>
         case rd_bytes 32 r2 of (v, r3) \<Rightarrow> (OpSlot (be_word a) (be_word s) (be_word v), r3))
      else if kind = 3 then
        (case rd_bytes 20 r of (a, r1) \<Rightarrow>
         case rd_bytes 32 r1 of (s, r2) \<Rightarrow> (OpDeleteSlot (be_word a) (be_word s), r2))
      else if kind = 4 then
        (case rd_bytes 20 r of (a, r1) \<Rightarrow> (OpDestruct (be_word a), r1))
      else if kind = 5 then
        (case rd_bytes 32 r of (h, r1) \<Rightarrow>
         case rd_u32 r1 of (cl, r2) \<Rightarrow>
         case rd_bytes (unat cl) r2 of (c, r3) \<Rightarrow> (OpCode (be_word h) c, r3))
      else
        (OpUnknown kind,
         if rd_err r = None then r\<lparr>rd_err := Some (ErrUnknownKind kind)\<rparr> else r))"

fun decode_ops :: "nat \<Rightarrow> reader \<Rightarrow> op list \<Rightarrow> error + op list \<times> reader" where
  "decode_ops 0 r ops = Inr (ops, r)"
| "decode_ops (Suc n) r ops =
     (case decode_op r of (op, r') \<Rightarrow>
        (case rd_err r' of Some e \<Rightarrow> Inl e | None \<Rightarrow> decode_ops n r' (ops @ [op])))"

definition Decode :: "bytes \<Rightarrow> error + batch" where
  "Decode data =
     (case rd_u64 \<lparr>rd_b = data, rd_err = None\<rparr> of (block, r1) \<Rightarrow>
      case rd_bytes 32 r1 of (h, r2) \<Rightarrow>
      case rd_bytes 32 r2 of (p, r3) \<Rightarrow>
      case rd_u64 r3 of (t, r4) \<Rightarrow>
      case rd_u32 r4 of (n, r5) \<Rightarrow>
        (case rd_err r5 of
           Some e \<Rightarrow> Inl e
         | None \<Rightarrow>
             (case decode_ops (unat n) r5 [] of
                Inl e \<Rightarrow> Inl e
              | Inr (ops, r6) \<Rightarrow>
                  (if length (rd_b r6) \<noteq> 0 then Inl (ErrTrailing (length (rd_b r6)))
                   else Inr \<lparr>Block = block, Hash = be_word h, Parent = be_word p, Time = t,
                             Ops = ops\<rparr>))))"

subsection \<open>The batch contract\<close>

text \<open>
  The encoder writes lengths as \<^verbatim>\<open>uint32\<close>; \<open>sized\<close> says that no length is cut off and no
  kind is unknown.
\<close>

fun op_sized :: "op \<Rightarrow> bool" where
  "op_sized (OpCode h c) \<longleftrightarrow> length c < 2 ^ 32"
| "op_sized (OpUnknown k) \<longleftrightarrow> False"
| "op_sized _ \<longleftrightarrow> True"

definition sized :: "batch \<Rightarrow> bool" where
  "sized b \<longleftrightarrow> length (Ops b) < 2 ^ 32 \<and> list_all op_sized (Ops b)"

fun op_writes :: "op \<Rightarrow> address \<Rightarrow> bool" where
  "op_writes (OpAccount a acc) x \<longleftrightarrow> a = x"
| "op_writes (OpSlot a s v) x \<longleftrightarrow> a = x"
| "op_writes (OpDeleteSlot a s) x \<longleftrightarrow> a = x"
| "op_writes _ x \<longleftrightarrow> False"

fun op_writes_slot :: "op \<Rightarrow> address \<Rightarrow> bool" where
  "op_writes_slot (OpSlot a s v) x \<longleftrightarrow> a = x"
| "op_writes_slot (OpDeleteSlot a s) x \<longleftrightarrow> a = x"
| "op_writes_slot _ x \<longleftrightarrow> False"

fun op_sets_account :: "op \<Rightarrow> address \<Rightarrow> bool" where
  "op_sets_account (OpAccount a acc) x \<longleftrightarrow> a = x"
| "op_sets_account _ x \<longleftrightarrow> False"

text \<open>A destruct comes before every other operation on its address.\<close>

fun destruct_first :: "op list \<Rightarrow> bool" where
  "destruct_first [] \<longleftrightarrow> True"
| "destruct_first (op # ops) \<longleftrightarrow>
     list_all (\<lambda>q. case q of OpDestruct a \<Rightarrow> \<not> op_writes op a | _ \<Rightarrow> True) ops
     \<and> destruct_first ops"

text \<open>Slots written in the block of a destruct belong to an account recreated in that block.\<close>

definition recreated :: "op list \<Rightarrow> bool" where
  "recreated ops \<longleftrightarrow>
     list_all (\<lambda>q. case q of
        OpDestruct a \<Rightarrow> list_ex (\<lambda>p. op_writes_slot p a) ops \<longrightarrow> list_ex (\<lambda>p. op_sets_account p a) ops
      | _ \<Rightarrow> True) ops"

definition contract :: "batch \<Rightarrow> bool" where
  "contract b \<longleftrightarrow> sized b \<and> destruct_first (Ops b) \<and> recreated (Ops b)"

subsection \<open>Decoding inverts encoding\<close>

lemma rd_take_append [simp]:
  "length x = n \<Longrightarrow> rd_take n \<lparr>rd_b = x @ y, rd_err = None\<rparr> = (Some x, \<lparr>rd_b = y, rd_err = None\<rparr>)"
  by (simp add: rd_take_def)

lemma rd_fields [codec_simps]:
  "rd_u8 \<lparr>rd_b = k # y, rd_err = None\<rparr> = (k, \<lparr>rd_b = y, rd_err = None\<rparr>)"
  "rd_u32 \<lparr>rd_b = be_bytes 4 (w :: u32) @ y, rd_err = None\<rparr> = (w, \<lparr>rd_b = y, rd_err = None\<rparr>)"
  "rd_u64 \<lparr>rd_b = be_bytes 8 (q :: u64) @ y, rd_err = None\<rparr> = (q, \<lparr>rd_b = y, rd_err = None\<rparr>)"
  "length x = n \<Longrightarrow> rd_bytes n \<lparr>rd_b = x @ y, rd_err = None\<rparr> = (x, \<lparr>rd_b = y, rd_err = None\<rparr>)"
  using rd_take_append [of "[k]" 1 y]
  by (simp_all add: rd_u8_def rd_u32_def rd_u64_def rd_bytes_def u32c.dec_enc u64c.dec_enc)

lemma encode_op_append: "encode_op dst op = map_sum id ((@) dst) (encode_op [] op)"
  by (cases op) (simp_all add: EncodeAccount_def)

lemma encode_ops_append: "encode_ops dst ops = map_sum id ((@) dst) (encode_ops [] ops)"
proof (induction ops arbitrary: dst)
  case Nil
  then show ?case by simp
next
  case (Cons op ops)
  show ?case
  proof (cases "encode_op [] op")
    case (Inl e)
    then show ?thesis by (simp add: encode_op_append [of dst])
  next
    case (Inr x)
    then show ?thesis
      using Cons.IH [of "dst @ x"] Cons.IH [of x]
      by (cases "encode_ops [] ops") (simp_all add: encode_op_append [of dst])
  qed
qed

lemma encode_ops_Inr_iff:
  "encode_ops dst ops = Inr x \<longleftrightarrow> (\<exists>y. encode_ops [] ops = Inr y \<and> x = dst @ y)"
  unfolding encode_ops_append [of dst] by (cases "encode_ops [] ops") auto

lemma decode_encode_op:
  assumes "op_sized op" and "encode_op [] op = Inr x"
  shows "decode_op \<lparr>rd_b = x @ y, rd_err = None\<rparr> = (op, \<lparr>rd_b = y, rd_err = None\<rparr>)"
  using assms
proof (cases op)
  case (OpAccount a acc)
  have "length (EncodeAccount [] acc) = AccountSize" by (simp add: length_EncodeAccount)
  moreover from OpAccount assms have "x = 1 # be_bytes 20 a @ EncodeAccount [] acc"
    by (simp add: EncodeAccount_append [of "_ # _"])
  ultimately show ?thesis using OpAccount
    by (simp add: decode_op_def codec_simps)
next
  case (OpCode h c)
  with assms have "unat (of_nat (length c) :: u32) = length c"
    by (simp add: unat_of_nat)
  with OpCode assms show ?thesis
    by (auto simp: decode_op_def codec_simps)
qed (auto simp: decode_op_def codec_simps)

lemma decode_encode_ops:
  assumes "list_all op_sized ops" and "encode_ops [] ops = Inr x"
  shows "decode_ops (length ops) \<lparr>rd_b = x @ y, rd_err = None\<rparr> acc
    = Inr (acc @ ops, \<lparr>rd_b = y, rd_err = None\<rparr>)"
  using assms
proof (induction ops arbitrary: x acc)
  case Nil
  then show ?case by simp
next
  case (Cons op ops)
  from Cons.prems(2) obtain u where u: "encode_op [] op = Inr u" and "encode_ops u ops = Inr x"
    by (auto split: sum.splits)
  then obtain v where "encode_ops [] ops = Inr v" and "x = u @ v"
    unfolding encode_ops_Inr_iff [of u] by blast
  with u Cons.prems(1) Cons.IH [of v] decode_encode_op [of op u] show ?case
    by simp
qed

lemma encode_op_total: "op_sized op \<Longrightarrow> \<exists>x. encode_op [] op = Inr x"
  by (cases op) simp_all

lemma encode_ops_total: "list_all op_sized ops \<Longrightarrow> \<exists>x. encode_ops dst ops = Inr x"
proof (induction ops arbitrary: dst)
  case (Cons op ops)
  then show ?case using encode_op_total [of op] by (auto simp: encode_op_append [of dst])
qed simp

lemma Encode_total: "sized b \<Longrightarrow> \<exists>x. Encode dst b = Inr x"
  by (simp add: sized_def Encode_def encode_ops_total)

lemma Decode_Encode:
  assumes "sized b" and "Encode [] b = Inr x"
  shows "Decode x = Inr b"
proof -
  let ?hdr = "be_bytes 8 (Block b) @ be_bytes 32 (Hash b) @ be_bytes 32 (Parent b)
    @ be_bytes 8 (Time b) @ be_bytes 4 (of_nat (length (Ops b)) :: u32)"
  from assms obtain y where y: "encode_ops [] (Ops b) = Inr y" and x: "x = ?hdr @ y"
    unfolding Encode_def encode_ops_Inr_iff [of "[] @ ?hdr"] by auto
  have n: "unat (of_nat (length (Ops b)) :: u32) = length (Ops b)"
    using assms(1) by (simp add: sized_def unat_of_nat)
  have "decode_ops (length (Ops b)) \<lparr>rd_b = y, rd_err = None\<rparr> []
      = Inr (Ops b, \<lparr>rd_b = [], rd_err = None\<rparr>)"
    using decode_encode_ops [of "Ops b" y "[]" "[]"] y assms(1) by (simp add: sized_def)
  then show ?thesis
    unfolding Decode_def x by (simp add: codec_simps n)
qed

subsection \<open>What is decoded is the encoding of the result\<close>

lemma rd_bytes_ok:
  assumes "rd_bytes n r = (v, r')" and "rd_err r' = None"
  shows "rd_err r = None \<and> rd_b r = v @ rd_b r' \<and> length v = n"
  using assms by (auto simp: rd_bytes_def rd_take_def split: if_splits)

lemma rd_u8_ok:
  assumes "rd_u8 r = (k, r')" and "rd_err r' = None"
  shows "rd_err r = None \<and> rd_b r = k # rd_b r'"
  using assms by (cases "rd_b r") (auto simp: rd_u8_def rd_take_def split: if_splits)

lemma rd_u32_ok:
  assumes "rd_u32 r = (w, r')" and "rd_err r' = None"
  shows "rd_err r = None \<and> rd_b r = be_bytes 4 w @ rd_b r'"
  using assms by (auto simp: rd_u32_def rd_take_def u32c.enc_dec split: if_splits)

lemma rd_u64_ok:
  assumes "rd_u64 r = (w, r')" and "rd_err r' = None"
  shows "rd_err r = None \<and> rd_b r = be_bytes 8 w @ rd_b r'"
  using assms by (auto simp: rd_u64_def rd_take_def u64c.enc_dec split: if_splits)

lemmas rd_ok = rd_bytes_ok rd_u8_ok rd_u32_ok rd_u64_ok

lemma decode_op_ok:
  assumes "decode_op r = (op, r')" and "rd_err r' = None"
  shows "rd_err r = None \<and> op_sized op
    \<and> (\<exists>x. encode_op [] op = Inr x \<and> rd_b r = x @ rd_b r')"
proof -
  obtain k r1 where k: "rd_u8 r = (k, r1)" by (cases "rd_u8 r")
  consider "k = 1" | "k = 2" | "k = 3" | "k = 4" | "k = 5" | "k \<notin> {1, 2, 3, 4, 5}" by blast
  then show ?thesis
  proof cases
    case 1
    obtain a r2 where a: "rd_bytes 20 r1 = (a, r2)" by (cases "rd_bytes 20 r1")
    obtain e r3 where e: "rd_bytes AccountSize r2 = (e, r3)" by (cases "rd_bytes AccountSize r2")
    from assms k a e 1 obtain acc where "DecodeAccount e = Inr acc"
      and op: "op = OpAccount (be_word a) acc" "r' = r3"
      by (auto simp: decode_op_def split: if_splits sum.splits)
    then have "e = EncodeAccount [] acc" using DecodeAccount_Inr by simp
    with rd_bytes_ok [OF e] rd_bytes_ok [OF a] rd_u8_ok [OF k] op assms(2) 1 show ?thesis
      by (simp add: EncodeAccount_append [of "_ # _"] addrc.enc_dec)
  next
    case 2
    with assms k show ?thesis
      by (auto simp: decode_op_def addrc.enc_dec hashc.enc_dec split: prod.splits dest!: rd_ok)
  next
    case 3
    with assms k show ?thesis
      by (auto simp: decode_op_def addrc.enc_dec hashc.enc_dec split: prod.splits dest!: rd_ok)
  next
    case 4
    with assms k show ?thesis
      by (auto simp: decode_op_def addrc.enc_dec split: prod.splits dest!: rd_ok)
  next
    case 5
    obtain h r2 where h: "rd_bytes 32 r1 = (h, r2)" by (cases "rd_bytes 32 r1")
    obtain n r3 where n: "rd_u32 r2 = (n, r3)" by (cases "rd_u32 r2")
    obtain c r4 where c: "rd_bytes (unat n) r3 = (c, r4)" by (cases "rd_bytes (unat n) r3")
    from assms k h n c 5 have op: "op = OpCode (be_word h) c" "r' = r4"
      by (auto simp: decode_op_def)
    from rd_bytes_ok [OF c] op assms(2) have len: "length c = unat n" by simp
    then have "of_nat (length c) = n" and "length c < 2 ^ 32"
      using unsigned_less [of n, where 'a = nat] by simp_all
    with rd_bytes_ok [OF c] rd_u32_ok [OF n] rd_bytes_ok [OF h] rd_u8_ok [OF k] op assms(2) 5
    show ?thesis by (simp add: hashc.enc_dec)
  next
    case 6
    with assms k show ?thesis by (auto simp: decode_op_def split: if_splits)
  qed
qed

lemma decode_ops_ok:
  assumes "decode_ops n r acc = Inr (ops, r')" and "rd_err r = None"
  shows "\<exists>new x. ops = acc @ new \<and> length new = n \<and> list_all op_sized new \<and> rd_err r' = None
    \<and> encode_ops [] new = Inr x \<and> rd_b r = x @ rd_b r'"
  using assms
proof (induction n arbitrary: r acc)
  case 0
  then show ?case by simp
next
  case (Suc n)
  obtain op r1 where d: "decode_op r = (op, r1)" by (cases "decode_op r")
  with Suc.prems have err: "rd_err r1 = None"
    and rest: "decode_ops n r1 (acc @ [op]) = Inr (ops, r')"
    by (auto split: option.splits)
  from decode_op_ok [OF d err] obtain u where "op_sized op" "encode_op [] op = Inr u"
    "rd_b r = u @ rd_b r1" by blast
  moreover from Suc.IH [OF rest err] obtain new x where "ops = (acc @ [op]) @ new"
    "length new = n" "list_all op_sized new" "rd_err r' = None"
    "encode_ops [] new = Inr x" "rd_b r1 = x @ rd_b r'" by blast
  ultimately have "ops = acc @ (op # new)" "length (op # new) = Suc n"
    "list_all op_sized (op # new)" "rd_err r' = None"
    "encode_ops [] (op # new) = Inr (u @ x)" "rd_b r = (u @ x) @ rd_b r'"
    by (auto simp: encode_ops_Inr_iff [of u])
  then show ?case by blast
qed

lemma Encode_Decode:
  assumes "Decode data = Inr b"
  shows "sized b \<and> Encode [] b = Inr data"
proof -
  obtain blk r1 where 1: "rd_u64 \<lparr>rd_b = data, rd_err = None\<rparr> = (blk, r1)" by fastforce
  obtain h r2 where 2: "rd_bytes 32 r1 = (h, r2)" by fastforce
  obtain p r3 where 3: "rd_bytes 32 r2 = (p, r3)" by fastforce
  obtain t r4 where 4: "rd_u64 r3 = (t, r4)" by fastforce
  obtain n r5 where 5: "rd_u32 r4 = (n, r5)" by fastforce
  from assms 1 2 3 4 5 have err: "rd_err r5 = None"
    by (auto simp: Decode_def split: option.splits)
  with assms 1 2 3 4 5 obtain ops r6 where 6: "decode_ops (unat n) r5 [] = Inr (ops, r6)"
    and nil: "rd_b r6 = []" and b: "b = \<lparr>Block = blk, Hash = be_word h, Parent = be_word p,
      Time = t, Ops = ops\<rparr>"
    by (auto simp: Decode_def split: sum.splits if_splits)
  from decode_ops_ok [OF 6 err] nil obtain x where len: "length ops = unat n"
    and sz: "list_all op_sized ops" and x: "encode_ops [] ops = Inr x" and "rd_b r5 = x"
    by auto
  with rd_u32_ok [OF 5 err] rd_u64_ok [OF 4] rd_bytes_ok [OF 3] rd_bytes_ok [OF 2] rd_u64_ok [OF 1]
  have "data = be_bytes 8 blk @ h @ p @ be_bytes 8 t @ be_bytes 4 n @ x"
    and "length h = 32" and "length p = 32"
    by simp_all
  moreover from len have "of_nat (length ops) = n" and "length ops < 2 ^ 32"
    using unsigned_less [of n, where 'a = nat] by simp_all
  ultimately show ?thesis using b sz x
    by (simp add: sized_def Encode_def hashc.enc_dec encode_ops_Inr_iff [of "_ @ _"])
qed

lemma Decode_iff: "Decode data = Inr b \<longleftrightarrow> sized b \<and> Encode [] b = Inr data"
  using Encode_Decode Decode_Encode by blast

lemma Encode_append: "Encode dst b = map_sum id ((@) dst) (Encode [] b)"
  unfolding Encode_def encode_ops_append [of "dst @ _"] encode_ops_append [of "[] @ _"]
  by (cases "encode_ops [] (Ops b)") simp_all

end
