(* ===== verification/World.thy ===== *)
theory World
  imports Capture
begin

text \<open>
  The abstract specification the components are refined to: the chain state as two total
  functions, what one captured operation does to it, and what a batch does as a whole. A batch
  determines, for every account and slot, either a new value or nothing (\<open>acct_effect\<close>,
  \<open>slot_effect\<close>); this is the view a layer of the in-memory stack compiles it into, and it makes
  a batch idempotent, the fact behind crash replay and behind reads that race a commit.
\<close>

record world =
  w_acct :: "address \<Rightarrow> account option"
  w_slot :: "address \<Rightarrow> hash \<Rightarrow> hash"

text \<open>How the readers of the program return an account: Go's pair of value and \<^verbatim>\<open>exists\<close>.\<close>

definition acct_res :: "account option \<Rightarrow> account \<times> bool" where
  "acct_res r = (case r of Some acc \<Rightarrow> (acc, True) | None \<Rightarrow> (zero_account, False))"

lemma acct_res_simps [simp]:
  "acct_res None = (zero_account, False)" "acct_res (Some acc) = (acc, True)"
  by (simp_all add: acct_res_def)

lemma acct_res_inject [simp]: "acct_res r = acct_res q \<longleftrightarrow> r = q"
  by (auto simp: acct_res_def split: option.splits)

fun apply_op :: "op \<Rightarrow> world \<Rightarrow> world" where
  "apply_op (OpAccount a acc) w = w\<lparr>w_acct := (w_acct w)(a := Some acc)\<rparr>"
| "apply_op (OpSlot a s v) w = w\<lparr>w_slot := (w_slot w)(a := (w_slot w a)(s := v))\<rparr>"
| "apply_op (OpDeleteSlot a s) w = w\<lparr>w_slot := (w_slot w)(a := (w_slot w a)(s := 0))\<rparr>"
| "apply_op (OpDestruct a) w =
     w\<lparr>w_acct := (w_acct w)(a := None), w_slot := (w_slot w)(a := (\<lambda>_. 0))\<rparr>"
| "apply_op (OpCode h c) w = w"
| "apply_op (OpUnknown k) w = w"

definition apply_ops :: "op list \<Rightarrow> world \<Rightarrow> world" where
  "apply_ops ops w = fold apply_op ops w"

definition apply_batch :: "batch \<Rightarrow> world \<Rightarrow> world" where
  "apply_batch b w = apply_ops (Ops b) w"

definition apply_chain :: "batch list \<Rightarrow> world \<Rightarrow> world" where
  "apply_chain bs w = fold apply_batch bs w"

lemma apply_ops_simps [simp]:
  "apply_ops [] w = w"
  "apply_ops (op # ops) w = apply_ops ops (apply_op op w)"
  "apply_ops (xs @ ys) w = apply_ops ys (apply_ops xs w)"
  by (simp_all add: apply_ops_def)

lemma apply_chain_simps [simp]:
  "apply_chain [] w = w"
  "apply_chain (b # bs) w = apply_chain bs (apply_batch b w)"
  "apply_chain (xs @ ys) w = apply_chain ys (apply_chain xs w)"
  by (simp_all add: apply_chain_def)

subsection \<open>The effect of a batch\<close>

fun acct_eff :: "op \<Rightarrow> address \<Rightarrow> account option option" where
  "acct_eff (OpAccount a acc) x = (if x = a then Some (Some acc) else None)"
| "acct_eff (OpDestruct a) x = (if x = a then Some None else None)"
| "acct_eff _ x = None"

fun slot_eff :: "op \<Rightarrow> address \<Rightarrow> hash \<Rightarrow> hash option" where
  "slot_eff (OpSlot a s v) x y = (if x = a \<and> y = s then Some v else None)"
| "slot_eff (OpDeleteSlot a s) x y = (if x = a \<and> y = s then Some 0 else None)"
| "slot_eff (OpDestruct a) x y = (if x = a then Some 0 else None)"
| "slot_eff _ x y = None"

fun acct_effect :: "op list \<Rightarrow> address \<Rightarrow> account option option" where
  "acct_effect [] x = None"
| "acct_effect (op # ops) x =
     (case acct_effect ops x of Some r \<Rightarrow> Some r | None \<Rightarrow> acct_eff op x)"

fun slot_effect :: "op list \<Rightarrow> address \<Rightarrow> hash \<Rightarrow> hash option" where
  "slot_effect [] x y = None"
| "slot_effect (op # ops) x y =
     (case slot_effect ops x y of Some r \<Rightarrow> Some r | None \<Rightarrow> slot_eff op x y)"

lemma w_acct_apply_op: "w_acct (apply_op op w) x = (case acct_eff op x of None \<Rightarrow> w_acct w x | Some r \<Rightarrow> r)"
  by (cases op) auto

lemma w_slot_apply_op:
  "w_slot (apply_op op w) x y = (case slot_eff op x y of None \<Rightarrow> w_slot w x y | Some r \<Rightarrow> r)"
  by (cases op) auto

lemma w_acct_apply_ops:
  "w_acct (apply_ops ops w) x = (case acct_effect ops x of None \<Rightarrow> w_acct w x | Some r \<Rightarrow> r)"
  by (induction ops arbitrary: w) (auto simp: w_acct_apply_op split: option.splits)

lemma w_slot_apply_ops:
  "w_slot (apply_ops ops w) x y = (case slot_effect ops x y of None \<Rightarrow> w_slot w x y | Some r \<Rightarrow> r)"
  by (induction ops arbitrary: w) (auto simp: w_slot_apply_op split: option.splits)

lemmas world_effects = w_acct_apply_ops w_slot_apply_ops

lemma world_eqI:
  assumes "\<And>x. w_acct v x = w_acct w x" and "\<And>x y. w_slot v x y = w_slot w x y"
  shows "v = (w :: world)"
  using assms by (simp add: fun_eq_iff)

lemma apply_batch_idem [simp]: "apply_batch b (apply_batch b w) = apply_batch b w"
  by (rule world_eqI) (simp_all add: apply_batch_def world_effects split: option.splits)

lemma acct_effect_append:
  "acct_effect (xs @ ys) x = (case acct_effect ys x of Some r \<Rightarrow> Some r | None \<Rightarrow> acct_effect xs x)"
  by (induction xs) (auto split: option.splits)

lemma slot_effect_append:
  "slot_effect (xs @ ys) x y = (case slot_effect ys x y of Some r \<Rightarrow> Some r | None \<Rightarrow> slot_effect xs x y)"
  by (induction xs) (auto split: option.splits)

lemma destruct_slot_effect:
  "acct_effect ops x = Some None \<Longrightarrow> slot_effect ops x y \<noteq> None"
proof (induction ops)
  case (Cons op ops)
  then show ?case by (cases op) (auto split: option.splits if_splits)
qed simp

subsection \<open>Storage belongs to existing accounts\<close>

text \<open>
  No account, no storage: the property of chain states under which a reader may answer zero for
  every slot of an account it knows not to exist. A batch keeps it when every slot it leaves
  written belongs to an account that exists after the batch.
\<close>

definition no_orphans :: "world \<Rightarrow> bool" where
  "no_orphans w \<longleftrightarrow> (\<forall>x y. w_acct w x = None \<longrightarrow> w_slot w x y = 0)"

lemma no_orphansD: "no_orphans w \<Longrightarrow> w_acct w x = None \<Longrightarrow> w_slot w x y = 0"
  by (simp add: no_orphans_def)

subsection \<open>Chains of batches\<close>

abbreviation chain_ops :: "batch list \<Rightarrow> op list" where
  "chain_ops bs \<equiv> concat (map Ops bs)"

lemma apply_chain_ops: "apply_chain bs w = apply_ops (chain_ops bs) w"
  by (induction bs arbitrary: w) (simp_all add: apply_batch_def)

text \<open>The worlds a chain passes through, the first one included.\<close>

fun worlds :: "batch list \<Rightarrow> world \<Rightarrow> world list" where
  "worlds [] w = [w]"
| "worlds (b # bs) w = w # worlds bs (apply_batch b w)"

lemma worlds_ends: "w \<in> set (worlds bs w)" "apply_chain bs w \<in> set (worlds bs w)"
proof -
  show "w \<in> set (worlds bs w)" by (cases bs) simp_all
  show "apply_chain bs w \<in> set (worlds bs w)" by (induction bs arbitrary: w) simp_all
qed

lemma worlds_snoc: "worlds (bs @ [b]) w = worlds bs w @ [apply_batch b (apply_chain bs w)]"
  by (induction bs arbitrary: w) simp_all

lemma worlds_untouched:
  assumes "v \<in> set (worlds bs w)"
  shows "acct_effect (chain_ops bs) x = None \<Longrightarrow> w_acct v x = w_acct (apply_chain bs w) x"
    and "slot_effect (chain_ops bs) x y = None \<Longrightarrow> w_slot v x y = w_slot (apply_chain bs w) x y"
  using assms
proof (induction bs arbitrary: w)
  case (Cons b bs)
  {
    case 1
    with Cons.IH(1) [of "apply_batch b w"] show ?case
      by (auto simp: apply_chain_ops apply_batch_def world_effects acct_effect_append split: option.splits)
  next
    case 2
    with Cons.IH(2) [of "apply_batch b w"] show ?case
      by (auto simp: apply_chain_ops apply_batch_def world_effects slot_effect_append split: option.splits)
  }
qed simp_all

text \<open>Applying a batch that was the first of those already applied changes nothing below them.\<close>

lemma apply_chain_absorb:
  "apply_chain (b # bs) (apply_chain (b # pend) w) = apply_chain bs (apply_chain (b # pend) w)"
  if "bs = pend @ rest"
  by (rule world_eqI)
    (auto simp: that apply_chain_ops apply_batch_def world_effects acct_effect_append
      slot_effect_append split: option.splits)

lemma apply_chain_written:
  "apply_chain (pend @ b # rest) (apply_batch b (apply_chain pend w))
     = apply_chain (pend @ b # rest) (apply_chain pend w)"
  by (rule world_eqI)
    (auto simp: apply_chain_ops apply_batch_def world_effects acct_effect_append
      slot_effect_append split: option.splits)

end
