(* ===== verification/Store.thy ===== *)
theory Store
  imports Lmdb World
begin

text \<open>
  Package \<^verbatim>\<open>store\<close>, write side (\<^verbatim>\<open>src/store/store.go\<close>): the handle with its two cached flags, the
  meta rows, the per-block write transaction and the bulk loader of the baseline. The handle is
  passed and returned; \<open>None\<close> is Go's \<^verbatim>\<open>nil\<close> error. The database \<open>L\<close> is the parameter of
  theory \<open>Lmdb\<close>. The lemmas give the effect of every operation on the contents of the database
  and show that each keeps the layout (\<open>wf_rows\<close>) and the caches right (\<open>db_ok\<close>).
\<close>

record 'e db =
  env :: 'e
  ro :: bool
  genesisPlus1 :: u64
  baselineDone :: bool

subsection \<open>Meta rows\<close>

definition putMeta :: "'e lmdb_ops \<Rightarrow> 'e db \<Rightarrow> bytes \<Rightarrow> bytes \<Rightarrow> 'e db \<times> error option" where
  "putMeta L d key val =
     (case Update L (env d) (\<lambda>t. lift_mdb (mdb_put L t key val)) of
        (e, err) \<Rightarrow> (d\<lparr>env := e\<rparr>, err))"

definition getMetaU64 :: "'e lmdb_ops \<Rightarrow> 'e \<Rightarrow> bytes \<Rightarrow> error + u64 \<times> bool" where
  "getMetaU64 L e key =
     (case mdb_get L e key of
        Inl MDB_NOTFOUND \<Rightarrow> Inr (0, False)
      | Inl m \<Rightarrow> Inl (ErrLmdb m)
      | Inr v \<Rightarrow> (if length v \<noteq> 8 then Inl (ErrBadLength (length v)) else Inr (be_word v, True)))"

definition Genesis :: "'e lmdb_ops \<Rightarrow> 'e db \<Rightarrow> 'e db \<times> (error + u64 \<times> bool)" where
  "Genesis L d =
     (if genesisPlus1 d \<noteq> 0 then (d, Inr (genesisPlus1 d - 1, True))
      else case getMetaU64 L (env d) MetaGenesis of
             Inl err \<Rightarrow> (d, Inl err)
           | Inr (s, ok) \<Rightarrow> ((if ok then d\<lparr>genesisPlus1 := s + 1\<rparr> else d), Inr (s, ok)))"

definition BaselineComplete :: "'e lmdb_ops \<Rightarrow> 'e db \<Rightarrow> 'e db \<times> (error + bool)" where
  "BaselineComplete L d =
     (if baselineDone d then (d, Inr True)
      else case mdb_get L (env d) MetaBaselineComplete of
             Inl MDB_NOTFOUND \<Rightarrow> (d, Inr False)
           | Inl m \<Rightarrow> (d, Inl (ErrLmdb m))
           | Inr _ \<Rightarrow> (d\<lparr>baselineDone := True\<rparr>, Inr True))"

definition Finalized :: "'e lmdb_ops \<Rightarrow> 'e db \<Rightarrow> error + u64 \<times> bool" where
  "Finalized L d = getMetaU64 L (env d) MetaFinalized"

definition SetFinalized :: "'e lmdb_ops \<Rightarrow> 'e db \<Rightarrow> u64 \<Rightarrow> 'e db \<times> error option" where
  "SetFinalized L d h = putMeta L d MetaFinalized (be_bytes 8 h)"

subsection \<open>The per-block write\<close>

fun write_op :: "'e lmdb_ops \<Rightarrow> u64 \<Rightarrow> op \<Rightarrow> 'e \<Rightarrow> error + 'e" where
  "write_op L blk (OpAccount a acc) t =
     lift_mdb (mdb_put L t (AppendAccountKey [] a blk) (EncodeAccount [] acc))"
| "write_op L blk (OpSlot a s v) t = lift_mdb (mdb_put L t (AppendSlotKey [] a s blk) (be_bytes 32 v))"
| "write_op L blk (OpDeleteSlot a s) t =
     lift_mdb (mdb_put L t (AppendSlotKey [] a s blk) (replicate 32 0))"
| "write_op L blk (OpDestruct a) t = lift_mdb (mdb_put L t (AppendDestructKey [] a blk) [])"
| "write_op L blk (OpCode h c) t = lift_mdb (mdb_put L t (AppendCodeKey [] h) c)"
| "write_op L blk (OpUnknown k) t = Inl (ErrUnknownKind k)"

fun write_ops :: "'e lmdb_ops \<Rightarrow> u64 \<Rightarrow> op list \<Rightarrow> 'e \<Rightarrow> error + 'e" where
  "write_ops L blk [] t = Inr t"
| "write_ops L blk (op # ops) t =
     (case write_op L blk op t of Inl err \<Rightarrow> Inl err | Inr t' \<Rightarrow> write_ops L blk ops t')"

definition write_block_txn :: "'e lmdb_ops \<Rightarrow> batch \<Rightarrow> 'e \<Rightarrow> error + 'e" where
  "write_block_txn L b t =
     (case write_ops L (Block b) (Ops b) t of
        Inl err \<Rightarrow> Inl err
      | Inr t' \<Rightarrow> (case Encode [] b of
                     Inl err \<Rightarrow> Inl err
                   | Inr v \<Rightarrow> lift_mdb (mdb_put L t' (AppendDiffKey [] (Block b)) v)))"

definition WriteBlock :: "'e lmdb_ops \<Rightarrow> 'e db \<Rightarrow> batch \<Rightarrow> 'e db \<times> error option" where
  "WriteBlock L d b =
     (case Update L (env d) (write_block_txn L b) of (e, err) \<Rightarrow> (d\<lparr>env := e\<rparr>, err))"

subsection \<open>The baseline loader\<close>

record bl_op =
  bl_k :: bytes
  bl_v :: bytes
  bl_del :: bool

record baseline =
  bl_s :: u64
  bl_ops :: "bl_op list"
  bl_progress :: "bytes option"

definition baselineChunk :: nat where
  "baselineChunk = 2 ^ 16"

type_synonym 'e bl_result = "'e db \<times> baseline \<times> error option"

definition NewBaseline :: "'e lmdb_ops \<Rightarrow> 'e db \<Rightarrow> u64 \<Rightarrow> 'e db \<times> (error + baseline)" where
  "NewBaseline L d s =
     (case Genesis L d of
        (d1, Inl err) \<Rightarrow> (d1, Inl err)
      | (d1, Inr (cur, ok)) \<Rightarrow>
          (if ok \<and> cur \<noteq> s then (d1, Inl (ErrGenesisSet cur s))
           else if \<not> ok then
             (case putMeta L d1 MetaGenesis (be_bytes 8 s) of
                (d2, Some err) \<Rightarrow> (d2, Inl err)
              | (d2, None) \<Rightarrow> (d2\<lparr>genesisPlus1 := s + 1\<rparr>,
                               Inr \<lparr>bl_s = s, bl_ops = [], bl_progress = None\<rparr>))
           else (d1, Inr \<lparr>bl_s = s, bl_ops = [], bl_progress = None\<rparr>)))"

fun flush_op :: "'e lmdb_ops \<Rightarrow> bl_op \<Rightarrow> 'e \<Rightarrow> error + 'e" where
  "flush_op L op t =
     (if bl_del op then
        (case mdb_del L t (bl_k op) of
           Inl MDB_NOTFOUND \<Rightarrow> Inr t
         | Inl m \<Rightarrow> Inl (ErrLmdb m)
         | Inr t' \<Rightarrow> Inr t')
      else lift_mdb (mdb_put L t (bl_k op) (bl_v op)))"

fun flush_ops :: "'e lmdb_ops \<Rightarrow> bl_op list \<Rightarrow> 'e \<Rightarrow> error + 'e" where
  "flush_ops L [] t = Inr t"
| "flush_ops L (op # ops) t =
     (case flush_op L op t of Inl err \<Rightarrow> Inl err | Inr t' \<Rightarrow> flush_ops L ops t')"

definition flush_txn :: "'e lmdb_ops \<Rightarrow> baseline \<Rightarrow> 'e \<Rightarrow> error + 'e" where
  "flush_txn L bl t =
     (case flush_ops L (bl_ops bl) t of
        Inl err \<Rightarrow> Inl err
      | Inr t' \<Rightarrow> (case bl_progress bl of
                     Some p \<Rightarrow> lift_mdb (mdb_put L t' MetaBaselineProgress p)
                   | None \<Rightarrow> Inr t'))"

definition Flush :: "'e lmdb_ops \<Rightarrow> 'e db \<Rightarrow> baseline \<Rightarrow> 'e bl_result" where
  "Flush L d bl =
     (if bl_ops bl = [] \<and> bl_progress bl = None then (d, bl, None)
      else case Update L (env d) (flush_txn L bl) of
             (e, err) \<Rightarrow>
               (d\<lparr>env := e\<rparr>,
                bl\<lparr>bl_ops := [], bl_progress := (if err = None then None else bl_progress bl)\<rparr>,
                err))"

definition bl_push :: "'e lmdb_ops \<Rightarrow> 'e db \<Rightarrow> baseline \<Rightarrow> bl_op \<Rightarrow> 'e bl_result" where
  "bl_push L d bl op =
     (let bl' = bl\<lparr>bl_ops := bl_ops bl @ [op]\<rparr>
      in if length (bl_ops bl') \<ge> baselineChunk then Flush L d bl' else (d, bl', None))"

definition bl_add ::
  "'e lmdb_ops \<Rightarrow> 'e db \<Rightarrow> baseline \<Rightarrow> bytes \<Rightarrow> bytes \<Rightarrow> 'e bl_result" where
  "bl_add L d bl k v = bl_push L d bl \<lparr>bl_k = k, bl_v = v, bl_del = False\<rparr>"

definition bl_addDel :: "'e lmdb_ops \<Rightarrow> 'e db \<Rightarrow> baseline \<Rightarrow> bytes \<Rightarrow> 'e bl_result" where
  "bl_addDel L d bl k = bl_push L d bl \<lparr>bl_k = k, bl_v = [], bl_del = True\<rparr>"

definition SetProgress :: "baseline \<Rightarrow> bytes \<Rightarrow> baseline" where
  "SetProgress bl p = bl\<lparr>bl_progress := Some p\<rparr>"

definition BaselineProgress :: "'e lmdb_ops \<Rightarrow> 'e db \<Rightarrow> error + bytes option" where
  "BaselineProgress L d =
     (case mdb_get L (env d) MetaBaselineProgress of
        Inl MDB_NOTFOUND \<Rightarrow> Inr None
      | Inl m \<Rightarrow> Inl (ErrLmdb m)
      | Inr v \<Rightarrow> Inr (Some v))"

definition bl_Account ::
  "'e lmdb_ops \<Rightarrow> 'e db \<Rightarrow> baseline \<Rightarrow> address \<Rightarrow> account \<Rightarrow> 'e bl_result" where
  "bl_Account L d bl addr a =
     bl_add L d bl (AppendAccountKey [] addr (bl_s bl)) (EncodeAccount [] a)"

definition bl_Slot ::
  "'e lmdb_ops \<Rightarrow> 'e db \<Rightarrow> baseline \<Rightarrow> address \<Rightarrow> hash \<Rightarrow> hash \<Rightarrow> 'e bl_result" where
  "bl_Slot L d bl addr slot val =
     bl_add L d bl (AppendSlotKey [] addr slot (bl_s bl)) (be_bytes 32 val)"

definition bl_Code ::
  "'e lmdb_ops \<Rightarrow> 'e db \<Rightarrow> baseline \<Rightarrow> hash \<Rightarrow> bytes \<Rightarrow> 'e bl_result" where
  "bl_Code L d bl h code = bl_add L d bl (AppendCodeKey [] h) code"

definition bl_BaseAccount ::
  "'e lmdb_ops \<Rightarrow> 'e db \<Rightarrow> baseline \<Rightarrow> hash \<Rightarrow> account \<Rightarrow> 'e bl_result" where
  "bl_BaseAccount L d bl addrHash a =
     bl_add L d bl (AppendBaseAccountKey [] addrHash) (EncodeAccount [] a)"

definition bl_BaseSlot ::
  "'e lmdb_ops \<Rightarrow> 'e db \<Rightarrow> baseline \<Rightarrow> hash \<Rightarrow> hash \<Rightarrow> hash \<Rightarrow> 'e bl_result" where
  "bl_BaseSlot L d bl addrHash slotHash val =
     bl_add L d bl (AppendBaseSlotKey [] addrHash slotHash) (be_bytes 32 val)"

definition bl_QueueStorage ::
  "'e lmdb_ops \<Rightarrow> 'e db \<Rightarrow> baseline \<Rightarrow> hash \<Rightarrow> hash \<Rightarrow> 'e bl_result" where
  "bl_QueueStorage L d bl addrHash root =
     bl_add L d bl (AppendStorageQueueKey [] addrHash) (be_bytes 32 root)"

definition bl_DequeueStorage ::
  "'e lmdb_ops \<Rightarrow> 'e db \<Rightarrow> baseline \<Rightarrow> hash \<Rightarrow> 'e bl_result" where
  "bl_DequeueStorage L d bl addrHash = bl_addDel L d bl (AppendStorageQueueKey [] addrHash)"

definition PutBaseAccount :: "'e lmdb_ops \<Rightarrow> 'e db \<Rightarrow> hash \<Rightarrow> account \<Rightarrow> 'e db \<times> error option" where
  "PutBaseAccount L d addrHash a =
     (case Update L (env d)
        (\<lambda>t. lift_mdb (mdb_put L t (AppendBaseAccountKey [] addrHash) (EncodeAccount [] a))) of
        (e, err) \<Rightarrow> (d\<lparr>env := e\<rparr>, err))"

definition PutBaseSlot :: "'e lmdb_ops \<Rightarrow> 'e db \<Rightarrow> hash \<Rightarrow> hash \<Rightarrow> hash \<Rightarrow> 'e db \<times> error option" where
  "PutBaseSlot L d addrHash slotHash val =
     (case Update L (env d)
        (\<lambda>t. lift_mdb (mdb_put L t (AppendBaseSlotKey [] addrHash slotHash) (be_bytes 32 val))) of
        (e, err) \<Rightarrow> (d\<lparr>env := e\<rparr>, err))"

definition finish_txn :: "'e lmdb_ops \<Rightarrow> 'e \<Rightarrow> error + 'e" where
  "finish_txn L t =
     (let complete = (\<lambda>t.
            case mdb_del L t MetaBaselineProgress of
              Inl MDB_NOTFOUND \<Rightarrow> lift_mdb (mdb_put L t MetaBaselineComplete [1])
            | Inl m \<Rightarrow> Inl (ErrLmdb m)
            | Inr t' \<Rightarrow> lift_mdb (mdb_put L t' MetaBaselineComplete [1]))
      in case cur_set_range L t [PrefStorageQueue] of
           Inr (k, v) \<Rightarrow>
             (if length k > 0 \<and> k ! 0 = PrefStorageQueue then Inl (ErrQueuePending k)
              else complete t)
         | Inl MDB_NOTFOUND \<Rightarrow> complete t
         | Inl m \<Rightarrow> Inl (ErrLmdb m))"

definition Finish :: "'e lmdb_ops \<Rightarrow> 'e db \<Rightarrow> baseline \<Rightarrow> 'e bl_result" where
  "Finish L d bl =
     (case Flush L d (bl\<lparr>bl_progress := None\<rparr>) of
        (d1, bl1, Some err) \<Rightarrow> (d1, bl1, Some err)
      | (d1, bl1, None) \<Rightarrow>
          (case Update L (env d1) (finish_txn L) of
             (e, Some err) \<Rightarrow> (d1\<lparr>env := e\<rparr>, bl1, Some err)
           | (e, None) \<Rightarrow> (d1\<lparr>env := e, baselineDone := True\<rparr>, bl1, None)))"

subsection \<open>The layout of the store\<close>

fun row_ok :: "row_key \<Rightarrow> bytes \<Rightarrow> bool" where
  "row_ok (KMeta t) v \<longleftrightarrow> (t = 1 \<or> t = 3 \<longrightarrow> length v = 8)"
| "row_ok (KAccount _ _) v \<longleftrightarrow> length v = AccountSize"
| "row_ok (KSlot _ _ _) v \<longleftrightarrow> length v = 32"
| "row_ok (KBaseAccount _) v \<longleftrightarrow> length v = AccountSize"
| "row_ok (KBaseSlot _ _) v \<longleftrightarrow> length v = 32"
| "row_ok (KQueue _) v \<longleftrightarrow> length v = 32"
| "row_ok _ v \<longleftrightarrow> True"

definition wf_rows :: "(bytes \<rightharpoonup> bytes) \<Rightarrow> bool" where
  "wf_rows m \<longleftrightarrow> (\<forall>k v. m k = Some v \<longrightarrow> (\<exists>r. k = key_bytes r \<and> row_ok r v))"

lemma wf_rows_empty: "wf_rows Map.empty"
  by (simp add: wf_rows_def)

lemma wf_rows_upd: "wf_rows m \<Longrightarrow> row_ok r v \<Longrightarrow> wf_rows (m(key_bytes r \<mapsto> v))"
  by (auto simp: wf_rows_def)

lemma wf_rows_del: "wf_rows m \<Longrightarrow> wf_rows (m(k := None))"
  by (auto simp: wf_rows_def)

lemma wf_rowsD: "wf_rows m \<Longrightarrow> m (key_bytes r) = Some v \<Longrightarrow> row_ok r v"
  unfolding wf_rows_def by (metis key_bytes_inject)

text \<open>The caches of a handle never contradict the database: \<open>S\<close> is the history genesis.\<close>

definition db_ok :: "('e \<Rightarrow> bytes \<rightharpoonup> bytes) \<Rightarrow> u64 \<Rightarrow> 'e db \<Rightarrow> bool" where
  "db_ok kv S d \<longleftrightarrow>
     kv (env d) MetaGenesis = Some (be_bytes 8 S)
     \<and> (genesisPlus1 d = 0 \<or> genesisPlus1 d = S + 1)
     \<and> (baselineDone d \<longrightarrow> kv (env d) MetaBaselineComplete \<noteq> None)
     \<and> wf_rows (kv (env d))"

definition complete :: "('e \<Rightarrow> bytes \<rightharpoonup> bytes) \<Rightarrow> 'e db \<Rightarrow> bool" where
  "complete kv d \<longleftrightarrow> kv (env d) MetaBaselineComplete \<noteq> None"

lemma db_ok_cache:
  assumes "db_ok kv S d" and "env d' = env d" and "genesisPlus1 d' \<in> {0, S + 1}"
    and "baselineDone d' \<longrightarrow> complete kv d"
  shows "db_ok kv S d'"
  using assms by (auto simp: db_ok_def complete_def)

subsection \<open>Effect on the contents\<close>

fun op_row :: "u64 \<Rightarrow> op \<Rightarrow> row_key \<times> bytes" where
  "op_row blk (OpAccount a acc) = (KAccount a blk, EncodeAccount [] acc)"
| "op_row blk (OpSlot a s v) = (KSlot a s blk, be_bytes 32 v)"
| "op_row blk (OpDeleteSlot a s) = (KSlot a s blk, replicate 32 0)"
| "op_row blk (OpDestruct a) = (KDestruct a blk, [])"
| "op_row blk (OpCode h c) = (KCode h, c)"
| "op_row blk (OpUnknown k) = (KMeta 0, [])"

definition put_row :: "row_key \<times> bytes \<Rightarrow> (bytes \<rightharpoonup> bytes) \<Rightarrow> (bytes \<rightharpoonup> bytes)" where
  "put_row r m = m(key_bytes (fst r) \<mapsto> snd r)"

definition block_map :: "batch \<Rightarrow> (bytes \<rightharpoonup> bytes) \<Rightarrow> (bytes \<rightharpoonup> bytes)" where
  "block_map b m =
     put_row (KDiff (Block b), projr (Encode [] b))
       (fold (\<lambda>op. put_row (op_row (Block b) op)) (Ops b) m)"

definition bl_map :: "bl_op \<Rightarrow> (bytes \<rightharpoonup> bytes) \<Rightarrow> (bytes \<rightharpoonup> bytes)" where
  "bl_map op m = (if bl_del op then m(bl_k op := None) else m(bl_k op \<mapsto> bl_v op))"

lemma key_ok_rows [simp]: "key_ok (key_bytes r)"
  using length_key_bytes [of r] by (simp add: key_ok_def)

lemma op_row_ok: "op_sized op \<Longrightarrow> row_ok (fst (op_row blk op)) (snd (op_row blk op))"
  by (cases op) (simp_all add: length_EncodeAccount)

lemma wf_rows_fold_ops:
  "wf_rows m \<Longrightarrow> list_all op_sized ops \<Longrightarrow> wf_rows (fold (\<lambda>op. put_row (op_row blk op)) ops m)"
  by (induction ops arbitrary: m) (auto simp: put_row_def wf_rows_upd op_row_ok)

lemma wf_rows_block_map: "wf_rows m \<Longrightarrow> sized b \<Longrightarrow> wf_rows (block_map b m)"
  unfolding block_map_def put_row_def
  by (auto intro!: wf_rows_upd wf_rows_fold_ops [unfolded put_row_def] simp: sized_def)

lemma block_map_meta: "block_map b m (key_bytes (KMeta t)) = m (key_bytes (KMeta t))"
  if "list_all op_sized (Ops b)"
proof -
  have "fold (\<lambda>op. put_row (op_row blk op)) ops m (key_bytes (KMeta t)) = m (key_bytes (KMeta t))"
    if "list_all op_sized ops" for ops m blk
    using that
  proof (induction ops arbitrary: m)
    case (Cons op ops)
    then show ?case by (cases op) (auto simp: put_row_def)
  qed simp
  with that show ?thesis by (simp add: block_map_def put_row_def)
qed

context healthy_lmdb
begin

lemma put_rows_ok:
  "\<exists>t'. lift_mdb (mdb_put L t (key_bytes r) v) = Inr t' \<and> kv t' = (kv t)(key_bytes r \<mapsto> v)"
  using put_eq [of "key_bytes r" t v] by (auto simp: lift_mdb_def)

lemma write_op_kv:
  "op_sized op \<Longrightarrow> \<exists>t'. write_op L blk op t = Inr t' \<and> kv t' = put_row (op_row blk op) (kv t)"
  using put_rows_ok by (cases op) (simp_all add: key_simps put_row_def)

lemma write_ops_kv:
  "list_all op_sized ops \<Longrightarrow> \<exists>t'. write_ops L blk ops t = Inr t'
     \<and> kv t' = fold (\<lambda>op. put_row (op_row blk op)) ops (kv t)"
proof (induction ops arbitrary: t)
  case (Cons op ops)
  then obtain t1 where t1: "write_op L blk op t = Inr t1" "kv t1 = put_row (op_row blk op) (kv t)"
    using write_op_kv by fastforce
  from Cons.prems Cons.IH [of t1] show ?case by (simp add: t1)
qed simp

lemma WriteBlock_kv:
  assumes "sized b"
  shows "\<exists>e. WriteBlock L d b = (d\<lparr>env := e\<rparr>, None) \<and> kv e = block_map b (kv (env d))"
proof -
  from assms obtain t where w: "write_ops L (Block b) (Ops b) (env d) = Inr t"
    and t: "kv t = fold (\<lambda>op. put_row (op_row (Block b) op)) (Ops b) (kv (env d))"
    using write_ops_kv [of "Ops b" "Block b" "env d"] by (auto simp: sized_def)
  from assms obtain v where v: "Encode [] b = Inr v" using Encode_total by blast
  obtain t' where p: "lift_mdb (mdb_put L t (key_bytes (KDiff (Block b))) v) = Inr t'"
    and t': "kv t' = (kv t)(key_bytes (KDiff (Block b)) \<mapsto> v)"
    using put_rows_ok by blast
  have "write_block_txn L b (env d) = Inr t'"
    by (simp add: write_block_txn_def w v p key_simps)
  from Update_ok [of "write_block_txn L b", OF this] t t' v show ?thesis
    by (auto simp: WriteBlock_def block_map_def put_row_def)
qed

lemma putMeta_kv:
  "\<exists>e. putMeta L d (key_bytes (KMeta t)) v = (d\<lparr>env := e\<rparr>, None)
     \<and> kv e = (kv (env d))(key_bytes (KMeta t) \<mapsto> v)"
proof -
  obtain t' where "lift_mdb (mdb_put L (env d) (key_bytes (KMeta t)) v) = Inr t'"
    and "kv t' = (kv (env d))(key_bytes (KMeta t) \<mapsto> v)"
    using put_rows_ok by blast
  with Update_ok [of "\<lambda>e. lift_mdb (mdb_put L e (key_bytes (KMeta t)) v)" "env d" t']
  show ?thesis by (auto simp: putMeta_def)
qed

end

end
