(* ===== verification/StoreRead.thy ===== *)
theory StoreRead
  imports Store
begin

text \<open>
  Package \<^verbatim>\<open>store\<close>, read side (\<^verbatim>\<open>src/store/read.go\<close>). The hash function of the package
  \<^verbatim>\<open>golang.org/x/crypto/sha3\<close> is the parameter \<open>kc\<close> (no property of it is needed: a
  baseline row is found under the hash of the key it is asked for). \<open>last_write\<close> is the
  specification of a historical read: the newest row of one key family at or before a height;
  \<open>seekLE_last_write\<close> shows that one cursor seek computes it. \<open>world_at\<close> is the chain state
  a store denotes at a height, and \<open>GetAccount_eq\<close>, \<open>GetSlot_eq\<close> show that the two
  reads return it.
\<close>

definition Latest :: u64 where
  "Latest = - 1"

definition seekLE :: "'e lmdb_ops \<Rightarrow> 'e \<Rightarrow> bytes \<Rightarrow> error + (u64 \<times> bytes) option" where
  "seekLE L e seekKey =
     (let prefixLen = length seekKey - 8
      in case cur_set_range L e seekKey of
           Inl MDB_NOTFOUND \<Rightarrow> Inr None
         | Inl m \<Rightarrow> Inl (ErrLmdb m)
         | Inr (k, v) \<Rightarrow>
             (if length k \<noteq> length seekKey \<or> take prefixLen k \<noteq> take prefixLen seekKey
              then Inr None
              else Inr (Some (DecodeInvBlock (drop prefixLen k), v))))"

definition checkAt :: "'e lmdb_ops \<Rightarrow> 'e db \<Rightarrow> u64 \<Rightarrow> 'e db \<times> error option" where
  "checkAt L d at =
     (case Genesis L d of
        (d', Inl err) \<Rightarrow> (d', Some err)
      | (d', Inr (s, ok)) \<Rightarrow>
          (if \<not> ok then (d', Some ErrNoGenesis)
           else if at < s then (d', Some ErrBelowGenesis)
           else (d', None)))"

definition missAllowed :: "'e lmdb_ops \<Rightarrow> 'e db \<Rightarrow> 'e db \<times> error option" where
  "missAllowed L d =
     (case BaselineComplete L d of
        (d', Inl err) \<Rightarrow> (d', Some err)
      | (d', Inr fin) \<Rightarrow> (d', if fin then None else Some ErrBaselineIncomplete))"

definition getBaseRow :: "'e lmdb_ops \<Rightarrow> 'e \<Rightarrow> bytes \<Rightarrow> error + bytes option" where
  "getBaseRow L e key =
     (case mdb_get L e key of
        Inl MDB_NOTFOUND \<Rightarrow> Inr None
      | Inl m \<Rightarrow> Inl (ErrLmdb m)
      | Inr v \<Rightarrow> Inr (Some v))"

definition decode_row :: "bytes \<Rightarrow> error + account \<times> bool" where
  "decode_row raw = (case DecodeAccount raw of Inl err \<Rightarrow> Inl err | Inr a \<Rightarrow> Inr (a, True))"

definition GetAccount ::
  "'e lmdb_ops \<Rightarrow> (bytes \<Rightarrow> hash) \<Rightarrow> 'e db \<Rightarrow> address \<Rightarrow> u64 \<Rightarrow> 'e db \<times> (error + account \<times> bool)" where
  "GetAccount L kc d addr at =
     (case checkAt L d at of
        (d1, Some err) \<Rightarrow> (d1, Inl err)
      | (d1, None) \<Rightarrow>
          (case seekLE L (env d1) (AppendAccountKey [] addr at) of
             Inl err \<Rightarrow> (d1, Inl err)
           | Inr found \<Rightarrow>
               (case seekLE L (env d1) (AppendDestructKey [] addr at) of
                  Inl err \<Rightarrow> (d1, Inl err)
                | Inr dfound \<Rightarrow>
                    (case (found, dfound) of
                       (Some (h, raw), None) \<Rightarrow> (d1, decode_row raw)
                     | (Some (h, raw), Some (dh, _)) \<Rightarrow>
                         (if dh \<le> h then (d1, decode_row raw) else (d1, Inr (zero_account, False)))
                     | (None, Some _) \<Rightarrow> (d1, Inr (zero_account, False))
                     | (None, None) \<Rightarrow>
                         (case getBaseRow L (env d1) (AppendBaseAccountKey [] (kc (be_bytes 20 addr))) of
                            Inl err \<Rightarrow> (d1, Inl err)
                          | Inr (Some raw) \<Rightarrow> (d1, decode_row raw)
                          | Inr None \<Rightarrow>
                              (case missAllowed L d1 of
                                 (d2, Some err) \<Rightarrow> (d2, Inl err)
                               | (d2, None) \<Rightarrow> (d2, Inr (zero_account, False))))))))"

definition slot_row :: "bytes \<Rightarrow> error + hash" where
  "slot_row raw = (if length raw \<noteq> 32 then Inl (ErrBadLength (length raw)) else Inr (be_word raw))"

definition GetSlot ::
  "'e lmdb_ops \<Rightarrow> (bytes \<Rightarrow> hash) \<Rightarrow> 'e db \<Rightarrow> address \<Rightarrow> hash \<Rightarrow> u64 \<Rightarrow> 'e db \<times> (error + hash)" where
  "GetSlot L kc d addr slot at =
     (case checkAt L d at of
        (d1, Some err) \<Rightarrow> (d1, Inl err)
      | (d1, None) \<Rightarrow>
          (case seekLE L (env d1) (AppendSlotKey [] addr slot at) of
             Inl err \<Rightarrow> (d1, Inl err)
           | Inr found \<Rightarrow>
               (case seekLE L (env d1) (AppendDestructKey [] addr at) of
                  Inl err \<Rightarrow> (d1, Inl err)
                | Inr dfound \<Rightarrow>
                    (case found of
                       None \<Rightarrow>
                         (if dfound \<noteq> None then (d1, Inr 0)
                          else case getBaseRow L (env d1)
                                      (AppendBaseSlotKey [] (kc (be_bytes 20 addr)) (kc (be_bytes 32 slot))) of
                                 Inl err \<Rightarrow> (d1, Inl err)
                               | Inr (Some raw) \<Rightarrow> (d1, slot_row raw)
                               | Inr None \<Rightarrow>
                                   (case missAllowed L d1 of
                                      (d2, Some err) \<Rightarrow> (d2, Inl err)
                                    | (d2, None) \<Rightarrow> (d2, Inr 0)))
                     | Some (h, raw) \<Rightarrow>
                         (case dfound of
                            None \<Rightarrow> (d1, slot_row raw)
                          | Some (dh, _) \<Rightarrow>
                              (if dh > h then (d1, Inr 0)
                               else if dh = h then
                                 (case seekLE L (env d1) (AppendAccountKey [] addr dh) of
                                    Inl err \<Rightarrow> (d1, Inl err)
                                  | Inr None \<Rightarrow> (d1, Inl ErrDestructEdge)
                                  | Inr (Some (ah, _)) \<Rightarrow>
                                      (if ah \<noteq> dh then (d1, Inl ErrDestructEdge)
                                       else (d1, slot_row raw)))
                               else (d1, slot_row raw)))))))"

definition GetCode :: "'e lmdb_ops \<Rightarrow> 'e db \<Rightarrow> hash \<Rightarrow> error + bytes" where
  "GetCode L d h =
     (case mdb_get L (env d) (AppendCodeKey [] h) of
        Inl MDB_NOTFOUND \<Rightarrow> Inl ErrNotFound
      | Inl m \<Rightarrow> Inl (ErrLmdb m)
      | Inr v \<Rightarrow> Inr v)"

definition GetDiff :: "'e lmdb_ops \<Rightarrow> 'e db \<Rightarrow> u64 \<Rightarrow> error + batch" where
  "GetDiff L d block =
     (case mdb_get L (env d) (AppendDiffKey [] block) of
        Inl MDB_NOTFOUND \<Rightarrow> Inl ErrNotFound
      | Inl m \<Rightarrow> Inl (ErrLmdb m)
      | Inr v \<Rightarrow> Decode v)"

subsection \<open>Scans for the loader\<close>

text \<open>Position a cursor on the greatest key at or before \<open>seek\<close>.\<close>

definition seek_floor :: "'e lmdb_ops \<Rightarrow> 'e \<Rightarrow> bytes \<Rightarrow> mdb_error + bytes \<times> bytes" where
  "seek_floor L e seek =
     (case cur_set_range L e seek of
        Inl MDB_NOTFOUND \<Rightarrow> cur_last L e
      | Inl m \<Rightarrow> Inl m
      | Inr (k, v) \<Rightarrow> (if k \<noteq> seek then cur_prev L e k else Inr (k, v)))"

definition MaxBaseAccountWithPrefix :: "'e lmdb_ops \<Rightarrow> 'e db \<Rightarrow> byte \<Rightarrow> error + hash option" where
  "MaxBaseAccountWithPrefix L d p =
     (case seek_floor L (env d) ([PrefBaseAccount, p] @ replicate 31 0xff) of
        Inl MDB_NOTFOUND \<Rightarrow> Inr None
      | Inl m \<Rightarrow> Inl (ErrLmdb m)
      | Inr (k, _) \<Rightarrow>
          (if length k = 33 \<and> k ! 0 = PrefBaseAccount \<and> k ! 1 = p
           then Inr (Some (be_word (drop 1 k))) else Inr None))"

text \<open>Go's \<^verbatim>\<open>copy\<close> into an all-zero array of \<open>n\<close> bytes.\<close>

definition copy_into :: "nat \<Rightarrow> bytes \<Rightarrow> bytes" where
  "copy_into n bs = take n bs @ replicate (n - length bs) 0"

definition MaxBaseSlot ::
  "'e lmdb_ops \<Rightarrow> 'e db \<Rightarrow> hash \<Rightarrow> bytes option \<Rightarrow> bytes option \<Rightarrow> error + hash option" where
  "MaxBaseSlot L d addrHash start stop =
     (case seek_floor L (env d)
             ([PrefBaseSlot] @ be_bytes 32 addrHash
                @ (case stop of None \<Rightarrow> replicate 32 0xff | Some x \<Rightarrow> copy_into 32 x)) of
        Inl MDB_NOTFOUND \<Rightarrow> Inr None
      | Inl m \<Rightarrow> Inl (ErrLmdb m)
      | Inr (k, _) \<Rightarrow>
          (if length k \<noteq> 65 \<or> k ! 0 \<noteq> PrefBaseSlot \<or> take 32 (drop 1 k) \<noteq> be_bytes 32 addrHash
           then Inr None
           else if (case start of None \<Rightarrow> False | Some x \<Rightarrow> take 32 (drop 33 k) < x) then Inr None
           else Inr (Some (be_word (take 32 (drop 33 k))))))"

fun queue_loop ::
  "'e lmdb_ops \<Rightarrow> 'e \<Rightarrow> nat \<Rightarrow> mdb_error + bytes \<times> bytes \<Rightarrow> hash list \<Rightarrow> hash list
     \<Rightarrow> error + hash list \<times> hash list" where
  "queue_loop L e 0 r addrs roots = Inr (addrs, roots)"
| "queue_loop L e (Suc n) r addrs roots =
     (case r of
        Inl MDB_NOTFOUND \<Rightarrow> Inr (addrs, roots)
      | Inl m \<Rightarrow> Inl (ErrLmdb m)
      | Inr (k, v) \<Rightarrow>
          (if length k \<noteq> 33 \<or> k ! 0 \<noteq> PrefStorageQueue then Inr (addrs, roots)
           else if length v \<noteq> 32 then Inl (ErrBadLength (length v))
           else queue_loop L e n (cur_next L e k)
                  (addrs @ [be_word (take 32 (drop 1 k))]) (roots @ [be_word v])))"

text \<open>
  The loop of \<^verbatim>\<open>StorageQueueAfter\<close> tests \<^verbatim>\<open>len(addrs) >= max\<close> only after an append, so it runs at
  most \<open>max 1 limit\<close> times.
\<close>

definition StorageQueueAfter ::
  "'e lmdb_ops \<Rightarrow> 'e db \<Rightarrow> hash option \<Rightarrow> int \<Rightarrow> error + hash list \<times> hash list" where
  "StorageQueueAfter L d after limit =
     (let seek = (case after of None \<Rightarrow> [PrefStorageQueue]
                  | Some h \<Rightarrow> AppendStorageQueueKey [] h @ [0])
      in queue_loop L (env d) (nat (max 1 limit)) (cur_set_range L (env d) seek) [] [])"

partial_function (option) code_loop ::
  "'e lmdb_ops \<Rightarrow> hash \<Rightarrow> 'e \<Rightarrow> mdb_error + bytes \<times> bytes \<Rightarrow> hash list \<Rightarrow> hash list
     \<Rightarrow> (error + hash list) option" where
  "code_loop L emptyCode e r seen missing =
     (case r of
        Inl m \<Rightarrow> Some (if m = MDB_NOTFOUND then Inr missing else Inl (ErrLmdb m))
      | Inr (k, v) \<Rightarrow>
          (if length k \<noteq> 33 \<or> k ! 0 \<noteq> PrefBaseAccount then Some (Inr missing)
           else case DecodeAccount v of
                  Inl err \<Rightarrow> Some (Inl err)
                | Inr a \<Rightarrow>
                    (if CodeHash a = 0 \<or> CodeHash a = emptyCode \<or> CodeHash a \<in> set seen
                     then code_loop L emptyCode e (cur_next L e k) seen missing
                     else case mdb_get L e (AppendCodeKey [] (CodeHash a)) of
                            Inr _ \<Rightarrow>
                              code_loop L emptyCode e (cur_next L e k) (CodeHash a # seen) missing
                          | Inl m \<Rightarrow>
                              (if m = MDB_NOTFOUND
                               then code_loop L emptyCode e (cur_next L e k) (CodeHash a # seen)
                                      (missing @ [CodeHash a])
                               else Some (Inl (ErrLmdb m))))))"

definition MissingCodeHashes ::
  "'e lmdb_ops \<Rightarrow> (bytes \<Rightarrow> hash) \<Rightarrow> 'e db \<Rightarrow> (error + hash list) option" where
  "MissingCodeHashes L kc d =
     code_loop L (kc []) (env d) (cur_set_range L (env d) [PrefBaseAccount]) [] []"

subsection \<open>Newest row at or before a height\<close>

definition last_write :: "(bytes \<rightharpoonup> bytes) \<Rightarrow> (u64 \<Rightarrow> row_key) \<Rightarrow> u64 \<Rightarrow> (u64 \<times> bytes) option" where
  "last_write m f at =
     (let B = {b. b \<le> at \<and> m (key_bytes (f b)) \<noteq> None}
      in if B = {} then None else Some (Max B, the (m (key_bytes (f (Max B))))))"

lemma last_write_None: "last_write m f at = None \<longleftrightarrow> (\<forall>b \<le> at. m (key_bytes (f b)) = None)"
  by (auto simp: last_write_def Let_def)

lemma last_write_Some:
  "last_write m f at = Some (b, v) \<longleftrightarrow>
     b \<le> at \<and> m (key_bytes (f b)) = Some v \<and> (\<forall>c. b < c \<longrightarrow> c \<le> at \<longrightarrow> m (key_bytes (f c)) = None)"
proof -
  let ?B = "{b. b \<le> at \<and> m (key_bytes (f b)) \<noteq> None}"
  have fin: "finite ?B" by simp
  show ?thesis
  proof
    assume l: "last_write m f at = Some (b, v)"
    then have ne: "?B \<noteq> {}" and b: "b = Max ?B" and v: "v = the (m (key_bytes (f b)))"
      by (auto simp: last_write_def Let_def split: if_splits)
    from Max_in [OF fin ne] b have "b \<le> at" and "m (key_bytes (f b)) = Some v"
      using v by auto
    moreover have "m (key_bytes (f c)) = None" if "b < c" "c \<le> at" for c
      using Max_ge [OF fin, of c] that b by fastforce
    ultimately show "b \<le> at \<and> m (key_bytes (f b)) = Some v
        \<and> (\<forall>c. b < c \<longrightarrow> c \<le> at \<longrightarrow> m (key_bytes (f c)) = None)"
      by blast
  next
    assume r: "b \<le> at \<and> m (key_bytes (f b)) = Some v
        \<and> (\<forall>c. b < c \<longrightarrow> c \<le> at \<longrightarrow> m (key_bytes (f c)) = None)"
    then have "b \<in> ?B" and "\<And>c. c \<in> ?B \<Longrightarrow> c \<le> b" by (auto simp flip: not_less)
    then have "Max ?B = b" using fin by (intro Max_eqI) auto
    with \<open>b \<in> ?B\<close> r show "last_write m f at = Some (b, v)"
      by (auto simp: last_write_def Let_def)
  qed
qed

lemma last_write_cong:
  assumes "\<And>b. b \<le> at \<Longrightarrow> m (key_bytes (f b)) = m' (key_bytes (f b))"
  shows "last_write m f at = last_write m' f at"
proof (cases "last_write m' f at")
  case None
  with assms have "last_write m f at = None" by (simp add: last_write_None)
  with None show ?thesis by simp
next
  case (Some p)
  obtain b v where p: "p = (b, v)" by (cases p)
  with Some have "last_write m' f at = Some (b, v)" by simp
  with assms have "last_write m f at = Some (b, v)" unfolding last_write_Some by auto
  with Some p show ?thesis by simp
qed

lemma last_write_single:
  assumes "\<And>c. m (key_bytes (f c)) = (if c = S then r else None)" and "S \<le> at"
  shows "last_write m f at = map_option (Pair S) r"
  using assms last_write_Some [of m f at S] last_write_None [of m f at]
  by (cases r) auto

text \<open>
  A family of history keys: one prefix, then the inverted block. What a range seek needs of it
  is that its keys are the only keys of the layout with the prefix.
\<close>

locale history_family =
  fixes f :: "u64 \<Rightarrow> row_key" and p :: bytes
  assumes layout: "key_bytes (f b) = p @ be_bytes 8 (NOT b)"
    and closed: "key_bytes r = p @ t \<Longrightarrow> \<exists>b. r = f b"
begin

lemma key_le_iff: "key_bytes (f at) \<le> key_bytes (f b) \<longleftrightarrow> b \<le> at"
  by (simp only: layout append_le_append_iff u64c.enc_le NOT_le_iff)

lemma seek_shape:
  assumes "key_bytes (f at) \<le> key_bytes r" and "key_bytes r \<le> key_bytes (f b)"
  obtains c where "r = f c"
proof -
  have "\<exists>t. key_bytes r = p @ t"
    using assms unfolding layout by (rule between_common_prefix)
  with closed that show ?thesis by blast
qed

lemma take_prefix: "take (length (key_bytes (f at)) - 8) (key_bytes (f b)) = p"
  by (simp add: layout)

lemma drop_prefix: "drop (length (key_bytes (f at)) - 8) (key_bytes (f b)) = be_bytes 8 (NOT b)"
  by (simp add: layout)

lemma length_family: "length (key_bytes (f b)) = length p + 8"
  by (simp add: layout)

lemma prefix_member:
  assumes "take (length (key_bytes (f at)) - 8) (key_bytes r) = take (length (key_bytes (f at)) - 8) (key_bytes (f at))"
  obtains c where "r = f c"
proof -
  have len: "length (key_bytes (f at)) - 8 = length p" by (simp add: layout)
  from assms have "take (length p) (key_bytes r) = p" unfolding len by (simp add: layout)
  then have "key_bytes r = p @ drop (length p) (key_bytes r)" by (metis append_take_drop_id)
  with closed that show ?thesis by blast
qed

end

lemma hd_append_prefix: "key_bytes r = x # t \<Longrightarrow> key_prefix r = x"
  using hd_key_bytes [of r] by simp

interpretation account_rows: history_family "KAccount a" "PrefAccount # be_bytes 20 a" for a
proof unfold_locales
  fix r t assume k: "key_bytes r = (PrefAccount # be_bytes 20 a) @ t"
  then have "key_prefix r = PrefAccount" by (intro hd_append_prefix) simp
  then obtain a' b where "r = KAccount a' b" unfolding key_prefix_eq by blast
  with k show "\<exists>b. r = KAccount a b" by (auto simp: key_bytes_layout addrc.enc_append_inject)
qed (simp add: key_bytes_layout)

interpretation destruct_rows: history_family "KDestruct a" "PrefDestruct # be_bytes 20 a" for a
proof unfold_locales
  fix r t assume k: "key_bytes r = (PrefDestruct # be_bytes 20 a) @ t"
  then have "key_prefix r = PrefDestruct" by (intro hd_append_prefix) simp
  then obtain a' b where "r = KDestruct a' b" unfolding key_prefix_eq by blast
  with k show "\<exists>b. r = KDestruct a b" by (auto simp: key_bytes_layout addrc.enc_append_inject)
qed (simp add: key_bytes_layout)

interpretation slot_rows: history_family "KSlot a s" "PrefSlot # be_bytes 20 a @ be_bytes 32 s" for a s
proof unfold_locales
  fix r t assume k: "key_bytes r = (PrefSlot # be_bytes 20 a @ be_bytes 32 s) @ t"
  then have "key_prefix r = PrefSlot" by (intro hd_append_prefix) simp
  then obtain a' s' b where "r = KSlot a' s' b" unfolding key_prefix_eq by blast
  with k show "\<exists>b. r = KSlot a s b"
    by (auto simp: key_bytes_layout addrc.enc_append_inject hashc.enc_append_inject)
qed (simp add: key_bytes_layout)

subsection \<open>One seek finds the newest row\<close>

context healthy_lmdb
begin

lemma seekLE_last_write:
  assumes fam: "history_family f p" and wf: "wf_rows (kv e)"
  shows "seekLE L e (key_bytes (f at)) = Inr (last_write (kv e) f at)"
proof (cases rule: set_range_cases [of e "key_bytes (f at)"])
  case (found k' v)
  from wf found(2) obtain r where r: "k' = key_bytes r" by (auto simp: wf_rows_def)
  let ?n = "length (key_bytes (f at)) - 8"
  show ?thesis
  proof (cases "length k' \<noteq> length (key_bytes (f at)) \<or> take ?n k' \<noteq> take ?n (key_bytes (f at))")
    case True
    have "m = None" if "b \<le> at" "m = kv e (key_bytes (f b))" for b m
    proof (rule ccontr)
      assume "m \<noteq> None"
      with that have "k' \<le> key_bytes (f b)"
        by (intro found(4)) (auto simp: history_family.key_le_iff [OF fam])
      with found(3) r obtain c where "r = f c"
        by (auto elim: history_family.seek_shape [OF fam])
      with True r show False
        by (simp add: history_family.length_family [OF fam] history_family.take_prefix [OF fam]
            history_family.layout [OF fam])
    qed
    then have "last_write (kv e) f at = None" by (auto simp: last_write_None)
    with True found(1) show ?thesis by (auto simp: seekLE_def Let_def)
  next
    case False
    then obtain c where c: "r = f c"
      using r by (auto elim: history_family.prefix_member [OF fam])
    have "c \<le> at" using found(3) r c by (simp add: history_family.key_le_iff [OF fam])
    moreover have "kv e (key_bytes (f b)) = None" if "c < b" "b \<le> at" for b
    proof (rule ccontr)
      assume "kv e (key_bytes (f b)) \<noteq> None"
      with that have "k' \<le> key_bytes (f b)"
        by (intro found(4)) (auto simp: history_family.key_le_iff [OF fam])
      with r c that show False by (simp add: history_family.key_le_iff [OF fam])
    qed
    ultimately have "last_write (kv e) f at = Some (c, v)"
      unfolding last_write_Some using found(2) r c by auto
    with False found(1) r c show ?thesis
      by (simp add: seekLE_def Let_def history_family.drop_prefix [OF fam])
  qed
next
  case missing
  have "kv e (key_bytes (f b)) = None" if "b \<le> at" for b
    using missing(2) [of "key_bytes (f b)"] that history_family.key_le_iff [OF fam, of at b]
    by (auto simp flip: not_le)
  then have "last_write (kv e) f at = None" by (simp add: last_write_None)
  with missing(1) show ?thesis by (simp add: seekLE_def Let_def)
qed

lemmas seekLE_rows =
  seekLE_last_write [OF account_rows.history_family_axioms]
  seekLE_last_write [OF destruct_rows.history_family_axioms]
  seekLE_last_write [OF slot_rows.history_family_axioms]

lemma checkAt_ok:
  assumes "db_ok kv S d" and "S \<le> at"
  shows "\<exists>d'. checkAt L d at = (d', None) \<and> env d' = env d \<and> db_ok kv S d'"
  using assms
  by (auto simp: checkAt_def Genesis_def getMetaU64_def get_eq db_ok_def u64c.dec_enc not_less
      simp flip: not_le)

lemma checkAt_below:
  assumes "db_ok kv S d" and "at < S"
  shows "snd (checkAt L d at) = Some ErrBelowGenesis"
  using assms by (auto simp: checkAt_def Genesis_def getMetaU64_def get_eq db_ok_def u64c.dec_enc)

lemma missAllowed_eq:
  assumes "db_ok kv S d"
  shows "\<exists>d'. missAllowed L d = (d', if complete kv d then None else Some ErrBaselineIncomplete)
    \<and> env d' = env d \<and> db_ok kv S d'"
  using assms
  by (auto simp: missAllowed_def BaselineComplete_def get_eq db_ok_def complete_def
      split: option.splits)

lemma getBaseRow_eq: "getBaseRow L e k = Inr (kv e k)"
  by (simp add: getBaseRow_def get_eq split: option.splits)

end

subsection \<open>The state a store denotes\<close>

definition acct_dec :: "bytes \<Rightarrow> account" where
  "acct_dec raw = projr (DecodeAccount raw)"

definition newer :: "(u64 \<times> bytes) option \<Rightarrow> u64 \<Rightarrow> bool" where
  "newer r h \<longleftrightarrow> (case r of None \<Rightarrow> False | Some (dh, _) \<Rightarrow> h < dh)"

definition acct_at :: "(bytes \<Rightarrow> hash) \<Rightarrow> (bytes \<rightharpoonup> bytes) \<Rightarrow> u64 \<Rightarrow> address \<Rightarrow> account option" where
  "acct_at kc m at a =
     (case last_write m (KAccount a) at of
        Some (h, raw) \<Rightarrow>
          (if newer (last_write m (KDestruct a) at) h then None else Some (acct_dec raw))
      | None \<Rightarrow>
          (if last_write m (KDestruct a) at \<noteq> None then None
           else map_option acct_dec (m (key_bytes (KBaseAccount (kc (be_bytes 20 a)))))))"

definition slot_at :: "(bytes \<Rightarrow> hash) \<Rightarrow> (bytes \<rightharpoonup> bytes) \<Rightarrow> u64 \<Rightarrow> address \<Rightarrow> hash \<Rightarrow> hash" where
  "slot_at kc m at a s =
     (case last_write m (KSlot a s) at of
        Some (h, raw) \<Rightarrow> (if newer (last_write m (KDestruct a) at) h then 0 else be_word raw)
      | None \<Rightarrow>
          (if last_write m (KDestruct a) at \<noteq> None then 0
           else case m (key_bytes (KBaseSlot (kc (be_bytes 20 a)) (kc (be_bytes 32 s)))) of
                  None \<Rightarrow> 0 | Some raw \<Rightarrow> be_word raw))"

definition world_at :: "(bytes \<Rightarrow> hash) \<Rightarrow> (bytes \<rightharpoonup> bytes) \<Rightarrow> u64 \<Rightarrow> world" where
  "world_at kc m at = \<lparr>w_acct = acct_at kc m at, w_slot = slot_at kc m at\<rparr>"

lemma world_at_sel [simp]:
  "w_acct (world_at kc m at) = acct_at kc m at" "w_slot (world_at kc m at) = slot_at kc m at"
  by (simp_all add: world_at_def)

text \<open>A key is known when some row answers for it; only then may a partial baseline serve it.\<close>

definition acct_known :: "(bytes \<Rightarrow> hash) \<Rightarrow> (bytes \<rightharpoonup> bytes) \<Rightarrow> u64 \<Rightarrow> address \<Rightarrow> bool" where
  "acct_known kc m at a \<longleftrightarrow>
     last_write m (KAccount a) at \<noteq> None \<or> last_write m (KDestruct a) at \<noteq> None
     \<or> m (key_bytes (KBaseAccount (kc (be_bytes 20 a)))) \<noteq> None"

definition slot_known :: "(bytes \<Rightarrow> hash) \<Rightarrow> (bytes \<rightharpoonup> bytes) \<Rightarrow> u64 \<Rightarrow> address \<Rightarrow> hash \<Rightarrow> bool" where
  "slot_known kc m at a s \<longleftrightarrow>
     last_write m (KSlot a s) at \<noteq> None \<or> last_write m (KDestruct a) at \<noteq> None
     \<or> m (key_bytes (KBaseSlot (kc (be_bytes 20 a)) (kc (be_bytes 32 s)))) \<noteq> None"

text \<open>The layout the batch contract rules out: a slot row at a destruct height, no recreation.\<close>

definition no_edge :: "(bytes \<rightharpoonup> bytes) \<Rightarrow> bool" where
  "no_edge m \<longleftrightarrow>
     (\<forall>a s b. m (key_bytes (KSlot a s b)) \<noteq> None \<longrightarrow> m (key_bytes (KDestruct a b)) \<noteq> None
        \<longrightarrow> m (key_bytes (KAccount a b)) \<noteq> None)"

definition edge :: "(bytes \<rightharpoonup> bytes) \<Rightarrow> u64 \<Rightarrow> address \<Rightarrow> hash \<Rightarrow> bool" where
  "edge m at a s \<longleftrightarrow>
     (case (last_write m (KSlot a s) at, last_write m (KDestruct a) at) of
        (Some (h, _), Some (dh, _)) \<Rightarrow> dh = h \<and> m (key_bytes (KAccount a dh)) = None
      | _ \<Rightarrow> False)"

lemma no_edge_edge: "no_edge m \<Longrightarrow> \<not> edge m at a s"
  unfolding no_edge_def edge_def
  by (auto simp: last_write_Some split: option.splits) (metis option.distinct(1))

lemma last_write_at: "last_write m f b = Some (b, v) \<longleftrightarrow> m (key_bytes (f b)) = Some v"
  by (auto simp: last_write_Some)

lemma decode_row_ok: "length raw = AccountSize \<Longrightarrow> decode_row raw = Inr (acct_dec raw, True)"
  using DecodeAccount_total [of raw] by (auto simp: decode_row_def acct_dec_def)

lemma slot_row_ok: "length raw = 32 \<Longrightarrow> slot_row raw = Inr (be_word raw)"
  by (simp add: slot_row_def)

lemma last_write_row:
  assumes "wf_rows m" and "last_write m f at = Some (b, v)"
  shows "row_ok (f b) v"
  using assms by (auto simp: last_write_Some intro: wf_rowsD)

lemma base_account_len:
  "wf_rows m \<Longrightarrow> m (key_bytes (KBaseAccount h)) = Some v \<Longrightarrow> length v = AccountSize"
  by (auto dest: wf_rowsD)

lemma base_slot_len:
  "wf_rows m \<Longrightarrow> m (key_bytes (KBaseSlot h g)) = Some v \<Longrightarrow> length v = 32"
  by (auto dest: wf_rowsD)

context healthy_lmdb
begin

lemma GetAccount_eq:
  assumes ok: "db_ok kv S d" and at: "S \<le> at"
  shows "\<exists>d'. GetAccount L kc d addr at =
      (d', if acct_known kc (kv (env d)) at addr \<or> complete kv d
           then Inr (acct_res (acct_at kc (kv (env d)) at addr))
           else Inl ErrBaselineIncomplete)
    \<and> env d' = env d \<and> db_ok kv S d'"
proof -
  from checkAt_ok [OF ok at] obtain d1
    where c: "checkAt L d at = (d1, None)" and e: "env d1 = env d" and ok1: "db_ok kv S d1"
    by blast
  from ok1 have wf: "wf_rows (kv (env d))" by (simp add: db_ok_def e)
  note rows = last_write_row [OF wf, of "KAccount addr" at] base_account_len [OF wf]
  obtain d2 where m: "missAllowed L d1 = (d2, if complete kv d then None else Some ErrBaselineIncomplete)"
    and e2: "env d2 = env d" and ok2: "db_ok kv S d2"
    using missAllowed_eq [OF ok1] e by (auto simp: complete_def)
  show ?thesis
    using ok1 ok2 e2 rows
    by (auto simp: GetAccount_def c e m key_simps seekLE_rows wf getBaseRow_eq decode_row_ok
        acct_at_def acct_known_def newer_def split: option.splits)
qed

lemma edge_seek:
  assumes "wf_rows (kv e)"
  shows "(case seekLE L e (key_bytes (KAccount a b)) of
            Inl err \<Rightarrow> (x, Inl err)
          | Inr None \<Rightarrow> (x, Inl ErrDestructEdge)
          | Inr (Some (ah, _)) \<Rightarrow> (if ah \<noteq> b then (x, Inl ErrDestructEdge) else y))
       = (if kv e (key_bytes (KAccount a b)) = None then (x, Inl ErrDestructEdge) else y)"
proof (cases "kv e (key_bytes (KAccount a b))")
  case None
  then have "ah \<noteq> b" if "last_write (kv e) (KAccount a) b = Some (ah, v)" for ah v
    using that by (auto simp: last_write_Some)
  with None show ?thesis by (auto simp: seekLE_rows assms split: option.splits)
next
  case (Some v)
  then have "last_write (kv e) (KAccount a) b = Some (b, v)" by (simp add: last_write_at)
  with Some show ?thesis by (simp add: seekLE_rows assms)
qed

lemma GetSlot_eq:
  assumes ok: "db_ok kv S d" and at: "S \<le> at"
  shows "\<exists>d'. GetSlot L kc d addr slot at =
      (d', if edge (kv (env d)) at addr slot then Inl ErrDestructEdge
           else if slot_known kc (kv (env d)) at addr slot \<or> complete kv d
           then Inr (slot_at kc (kv (env d)) at addr slot)
           else Inl ErrBaselineIncomplete)
    \<and> env d' = env d \<and> db_ok kv S d'"
proof -
  from checkAt_ok [OF ok at] obtain d1
    where c: "checkAt L d at = (d1, None)" and e: "env d1 = env d" and ok1: "db_ok kv S d1"
    by blast
  from ok1 have wf: "wf_rows (kv (env d))" by (simp add: db_ok_def e)
  obtain d2 where m: "missAllowed L d1 = (d2, if complete kv d then None else Some ErrBaselineIncomplete)"
    and e2: "env d2 = env d" and ok2: "db_ok kv S d2"
    using missAllowed_eq [OF ok1] e by (auto simp: complete_def)
  note eqs = GetSlot_def c e m key_simps edge_seek [OF wf] getBaseRow_eq slot_row_ok
    slot_at_def slot_known_def newer_def edge_def
  show ?thesis
  proof (cases "last_write (kv (env d)) (KSlot addr slot) at")
    case None
    with ok1 ok2 e e2 base_slot_len [OF wf] show ?thesis
      by (auto simp: eqs seekLE_rows wf split: option.splits)
  next
    case (Some p)
    obtain h raw where p: "p = (h, raw)" by (cases p)
    with last_write_row [OF wf Some [unfolded p]] have "length raw = 32" by simp
    with ok1 e Some p show ?thesis
    proof (cases "last_write (kv (env d)) (KDestruct addr) at")
      case None
      with ok1 e Some p \<open>length raw = 32\<close> show ?thesis by (simp add: eqs seekLE_rows wf)
    next
      case (Some q)
      obtain dh r where q: "q = (dh, r)" by (cases q)
      have s: "seekLE L (env d) (key_bytes (KSlot addr slot at)) = Inr (Some (h, raw))"
        "seekLE L (env d) (key_bytes (KDestruct addr at)) = Inr (Some (dh, r))"
        by (simp_all add: seekLE_rows wf p q Some \<open>last_write _ (KSlot addr slot) at = Some p\<close>)
      from ok1 e Some p q \<open>length raw = 32\<close> \<open>last_write _ (KSlot addr slot) at = Some p\<close>
      show ?thesis by (cases "dh = h") (simp_all add: eqs s)
    qed
  qed
qed

lemma GetSlot_no_edge:
  assumes ok: "db_ok kv S d" and at: "S \<le> at" and "no_edge (kv (env d))" and "complete kv d"
  shows "\<exists>d'. GetSlot L kc d addr slot at = (d', Inr (slot_at kc (kv (env d)) at addr slot))
    \<and> env d' = env d \<and> db_ok kv S d'"
  using GetSlot_eq [OF ok at, of kc addr slot] assms(3,4) by (simp add: no_edge_edge)

end

end
