(* ===== verification/StoreHistory.thy ===== *)
theory StoreHistory
  imports StoreRead
begin

text \<open>
  What a history of block writes denotes. \<open>world_block_map\<close> is the refinement of one block
  write: the state at every height below the block is as before, and at every height from the
  block on the batch has been applied. \<open>world_history\<close> is the same for a run of blocks,
  and \<open>block_map_replay\<close> says that writing a block of the run again changes nothing, which is what
  makes replay after a crash safe.
\<close>

subsection \<open>The rows of a batch\<close>

fun last_acct :: "op list \<Rightarrow> address \<Rightarrow> account option" where
  "last_acct [] a = None"
| "last_acct (op # ops) a =
     (case last_acct ops a of
        Some r \<Rightarrow> Some r
      | None \<Rightarrow> (case op of OpAccount x acc \<Rightarrow> if x = a then Some acc else None | _ \<Rightarrow> None))"

fun last_slot :: "op list \<Rightarrow> address \<Rightarrow> hash \<Rightarrow> hash option" where
  "last_slot [] a s = None"
| "last_slot (op # ops) a s =
     (case last_slot ops a s of
        Some r \<Rightarrow> Some r
      | None \<Rightarrow> (case op of
                   OpSlot x y v \<Rightarrow> if x = a \<and> y = s then Some v else None
                 | OpDeleteSlot x y \<Rightarrow> if x = a \<and> y = s then Some 0 else None
                 | _ \<Rightarrow> None))"

definition destructs :: "op list \<Rightarrow> address \<Rightarrow> bool" where
  "destructs ops a \<longleftrightarrow> OpDestruct a \<in> set ops"

lemma destructs_simps [simp]:
  "\<not> destructs [] a"
  "destructs (op # ops) a \<longleftrightarrow> op = OpDestruct a \<or> destructs ops a"
  by (auto simp: destructs_def)

lemma destruct_first_unwritten:
  assumes "destruct_first (op # ops)" and "destructs ops a"
  shows "\<not> op_writes op a"
  using assms by (force simp: destructs_def list_all_iff)

lemma acct_effect_first:
  "destruct_first ops \<Longrightarrow> acct_effect ops a =
     (case last_acct ops a of
        Some acc \<Rightarrow> Some (Some acc) | None \<Rightarrow> if destructs ops a then Some None else None)"
proof (induction ops)
  case (Cons op ops)
  then show ?case
    using destruct_first_unwritten [OF Cons.prems, of a]
    by (cases op) (auto split: option.splits)
qed simp

lemma slot_effect_first:
  "destruct_first ops \<Longrightarrow> slot_effect ops a s =
     (case last_slot ops a s of
        Some v \<Rightarrow> Some v | None \<Rightarrow> if destructs ops a then Some 0 else None)"
proof (induction ops)
  case (Cons op ops)
  then show ?case
    using destruct_first_unwritten [OF Cons.prems, of a]
    by (cases op) (auto split: option.splits)
qed simp

abbreviation put_ops :: "u64 \<Rightarrow> op list \<Rightarrow> (bytes \<rightharpoonup> bytes) \<Rightarrow> (bytes \<rightharpoonup> bytes)" where
  "put_ops blk ops \<equiv> fold (\<lambda>op. put_row (op_row blk op)) ops"

lemma put_ops_account:
  "put_ops blk ops m (key_bytes (KAccount a c)) =
     (if c = blk \<and> last_acct ops a \<noteq> None then Some (EncodeAccount [] (the (last_acct ops a)))
      else m (key_bytes (KAccount a c)))"
proof (induction ops arbitrary: m)
  case (Cons op ops)
  then show ?case by (cases op) (auto simp: put_row_def split: option.splits)
qed simp

lemma put_ops_slot:
  "put_ops blk ops m (key_bytes (KSlot a s c)) =
     (if c = blk \<and> last_slot ops a s \<noteq> None then Some (be_bytes 32 (the (last_slot ops a s)))
      else m (key_bytes (KSlot a s c)))"
proof (induction ops arbitrary: m)
  case (Cons op ops)
  have "replicate 32 0 = be_bytes 32 (0 :: hash)" by (simp add: be_bytes_0)
  with Cons show ?case by (cases op) (auto simp: put_row_def split: option.splits)
qed simp

lemma put_ops_destruct:
  "put_ops blk ops m (key_bytes (KDestruct a c)) =
     (if c = blk \<and> destructs ops a then Some [] else m (key_bytes (KDestruct a c)))"
proof (induction ops arbitrary: m)
  case (Cons op ops)
  then show ?case by (cases op) (auto simp: put_row_def)
qed simp

lemma put_ops_base:
  assumes "\<And>h. r \<noteq> KCode h" "\<And>t. r \<noteq> KMeta t" "\<And>a b. r \<noteq> KAccount a b"
    "\<And>a s b. r \<noteq> KSlot a s b" "\<And>a b. r \<noteq> KDestruct a b"
  shows "put_ops blk ops m (key_bytes r) = m (key_bytes r)"
proof (induction ops arbitrary: m)
  case (Cons op ops)
  with assms show ?case by (cases op) (auto simp: put_row_def)
qed simp

lemma block_map_rows:
  "block_map b m (key_bytes (KAccount a c)) = put_ops (Block b) (Ops b) m (key_bytes (KAccount a c))"
  "block_map b m (key_bytes (KSlot a s c)) = put_ops (Block b) (Ops b) m (key_bytes (KSlot a s c))"
  "block_map b m (key_bytes (KDestruct a c)) = put_ops (Block b) (Ops b) m (key_bytes (KDestruct a c))"
  "block_map b m (key_bytes (KBaseAccount h)) = m (key_bytes (KBaseAccount h))"
  "block_map b m (key_bytes (KBaseSlot h g)) = m (key_bytes (KBaseSlot h g))"
  by (simp_all add: block_map_def put_row_def put_ops_base)

lemmas block_rows = block_map_rows put_ops_account put_ops_slot put_ops_destruct

subsection \<open>One block\<close>

text \<open>No history row at or above a height: the height is the next to be written.\<close>

definition fresh :: "(bytes \<rightharpoonup> bytes) \<Rightarrow> u64 \<Rightarrow> bool" where
  "fresh m blk \<longleftrightarrow>
     (\<forall>c \<ge> blk. \<forall>a s. m (key_bytes (KAccount a c)) = None \<and> m (key_bytes (KDestruct a c)) = None
        \<and> m (key_bytes (KSlot a s c)) = None)"

lemma freshD:
  assumes "fresh m blk" and "blk \<le> c"
  shows "m (key_bytes (KAccount a c)) = None" "m (key_bytes (KDestruct a c)) = None"
    "m (key_bytes (KSlot a s c)) = None"
  using assms by (auto simp: fresh_def)

lemma fresh_mono: "fresh m blk \<Longrightarrow> blk \<le> c \<Longrightarrow> fresh m c"
  by (auto simp: fresh_def)

lemma fresh_block_map: "fresh m (Block b) \<Longrightarrow> Block b < c \<Longrightarrow> fresh (block_map b m) c"
  by (auto simp: fresh_def block_rows)

lemma last_write_upd:
  assumes upd: "\<And>c. m' (key_bytes (f c)) = (if c = blk \<and> P then Some v else m (key_bytes (f c)))"
    and none: "\<And>c. blk \<le> c \<Longrightarrow> m (key_bytes (f c)) = None"
  shows "last_write m' f at = (if blk \<le> at \<and> P then Some (blk, v) else last_write m f at)"
proof (cases "blk \<le> at \<and> P")
  case True
  then have "last_write m' f at = Some (blk, v)" using none by (simp add: last_write_Some upd)
  with True show ?thesis by simp
next
  case False
  then have "last_write m' f at = last_write m f at" by (intro last_write_cong) (auto simp: upd)
  with False show ?thesis by auto
qed

lemma last_write_block:
  assumes "fresh m (Block b)"
  shows "last_write (block_map b m) (KAccount a) at =
      (if Block b \<le> at \<and> last_acct (Ops b) a \<noteq> None
       then Some (Block b, EncodeAccount [] (the (last_acct (Ops b) a)))
       else last_write m (KAccount a) at)"
    and "last_write (block_map b m) (KSlot a s) at =
      (if Block b \<le> at \<and> last_slot (Ops b) a s \<noteq> None
       then Some (Block b, be_bytes 32 (the (last_slot (Ops b) a s)))
       else last_write m (KSlot a s) at)"
    and "last_write (block_map b m) (KDestruct a) at =
      (if Block b \<le> at \<and> destructs (Ops b) a then Some (Block b, [])
       else last_write m (KDestruct a) at)"
  using freshD [OF assms] by (intro last_write_upd; simp add: block_rows)+

lemma last_write_fresh:
  assumes "fresh m blk"
  shows "last_write m (KAccount a) at = Some (h, v) \<Longrightarrow> h < blk"
    and "last_write m (KDestruct a) at = Some (h, v) \<Longrightarrow> h < blk"
    and "last_write m (KSlot a s) at = Some (h, v) \<Longrightarrow> h < blk"
  using freshD [OF assms, of h] by (auto simp: last_write_Some not_le [symmetric])

lemma newer_simps [simp]:
  "\<not> newer None h" "newer (Some (d, v)) h \<longleftrightarrow> h < d"
  by (simp_all add: newer_def)

lemma newer_fresh: "fresh m blk \<Longrightarrow> \<not> newer (last_write m (KDestruct a) at) blk"
  using last_write_fresh(2) [of m blk a at]
  by (cases "last_write m (KDestruct a) at") (auto simp: newer_def less_imp_le)

lemma last_write_below:
  assumes "fresh m (Block b)" and "at < Block b"
  shows "last_write (block_map b m) (KAccount a) at = last_write m (KAccount a) at"
    and "last_write (block_map b m) (KSlot a s) at = last_write m (KSlot a s) at"
    and "last_write (block_map b m) (KDestruct a) at = last_write m (KDestruct a) at"
  using assms(2) by (simp_all add: last_write_block [OF assms(1)] flip: not_le)

lemma world_at_below:
  assumes "fresh m (Block b)" and "at < Block b"
  shows "world_at kc (block_map b m) at = world_at kc m at"
  by (rule world_eqI)
    (simp_all add: acct_at_def slot_at_def last_write_below [OF assms] block_map_rows
      cong: option.case_cong)

lemma acct_at_block:
  assumes f: "fresh m (Block b)" and c: "destruct_first (Ops b)" and le: "Block b \<le> at"
  shows "acct_at kc (block_map b m) at a =
     (case acct_effect (Ops b) a of None \<Rightarrow> acct_at kc m at a | Some r \<Rightarrow> r)"
proof -
  note rows = acct_at_def last_write_block [OF f] acct_effect_first [OF c] block_map_rows le
  consider (set) acc where "last_acct (Ops b) a = Some acc"
    | (gone) "last_acct (Ops b) a = None" "destructs (Ops b) a"
    | (same) "last_acct (Ops b) a = None" "\<not> destructs (Ops b) a"
    by blast
  then show ?thesis
  proof cases
    case set
    then show ?thesis by (simp add: rows newer_fresh [OF f] acct_dec_def accountc.dec_enc)
  next
    case gone
    with last_write_fresh(1) [OF f, of a at] show ?thesis
      by (cases "last_write m (KAccount a) at") (auto simp: rows)
  qed (simp add: rows cong: option.case_cong)
qed

lemma slot_at_block:
  assumes f: "fresh m (Block b)" and c: "destruct_first (Ops b)" and le: "Block b \<le> at"
  shows "slot_at kc (block_map b m) at a s =
     (case slot_effect (Ops b) a s of None \<Rightarrow> slot_at kc m at a s | Some r \<Rightarrow> r)"
proof -
  note rows = slot_at_def last_write_block [OF f] slot_effect_first [OF c] block_map_rows le
  consider (set) v where "last_slot (Ops b) a s = Some v"
    | (gone) "last_slot (Ops b) a s = None" "destructs (Ops b) a"
    | (same) "last_slot (Ops b) a s = None" "\<not> destructs (Ops b) a"
    by blast
  then show ?thesis
  proof cases
    case set
    then show ?thesis by (simp add: rows newer_fresh [OF f] hashc.dec_enc)
  next
    case gone
    with last_write_fresh(3) [OF f, of a s at] show ?thesis
      by (cases "last_write m (KSlot a s) at") (auto simp: rows)
  qed (simp add: rows cong: option.case_cong)
qed

lemma world_block_map:
  assumes "fresh m (Block b)" and "destruct_first (Ops b)"
  shows "world_at kc (block_map b m) at =
     (if at < Block b then world_at kc m at else apply_batch b (world_at kc m at))"
proof (cases "at < Block b")
  case True
  with world_at_below [OF assms(1)] show ?thesis by simp
next
  case False
  then have "Block b \<le> at" by simp
  with False show ?thesis
    by (intro world_eqI)
      (auto simp: acct_at_block [OF assms] slot_at_block [OF assms] apply_batch_def world_effects
        split: option.splits)
qed

lemma no_edge_block_map:
  assumes "fresh m (Block b)" and "no_edge m" and "recreated (Ops b)"
  shows "no_edge (block_map b m)"
proof -
  have acct: "last_acct ops a \<noteq> None" if "list_ex (\<lambda>p. op_sets_account p a) ops" for ops a
    using that
  proof (induction ops)
    case (Cons op ops)
    then show ?case by (cases op) (auto split: option.splits)
  qed simp
  have slot: "list_ex (\<lambda>p. op_writes_slot p a) ops" if "last_slot ops a s \<noteq> None" for ops a s
    using that
  proof (induction ops)
    case (Cons op ops)
    then show ?case by (cases op) (auto split: option.splits if_splits)
  qed simp
  have "last_slot (Ops b) a s = None" if "destructs (Ops b) a" "last_acct (Ops b) a = None" for a s
    using assms(3) that slot [of "Ops b" a s] acct
    by (fastforce simp: recreated_def destructs_def list_all_iff)
  with assms(2) freshD [OF assms(1)] show ?thesis
    by (auto simp: no_edge_def block_rows)
qed

subsection \<open>Runs of blocks\<close>

abbreviation history_map :: "batch list \<Rightarrow> (bytes \<rightharpoonup> bytes) \<Rightarrow> (bytes \<rightharpoonup> bytes)" where
  "history_map bs \<equiv> fold block_map bs"

definition ascending :: "batch list \<Rightarrow> bool" where
  "ascending bs \<longleftrightarrow> sorted_wrt (<) (map Block bs)"

definition appendable :: "(bytes \<rightharpoonup> bytes) \<Rightarrow> batch list \<Rightarrow> bool" where
  "appendable m bs \<longleftrightarrow> ascending bs \<and> list_all contract bs \<and> list_all (\<lambda>b. fresh m (Block b)) bs"

lemma appendable_Cons:
  "appendable m (b # bs) \<longleftrightarrow>
     contract b \<and> fresh m (Block b) \<and> appendable (block_map b m) bs \<and> list_all (\<lambda>c. Block b < Block c) bs"
  if "fresh m (Block b)"
proof -
  have "fresh m x" "fresh (block_map b m) x" if "Block b < x" for x
    using that \<open>fresh m (Block b)\<close> by (auto intro: fresh_block_map fresh_mono less_imp_le)
  then show ?thesis
    using that by (auto simp: appendable_def ascending_def list_all_iff)
qed

lemma appendable_ConsE:
  assumes "appendable m (b # bs)"
  obtains "contract b" "fresh m (Block b)" "appendable (block_map b m) bs"
    "list_all (\<lambda>c. Block b < Block c) bs"
proof -
  from assms have "fresh m (Block b)" by (simp add: appendable_def)
  with appendable_Cons [OF this, of bs] assms that show thesis by blast
qed

lemma world_history:
  "appendable m bs \<Longrightarrow>
   world_at kc (history_map bs m) at = apply_chain (filter (\<lambda>b. Block b \<le> at) bs) (world_at kc m at)"
proof (induction bs arbitrary: m)
  case (Cons b bs)
  then have c: "contract b" "fresh m (Block b)" "appendable (block_map b m) bs"
    by (auto elim: appendable_ConsE)
  with Cons.IH [OF c(3)] show ?case
    by (simp add: world_block_map [OF c(2)] contract_def not_le)
qed simp

lemma wf_history:
  "appendable m bs \<Longrightarrow> wf_rows m \<Longrightarrow> no_edge m \<Longrightarrow>
   wf_rows (history_map bs m) \<and> no_edge (history_map bs m)"
proof (induction bs arbitrary: m)
  case (Cons b bs)
  then have c: "contract b" "fresh m (Block b)" "appendable (block_map b m) bs"
    by (auto elim: appendable_ConsE)
  with Cons.prems have "wf_rows (block_map b m)" "no_edge (block_map b m)"
    by (auto simp: contract_def intro: wf_rows_block_map no_edge_block_map)
  with Cons.IH [OF c(3)] show ?case by simp
qed simp

subsection \<open>Writing a block again\<close>

definition row_list :: "batch \<Rightarrow> (row_key \<times> bytes) list" where
  "row_list b = map (op_row (Block b)) (Ops b) @ [(KDiff (Block b), projr (Encode [] b))]"

lemma block_map_fold: "block_map b m = fold put_row (row_list b) m"
  by (simp add: block_map_def row_list_def fold_map comp_def)

lemma fold_put_add: "fold put_row rs m = m ++ fold put_row rs Map.empty"
proof (induction rs arbitrary: m)
  case (Cons r rs)
  have "fold put_row (r # rs) m = put_row r m ++ fold put_row rs Map.empty"
    using Cons [of "put_row r m"] by simp
  also have "put_row r m = m ++ put_row r Map.empty" by (simp add: put_row_def)
  also have "m ++ put_row r Map.empty ++ fold put_row rs Map.empty = m ++ fold put_row (r # rs) Map.empty"
    using Cons [of "put_row r Map.empty"] by simp
  finally show ?case .
qed simp

lemma fold_put_source:
  "fold put_row rs Map.empty k = Some v \<Longrightarrow> \<exists>r. (r, v) \<in> set rs \<and> k = key_bytes r"
proof (induction rs rule: rev_induct)
  case (snoc r rs)
  then show ?case by (cases r) (auto simp: put_row_def split: if_splits)
qed simp

lemma fold_put_stable:
  assumes "m k = Some v" and "\<And>r u. (r, u) \<in> set rs \<Longrightarrow> key_bytes r = k \<Longrightarrow> u = v"
  shows "fold put_row rs m k = Some v"
  using assms
proof (induction rs arbitrary: m)
  case (Cons r rs)
  obtain x u where r: "r = (x, u)" by (cases r)
  have "put_row r m k = Some v" using Cons.prems(1) Cons.prems(2) [of x u] by (auto simp: r put_row_def)
  then have "fold put_row rs (put_row r m) k = Some v"
    using Cons.prems(2) by (intro Cons.IH) auto
  then show ?case by simp
qed simp

text \<open>One code hash names one code throughout a run.\<close>

definition same_code :: "batch list \<Rightarrow> bool" where
  "same_code bs \<longleftrightarrow>
     (\<forall>b \<in> set bs. \<forall>c \<in> set bs. \<forall>h x y. OpCode h x \<in> set (Ops b) \<longrightarrow> OpCode h y \<in> set (Ops c) \<longrightarrow> x = y)"

lemma row_list_agree:
  assumes "same_code bs" and "b \<in> set bs" "c \<in> set bs" and "Block b \<noteq> Block c"
    and "list_all op_sized (Ops b)" "list_all op_sized (Ops c)"
    and "(r, v) \<in> set (row_list b)" "(r, u) \<in> set (row_list c)"
  shows "u = v"
proof -
  have "\<exists>h x y. op = OpCode h x \<and> op' = OpCode h y"
    if "fst (op_row (Block b) op) = fst (op_row (Block c) op')" "op_sized op" "op_sized op'" for op op'
    using that assms(4) by (cases op; cases op') auto
  moreover have "fst (op_row x op) \<noteq> KDiff y" for x y op by (cases op) auto
  ultimately show ?thesis
    using assms
    by (auto simp: row_list_def same_code_def list_all_iff) (metis fst_conv op_row.simps(5) snd_conv)+
qed

lemma block_map_replay:
  assumes "ascending bs" and "same_code bs" and "b \<in> set bs"
    and "\<And>c. c \<in> set bs \<Longrightarrow> list_all op_sized (Ops c)"
  shows "block_map b (history_map bs m) = history_map bs m"
proof -
  from assms(3) obtain xs ys where bs: "bs = xs @ b # ys" by (meson split_list)
  let ?R = "fold put_row (row_list b) Map.empty"
  have "history_map ys (block_map b m') k = Some v" if "?R k = Some v" for m' k v
  proof -
    from fold_put_source [OF that] obtain r where r: "(r, v) \<in> set (row_list b)" "k = key_bytes r"
      by blast
    have "history_map zs m'' k = Some v" if "m'' k = Some v" "set zs \<subseteq> set ys" for zs m''
      using that
    proof (induction zs arbitrary: m'')
      case (Cons c zs)
      then have "c \<in> set ys" by simp
      then have "Block b \<noteq> Block c" using assms(1) by (auto simp: bs ascending_def sorted_wrt_append)
      then have "u = v" if "(r, u) \<in> set (row_list c)" for u
        using that r(1) assms(2-4) \<open>c \<in> set ys\<close>
        by (intro row_list_agree [of bs b c r v u]) (auto simp: bs)
      with Cons.prems(1) r(2) have "block_map c m'' k = Some v"
        by (auto simp: block_map_fold intro: fold_put_stable)
      with Cons.IH Cons.prems(2) show ?case by simp
    qed simp
    moreover have "block_map b m' k = Some v"
      using that by (simp add: block_map_fold fold_put_add [of _ m'])
    ultimately show ?thesis by simp
  qed
  then have "?R \<subseteq>\<^sub>m history_map bs m" by (auto simp: bs map_le_def)
  then show ?thesis
    by (subst block_map_fold, subst fold_put_add) (simp add: map_add_subsumed2)
qed

fun write_all :: "'e lmdb_ops \<Rightarrow> 'e db \<Rightarrow> batch list \<Rightarrow> 'e db \<times> error option" where
  "write_all L d [] = (d, None)"
| "write_all L d (b # bs) =
     (case WriteBlock L d b of (d', Some err) \<Rightarrow> (d', Some err) | (d', None) \<Rightarrow> write_all L d' bs)"

lemma contract_sized: "contract b \<Longrightarrow> sized b" "contract b \<Longrightarrow> list_all op_sized (Ops b)"
  by (simp_all add: contract_def sized_def)

lemma block_map_metas:
  assumes "list_all op_sized (Ops b)"
  shows "block_map b m MetaGenesis = m MetaGenesis"
    "block_map b m MetaBaselineComplete = m MetaBaselineComplete"
  using block_map_meta [OF assms, of m] by (simp_all add: key_simps)

context healthy_lmdb
begin

lemma WriteBlock_ok:
  assumes "db_ok kv S d" and "sized b"
  shows "\<exists>d'. WriteBlock L d b = (d', None) \<and> kv (env d') = block_map b (kv (env d))
    \<and> db_ok kv S d' \<and> complete kv d' = complete kv d"
proof -
  from assms(2) have s: "list_all op_sized (Ops b)" by (simp add: sized_def)
  from WriteBlock_kv [OF assms(2), of d] obtain e
    where w: "WriteBlock L d b = (d\<lparr>env := e\<rparr>, None)" and e: "kv e = block_map b (kv (env d))"
    by blast
  with assms show ?thesis
    by (auto simp: db_ok_def complete_def e block_map_metas [OF s] intro: wf_rows_block_map)
qed

lemma write_all_ok:
  "db_ok kv S d \<Longrightarrow> list_all sized bs \<Longrightarrow>
   \<exists>d'. write_all L d bs = (d', None) \<and> kv (env d') = history_map bs (kv (env d))
    \<and> db_ok kv S d' \<and> complete kv d' = complete kv d"
proof (induction bs arbitrary: d)
  case (Cons b bs)
  then obtain d1 where w: "WriteBlock L d b = (d1, None)" "kv (env d1) = block_map b (kv (env d))"
    "db_ok kv S d1" "complete kv d1 = complete kv d"
    using WriteBlock_ok [of S d b] by auto
  with Cons.IH [of d1] Cons.prems show ?case by auto
qed auto

lemma history_reads:
  assumes ok: "db_ok kv S d" "complete kv d" "no_edge (kv (env d))" and at: "S \<le> at"
    and bs: "appendable (kv (env d)) bs"
    and w: "w = apply_chain (filter (\<lambda>b. Block b \<le> at) bs) (world_at kc (kv (env d)) at)"
  shows "\<exists>d'. write_all L d bs = (d', None)
    \<and> snd (GetAccount L kc d' a at) = Inr (acct_res (w_acct w a))
    \<and> snd (GetSlot L kc d' a s at) = Inr (w_slot w a s)"
proof -
  from bs have "list_all sized bs"
    by (auto simp: appendable_def list_all_iff contract_def)
  with write_all_ok [OF ok(1)] ok(2) obtain d' where d': "write_all L d bs = (d', None)"
    "kv (env d') = history_map bs (kv (env d))" "db_ok kv S d'" "complete kv d'"
    by blast
  from wf_history [OF bs] ok have "no_edge (kv (env d'))" by (simp add: d' db_ok_def)
  from GetAccount_eq [OF d'(3) at, of kc a] GetSlot_no_edge [OF d'(3) at this d'(4), of kc a s]
  show ?thesis
    using d' world_history [OF bs, of kc at] unfolding w
    by (auto simp flip: world_at_sel cong: option.case_cong)
qed

end

subsection \<open>Code rows\<close>

text \<open>Every code row holds a preimage of its key, as every code of a batch does.\<close>

definition code_rows_ok :: "(bytes \<Rightarrow> hash) \<Rightarrow> (bytes \<rightharpoonup> bytes) \<Rightarrow> bool" where
  "code_rows_ok kc m \<longleftrightarrow> (\<forall>h c. m (key_bytes (KCode h)) = Some c \<longrightarrow> kc c = h)"

definition codes_hashed :: "(bytes \<Rightarrow> hash) \<Rightarrow> batch \<Rightarrow> bool" where
  "codes_hashed kc b \<longleftrightarrow> list_all (\<lambda>op. case op of OpCode h c \<Rightarrow> kc c = h | _ \<Rightarrow> True) (Ops b)"

lemma code_rows_put:
  assumes "code_rows_ok kc m" and "\<And>h. fst r = KCode h \<Longrightarrow> kc (snd r) = h"
  shows "code_rows_ok kc (put_row r m)"
  unfolding code_rows_ok_def put_row_def
proof (intro allI impI)
  fix h c
  assume "(m(key_bytes (fst r) \<mapsto> snd r)) (key_bytes (KCode h)) = Some c"
  with assms show "kc c = h"
    by (cases "fst r = KCode h") (simp_all add: code_rows_ok_def)
qed

lemma code_rows_fold:
  assumes "code_rows_ok kc m" and "list_all (\<lambda>op. case op of OpCode h c \<Rightarrow> kc c = h | _ \<Rightarrow> True) ops"
  shows "code_rows_ok kc (fold (\<lambda>op. put_row (op_row blk op)) ops m)"
  using assms
proof (induction ops arbitrary: m)
  case (Cons op ops)
  have "code_rows_ok kc (put_row (op_row blk op) m)"
    using Cons.prems by (intro code_rows_put) (cases op; simp)+
  with Cons show ?case by simp
qed simp

lemma code_rows_block_map:
  assumes "code_rows_ok kc m" and "codes_hashed kc b"
  shows "code_rows_ok kc (block_map b m)"
  unfolding block_map_def
  by (rule code_rows_put) (use assms code_rows_fold in \<open>simp_all add: codes_hashed_def\<close>)

subsection \<open>A store that can answer\<close>

definition serving :: "('e \<Rightarrow> bytes \<rightharpoonup> bytes) \<Rightarrow> u64 \<Rightarrow> 'e db \<Rightarrow> bool" where
  "serving kv S d \<longleftrightarrow> db_ok kv S d \<and> complete kv d \<and> no_edge (kv (env d))"

context healthy_lmdb
begin

lemma serving_GetAccount:
  assumes "serving kv S d" and "S \<le> at"
  shows "\<exists>d'. GetAccount L kc d a at = (d', Inr (acct_res (w_acct (world_at kc (kv (env d)) at) a)))
    \<and> env d' = env d \<and> serving kv S d'"
  using GetAccount_eq [of S d at kc a] assms by (auto simp: serving_def complete_def)

lemma serving_GetSlot:
  assumes "serving kv S d" and "S \<le> at"
  shows "\<exists>d'. GetSlot L kc d a s at = (d', Inr (w_slot (world_at kc (kv (env d)) at) a s))
    \<and> env d' = env d \<and> serving kv S d'"
  using GetSlot_no_edge [of S d at kc a s] assms by (auto simp: serving_def complete_def)

lemma GetCode_eq:
  "GetCode L d h = (case kv (env d) (key_bytes (KCode h)) of None \<Rightarrow> Inl ErrNotFound | Some c \<Rightarrow> Inr c)"
  by (simp add: GetCode_def get_eq key_simps split: option.split)

lemma commit_serving:
  assumes sv: "serving kv S d" and c: "contract b" and f: "fresh (kv (env d)) (Block b)"
    and w: "WriteBlock L d b = (d', None)"
  shows "serving kv S d'" and "world_at kc (kv (env d')) at =
    (if at < Block b then world_at kc (kv (env d)) at else apply_batch b (world_at kc (kv (env d)) at))"
proof -
  from WriteBlock_ok [of S d b] sv c w have d': "kv (env d') = block_map b (kv (env d))" "db_ok kv S d'"
      "complete kv d' = complete kv d"
    by (auto simp: serving_def contract_def)
  with sv c no_edge_block_map [OF f] show "serving kv S d'"
    by (simp add: serving_def contract_def)
  from c world_block_map [OF f, of kc at] show "world_at kc (kv (env d')) at =
    (if at < Block b then world_at kc (kv (env d)) at else apply_batch b (world_at kc (kv (env d)) at))"
    by (simp add: d' contract_def)
qed

end

end
