(* ===== verification/StoreBaseline.thy ===== *)
theory StoreBaseline
  imports StoreHistory
begin

text \<open>
  The baseline loader of \<^verbatim>\<open>src/store/store.go\<close>: what is buffered and what is in the database is one
  map, \<open>pending_map\<close>, and adding an entry changes exactly its key in it, whether or not the chunk
  fills up and is flushed. A flush is atomic together with the progress cursor; \<^verbatim>\<open>Finish\<close> declares
  the baseline complete only when no storage walk is queued.
\<close>

definition bl_ok :: "bl_op \<Rightarrow> bool" where
  "bl_ok op \<longleftrightarrow> (\<exists>r. bl_k op = key_bytes r \<and> (\<forall>t. r \<noteq> KMeta t) \<and> (\<not> bl_del op \<longrightarrow> row_ok r (bl_v op)))"

definition bl_contents :: "bl_op list \<Rightarrow> (bytes \<rightharpoonup> bytes) \<Rightarrow> (bytes \<rightharpoonup> bytes)" where
  "bl_contents ops m = fold bl_map ops m"

definition pending_map :: "('e \<Rightarrow> bytes \<rightharpoonup> bytes) \<Rightarrow> 'e db \<Rightarrow> baseline \<Rightarrow> (bytes \<rightharpoonup> bytes)" where
  "pending_map kv d bl = bl_contents (bl_ops bl) (kv (env d))"

lemma bl_contents_simps [simp]:
  "bl_contents [] m = m" "bl_contents (ops @ [op]) m = bl_map op (bl_contents ops m)"
  "bl_contents (op # ops) m = bl_contents ops (bl_map op m)"
  by (simp_all add: bl_contents_def)

lemma bl_map_wf: "bl_ok op \<Longrightarrow> wf_rows m \<Longrightarrow> wf_rows (bl_map op m)"
  by (auto simp: bl_ok_def bl_map_def wf_rows_upd wf_rows_del)

lemma bl_map_meta: "bl_ok op \<Longrightarrow> bl_map op m (key_bytes (KMeta t)) = m (key_bytes (KMeta t))"
  by (auto simp: bl_ok_def bl_map_def)

lemma bl_contents_wf: "list_all bl_ok ops \<Longrightarrow> wf_rows m \<Longrightarrow> wf_rows (bl_contents ops m)"
  by (induction ops arbitrary: m) (simp_all add: bl_map_wf)

lemma bl_contents_meta:
  "list_all bl_ok ops \<Longrightarrow> bl_contents ops m (key_bytes (KMeta t)) = m (key_bytes (KMeta t))"
  by (induction ops arbitrary: m) (simp_all add: bl_map_meta)

subsection \<open>Flush\<close>

text \<open>Whatever the database does, a flush that reports an error has changed nothing in it.\<close>

lemma Flush_atomic:
  "case Flush L d bl of (d', bl', err) \<Rightarrow>
     (err \<noteq> None \<longrightarrow> d' = d)
     \<and> genesisPlus1 d' = genesisPlus1 d \<and> baselineDone d' = baselineDone d"
  by (auto simp: Flush_def Update_def split: sum.splits prod.splits)

definition put_progress :: "bytes option \<Rightarrow> (bytes \<rightharpoonup> bytes) \<Rightarrow> (bytes \<rightharpoonup> bytes)" where
  "put_progress p m = (case p of None \<Rightarrow> m | Some v \<Rightarrow> m(key_bytes (KMeta 4) \<mapsto> v))"

context healthy_lmdb
begin

lemma flush_op_kv:
  assumes "bl_ok op"
  shows "\<exists>t'. flush_op L op t = Inr t' \<and> kv t' = bl_map op (kv t)"
proof -
  from assms obtain r where r: "bl_k op = key_bytes r" by (auto simp: bl_ok_def)
  show ?thesis
  proof (cases "bl_del op")
    case True
    show ?thesis
    proof (cases rule: del_cases [of t "bl_k op"])
      case (found e')
      with True show ?thesis by (simp add: bl_map_def)
    next
      case missing
      with True have "kv t = bl_map op (kv t)" by (auto simp: bl_map_def)
      with True missing show ?thesis by simp
    qed
  next
    case False
    with put_rows_ok [of t r "bl_v op"] r show ?thesis by (auto simp: bl_map_def)
  qed
qed

lemma flush_ops_kv:
  "list_all bl_ok ops \<Longrightarrow> \<exists>t'. flush_ops L ops t = Inr t' \<and> kv t' = bl_contents ops (kv t)"
proof (induction ops arbitrary: t)
  case (Cons op ops)
  then obtain t1 where "flush_op L op t = Inr t1" "kv t1 = bl_map op (kv t)"
    using flush_op_kv [of op t] by auto
  with Cons.IH [of t1] Cons.prems show ?case by simp
qed simp

lemma flush_txn_kv:
  assumes "list_all bl_ok (bl_ops bl)"
  shows "\<exists>t'. flush_txn L bl t = Inr t' \<and> kv t' = put_progress (bl_progress bl) (bl_contents (bl_ops bl) (kv t))"
proof -
  from flush_ops_kv [OF assms] obtain t1 where t1: "flush_ops L (bl_ops bl) t = Inr t1"
    "kv t1 = bl_contents (bl_ops bl) (kv t)" by blast
  show ?thesis
    using put_rows_ok [of t1 "KMeta 4"] t1
    by (cases "bl_progress bl") (simp_all add: flush_txn_def put_progress_def key_simps)
qed

lemma Flush_kv:
  assumes "list_all bl_ok (bl_ops bl)"
  shows "\<exists>e. Flush L d bl = (d\<lparr>env := e\<rparr>, bl\<lparr>bl_ops := [], bl_progress := None\<rparr>, None)
    \<and> kv e = put_progress (bl_progress bl) (pending_map kv d bl)"
proof (cases "bl_ops bl = [] \<and> bl_progress bl = None")
  case True
  then have "bl\<lparr>bl_ops := [], bl_progress := None\<rparr> = bl" by (cases bl) simp
  with True show ?thesis
    by (auto simp: Flush_def put_progress_def pending_map_def intro!: exI [of _ "env d"])
next
  case False
  from flush_txn_kv [OF assms, of "env d"] obtain t where t: "flush_txn L bl (env d) = Inr t"
    "kv t = put_progress (bl_progress bl) (pending_map kv d bl)"
    by (auto simp: pending_map_def)
  from Update_ok [of "flush_txn L bl", OF t(1)] t(2) False show ?thesis
    by (auto simp: Flush_def)
qed

text \<open>
  Adding an entry: whether or not the chunk is flushed, buffer and database together change at
  the key of the entry and, with a flush, at the progress row.
\<close>

lemma bl_push_kv:
  assumes ok: "list_all bl_ok (bl_ops bl)" "bl_ok op" and p: "bl_progress bl = None"
  shows "\<exists>e bl'. bl_push L d bl op = (d\<lparr>env := e\<rparr>, bl', None)
    \<and> pending_map kv (d\<lparr>env := e\<rparr>) bl' = bl_map op (pending_map kv d bl)
    \<and> list_all bl_ok (bl_ops bl') \<and> bl_progress bl' = None \<and> bl_s bl' = bl_s bl
    \<and> length (bl_ops bl') < baselineChunk \<and> (wf_rows (kv (env d)) \<longrightarrow> wf_rows (kv e))"
proof -
  let ?bl = "bl\<lparr>bl_ops := bl_ops bl @ [op]\<rparr>"
  have ok': "list_all bl_ok (bl_ops ?bl)" using ok by simp
  show ?thesis
  proof (cases "baselineChunk \<le> length (bl_ops ?bl)")
    case True
    from Flush_kv [OF ok', of d] p obtain e where
      "Flush L d ?bl = (d\<lparr>env := e\<rparr>, ?bl\<lparr>bl_ops := [], bl_progress := None\<rparr>, None)"
      "kv e = bl_contents (bl_ops ?bl) (kv (env d))"
      by (auto simp: pending_map_def put_progress_def)
    with True bl_contents_wf [OF ok', of "kv (env d)"] show ?thesis
      by (intro exI [of _ e]) (auto simp: bl_push_def Let_def pending_map_def baselineChunk_def)
  next
    case False
    then show ?thesis
      using ok' p by (auto simp: bl_push_def Let_def pending_map_def not_le intro!: exI [of _ "env d"])
  qed
qed

end

subsection \<open>Finish\<close>

definition queue_empty :: "(bytes \<rightharpoonup> bytes) \<Rightarrow> bool" where
  "queue_empty m \<longleftrightarrow> (\<forall>h. m (key_bytes (KQueue h)) = None)"

definition finished_map :: "(bytes \<rightharpoonup> bytes) \<Rightarrow> (bytes \<rightharpoonup> bytes)" where
  "finished_map m = m(key_bytes (KMeta 4) := None, key_bytes (KMeta 2) \<mapsto> [1])"

context healthy_lmdb
begin

lemma finish_txn_complete:
  "\<exists>t'. (case mdb_del L t MetaBaselineProgress of
           Inl MDB_NOTFOUND \<Rightarrow> lift_mdb (mdb_put L t MetaBaselineComplete [1])
         | Inl m \<Rightarrow> Inl (ErrLmdb m)
         | Inr t' \<Rightarrow> lift_mdb (mdb_put L t' MetaBaselineComplete [1])) = Inr t'
     \<and> kv t' = finished_map (kv t)"
proof (cases rule: del_cases [of t MetaBaselineProgress])
  case (found e')
  with put_rows_ok [of e' "KMeta 2" "[1]"] show ?thesis by (simp add: key_simps finished_map_def)
next
  case missing
  then have "(kv t)(key_bytes (KMeta 4) := None) = kv t" by (auto simp: key_simps)
  with missing put_rows_ok [of t "KMeta 2" "[1]"] show ?thesis by (simp add: key_simps finished_map_def)
qed

lemma queue_seek:
  assumes wf: "wf_rows (kv t)"
  shows "(\<exists>k v. cur_set_range L t [PrefStorageQueue] = Inr (k, v) \<and> length k > 0 \<and> k ! 0 = PrefStorageQueue)
    \<longleftrightarrow> \<not> queue_empty (kv t)"
proof (cases rule: set_range_cases [of t "[PrefStorageQueue]"])
  case (found k v)
  from wf found(2) obtain r where r: "k = key_bytes r" by (auto simp: wf_rows_def)
  have hd: "k ! 0 = key_prefix r" "length k > 0"
    using hd_key_bytes [of r] length_key_bytes [of r] r by (auto simp: hd_conv_nth)
  have "key_prefix r = PrefStorageQueue" if q: "kv t (key_bytes (KQueue h)) \<noteq> None" for h
  proof -
    have le: "[PrefStorageQueue] \<le> key_bytes (KQueue h)"
      by (simp add: key_bytes_layout)
    with found(4) q have "k \<le> key_bytes (KQueue h)" by blast
    with found(3) have "\<exists>u. k = [PrefStorageQueue] @ u"
      using between_common_prefix [of "[PrefStorageQueue]" "[]" k "be_bytes 32 h"]
      by (simp add: key_bytes_layout)
    with hd show ?thesis by auto
  qed
  moreover have "\<exists>h. r = KQueue h" if "key_prefix r = PrefStorageQueue"
    using that unfolding key_prefix_eq by blast
  ultimately show ?thesis
    using found(1,2) r hd unfolding queue_empty_def by auto
next
  case missing
  have "kv t (key_bytes (KQueue h)) = None" for h
    using missing(2) [of "key_bytes (KQueue h)"] by (auto simp: key_bytes_layout)
  with missing(1) show ?thesis by (simp add: queue_empty_def)
qed

lemma finish_txn_kv:
  assumes wf: "wf_rows (kv t)"
  shows "if queue_empty (kv t) then \<exists>t'. finish_txn L t = Inr t' \<and> kv t' = finished_map (kv t)
    else \<exists>k. finish_txn L t = Inl (ErrQueuePending k)"
proof (cases rule: set_range_cases [of t "[PrefStorageQueue]"])
  case (found k v)
  with queue_seek [OF wf] finish_txn_complete [of t] show ?thesis
    by (auto simp: finish_txn_def Let_def)
next
  case missing
  with queue_seek [OF wf] finish_txn_complete [of t] show ?thesis
    by (auto simp: finish_txn_def Let_def)
qed

lemma Finish_kv:
  assumes ok: "list_all bl_ok (bl_ops bl)" and wf: "wf_rows (kv (env d))"
  shows "\<exists>d' bl' err. Finish L d bl = (d', bl', err)
    \<and> (if queue_empty (pending_map kv d bl)
       then err = None \<and> kv (env d') = finished_map (pending_map kv d bl) \<and> baselineDone d'
       else (\<exists>k. err = Some (ErrQueuePending k)) \<and> kv (env d') = pending_map kv d bl
         \<and> baselineDone d' = baselineDone d)
    \<and> genesisPlus1 d' = genesisPlus1 d"
proof -
  let ?bl = "bl\<lparr>bl_progress := None\<rparr>"
  from Flush_kv [of ?bl d] ok obtain e where
    f: "Flush L d ?bl = (d\<lparr>env := e\<rparr>, ?bl\<lparr>bl_ops := [], bl_progress := None\<rparr>, None)"
    and e: "kv e = pending_map kv d bl"
    by (auto simp: put_progress_def pending_map_def)
  have wfe: "wf_rows (kv e)" using bl_contents_wf [OF ok wf] by (simp add: e pending_map_def)
  show ?thesis
  proof (cases "queue_empty (kv e)")
    case True
    with finish_txn_kv [OF wfe] obtain t where t: "finish_txn L e = Inr t" "kv t = finished_map (kv e)" by auto
    from Update_ok [of "finish_txn L", OF t(1)] t(2) True show ?thesis
      by (auto simp: Finish_def f e)
  next
    case False
    with finish_txn_kv [OF wfe] obtain k where "finish_txn L e = Inl (ErrQueuePending k)" by auto
    with False show ?thesis by (auto simp: Finish_def f e Update_def)
  qed
qed

subsection \<open>NewBaseline\<close>

text \<open>A handle on a store without a genesis: a loader may claim any pivot.\<close>

lemma NewBaseline_first:
  assumes "genesisPlus1 d = 0" and "\<not> baselineDone d" and "kv (env d) MetaGenesis = None" and "wf_rows (kv (env d))"
  shows "\<exists>d'. NewBaseline L d S = (d', Inr \<lparr>bl_s = S, bl_ops = [], bl_progress = None\<rparr>) \<and> db_ok kv S d'
    \<and> kv (env d') = (kv (env d))(key_bytes (KMeta 1) \<mapsto> be_bytes 8 S) \<and> \<not> baselineDone d'"
proof -
  from putMeta_kv [of d 1 "be_bytes 8 S"] obtain e where
    "putMeta L d MetaGenesis (be_bytes 8 S) = (d\<lparr>env := e\<rparr>, None)"
    and e: "kv e = (kv (env d))(key_bytes (KMeta 1) \<mapsto> be_bytes 8 S)" by (auto simp: key_simps)
  with assms show ?thesis
    by (auto simp: NewBaseline_def Genesis_def getMetaU64_def get_eq db_ok_def key_simps intro!: wf_rows_upd)
qed

text \<open>Once a pivot is set, only a loader for the same pivot is admitted.\<close>

lemma NewBaseline_set:
  assumes "db_ok kv S d"
  shows "\<exists>d'. NewBaseline L d S' =
      (d', if S' = S then Inr \<lparr>bl_s = S, bl_ops = [], bl_progress = None\<rparr> else Inl (ErrGenesisSet S S'))
    \<and> env d' = env d \<and> db_ok kv S d'"
  using assms
  by (auto simp: NewBaseline_def Genesis_def getMetaU64_def get_eq db_ok_def u64c.dec_enc)

end

end
