(* ===== verification/NodeBaseline.thy ===== *)
theory NodeBaseline
  imports StoreBaseline
begin

text \<open>
  Package \<^verbatim>\<open>node\<close>, the baseline run (\<^verbatim>\<open>src/node/baseline.go\<close>): the full state at the
  pivot is drained from an iterator into the store, in the order accounts, slots, codes. The
  iterator is an interface implemented outside the repository: a step function \<open>nxt\<close> on its
  state. It may deliver entries for ever, so the loop is a partial function; the theorems are
  about iterators that end (\<open>run_entries\<close>), for which it returns.
\<close>

datatype entry =
    EntryAccount address account
  | EntrySlot address hash hash
  | EntryCode hash bytes
  | EntryUnknown byte

fun entry_kind :: "entry \<Rightarrow> byte" where
  "entry_kind (EntryAccount _ _) = 1"
| "entry_kind (EntrySlot _ _ _) = 2"
| "entry_kind (EntryCode _ _) = 3"
| "entry_kind (EntryUnknown k) = k"

fun entry_key :: "entry \<Rightarrow> bytes" where
  "entry_key (EntryAccount a _) = be_bytes 20 a"
| "entry_key (EntrySlot a s _) = be_bytes 20 a @ be_bytes 32 s"
| "entry_key (EntryCode h _) = be_bytes 32 h"
| "entry_key (EntryUnknown _) = []"

fun entry_add :: "'e lmdb_ops \<Rightarrow> 'e db \<Rightarrow> baseline \<Rightarrow> entry \<Rightarrow> 'e bl_result" where
  "entry_add L d bl (EntryAccount a acc) = bl_Account L d bl a acc"
| "entry_add L d bl (EntrySlot a s v) = bl_Slot L d bl a s v"
| "entry_add L d bl (EntryCode h c) = bl_Code L d bl h c"
| "entry_add L d bl (EntryUnknown k) = (d, bl, Some (ErrUnknownKind k))"

fun known_kind :: "entry \<Rightarrow> bool" where
  "known_kind (EntryUnknown _) = False"
| "known_kind _ = True"

text \<open>The checks of one round, \<open>n\<close> the entry's number: unknown kind, kind order, key order.\<close>

definition entry_check :: "nat \<Rightarrow> byte \<Rightarrow> bytes \<Rightarrow> entry \<Rightarrow> error option" where
  "entry_check n prevKind prevKey e =
     (if \<not> known_kind e then Some (ErrUnknownKind (entry_kind e))
      else if entry_kind e < prevKind then Some (ErrOrder n)
      else if entry_kind e = prevKind \<and> entry_key e \<le> prevKey then Some (ErrOrder n)
      else None)"

type_synonym 'i iterator = "'i \<Rightarrow> 'i \<times> (error + entry option)"

partial_function (option) baseline_loop ::
  "'i iterator \<Rightarrow> 'e lmdb_ops \<Rightarrow> 'i \<Rightarrow> 'e db \<Rightarrow> baseline \<Rightarrow> nat \<Rightarrow> byte \<Rightarrow> bytes
     \<Rightarrow> ('e db \<times> error option) option" where
  "baseline_loop nxt L it d bl n prevKind prevKey =
     (case nxt it of
        (it', Inl err) \<Rightarrow> Some (d, Some err)
      | (it', Inr None) \<Rightarrow> (case Finish L d bl of (d', bl', err) \<Rightarrow> Some (d', err))
      | (it', Inr (Some e)) \<Rightarrow>
          (case entry_check n prevKind prevKey e of
             Some err \<Rightarrow> Some (d, Some err)
           | None \<Rightarrow>
               (case entry_add L d bl e of
                  (d', bl', Some err) \<Rightarrow> Some (d', Some err)
                | (d', bl', None) \<Rightarrow>
                    baseline_loop nxt L it' d' bl' (n + 1) (entry_kind e) (entry_key e))))"

definition RunBaseline ::
  "'i iterator \<Rightarrow> 'e lmdb_ops \<Rightarrow> 'e db \<Rightarrow> u64 \<Rightarrow> 'i \<Rightarrow> ('e db \<times> error option) option" where
  "RunBaseline nxt L d s it =
     (case NewBaseline L d s of
        (d1, Inl err) \<Rightarrow> Some (d1, Some err)
      | (d1, Inr bl) \<Rightarrow> baseline_loop nxt L it d1 bl 0 0 [])"

subsection \<open>Iterators that end\<close>

text \<open>\<open>delivers nxt it es\<close>: the iterator hands out the entries \<open>es\<close> and then ends cleanly.\<close>

fun delivers :: "'i iterator \<Rightarrow> 'i \<Rightarrow> entry list \<Rightarrow> bool" where
  "delivers nxt it [] \<longleftrightarrow> snd (nxt it) = Inr None"
| "delivers nxt it (e # es) \<longleftrightarrow> (\<exists>it'. nxt it = (it', Inr (Some e)) \<and> delivers nxt it' es)"

definition list_iter :: "entry list iterator" where
  "list_iter es = (case es of [] \<Rightarrow> ([], Inr None) | e # es' \<Rightarrow> (es', Inr (Some e)))"

lemma delivers_list: "delivers list_iter es es"
  by (induction es) (simp_all add: list_iter_def)

text \<open>The order the loop insists on.\<close>

fun in_order :: "byte \<Rightarrow> bytes \<Rightarrow> entry list \<Rightarrow> bool" where
  "in_order k key [] \<longleftrightarrow> True"
| "in_order k key (e # es) \<longleftrightarrow>
     known_kind e \<and> (k < entry_kind e \<or> k = entry_kind e \<and> key < entry_key e)
     \<and> in_order (entry_kind e) (entry_key e) es"

lemma entry_check_None:
  "entry_check n k key e = None \<longleftrightarrow> known_kind e \<and> (k < entry_kind e \<or> k = entry_kind e \<and> key < entry_key e)"
  by (auto simp: entry_check_def not_less not_le order_le_less)

fun entry_op :: "u64 \<Rightarrow> entry \<Rightarrow> bl_op" where
  "entry_op S (EntryAccount a acc) =
     \<lparr>bl_k = key_bytes (KAccount a S), bl_v = EncodeAccount [] acc, bl_del = False\<rparr>"
| "entry_op S (EntrySlot a s v) =
     \<lparr>bl_k = key_bytes (KSlot a s S), bl_v = be_bytes 32 v, bl_del = False\<rparr>"
| "entry_op S (EntryCode h c) = \<lparr>bl_k = key_bytes (KCode h), bl_v = c, bl_del = False\<rparr>"
| "entry_op S (EntryUnknown k) = \<lparr>bl_k = [], bl_v = [], bl_del = False\<rparr>"

lemma entry_op_ok: "known_kind e \<Longrightarrow> bl_ok (entry_op S e)"
  by (cases e) (auto simp: bl_ok_def length_EncodeAccount)

lemma entry_add_push: "known_kind e \<Longrightarrow> entry_add L d bl e = bl_push L d bl (entry_op (bl_s bl) e)"
  by (cases e) (simp_all add: bl_Account_def bl_Slot_def bl_Code_def bl_add_def key_simps)

lemma in_order_above:
  "in_order k key es \<Longrightarrow> e \<in> set es \<Longrightarrow> k < entry_kind e \<or> k = entry_kind e \<and> key < entry_key e"
proof (induction es arbitrary: k key)
  case (Cons x es)
  then show ?case by (fastforce intro: order.strict_trans)
qed simp

definition entry_accounts :: "entry list \<Rightarrow> (address \<times> account) list" where
  "entry_accounts es = concat (map (\<lambda>e. case e of EntryAccount a acc \<Rightarrow> [(a, acc)] | _ \<Rightarrow> []) es)"

definition entry_slots :: "entry list \<Rightarrow> ((address \<times> hash) \<times> hash) list" where
  "entry_slots es = concat (map (\<lambda>e. case e of EntrySlot a s v \<Rightarrow> [((a, s), v)] | _ \<Rightarrow> []) es)"

lemma entry_lists_mem:
  "(a, acc) \<in> set (entry_accounts es) \<longleftrightarrow> EntryAccount a acc \<in> set es"
  "((a, s), v) \<in> set (entry_slots es) \<longleftrightarrow> EntrySlot a s v \<in> set es"
  by (force simp: entry_accounts_def entry_slots_def split: entry.splits)+

lemma entry_lists_Cons [simp]:
  "entry_accounts [] = []" "entry_slots [] = []"
  "entry_accounts (EntryAccount a acc # es) = (a, acc) # entry_accounts es"
  "entry_accounts (EntrySlot a s v # es) = entry_accounts es"
  "entry_accounts (EntryCode h c # es) = entry_accounts es"
  "entry_slots (EntryAccount a acc # es) = entry_slots es"
  "entry_slots (EntrySlot a s v # es) = ((a, s), v) # entry_slots es"
  "entry_slots (EntryCode h c # es) = entry_slots es"
  by (simp_all add: entry_accounts_def entry_slots_def)

lemma loaded_accounts:
  "in_order k key es \<Longrightarrow> bl_contents (map (entry_op S) es) m (key_bytes (KAccount a b)) =
     (case map_of (entry_accounts es) a of
        Some acc \<Rightarrow> if b = S then Some (EncodeAccount [] acc) else m (key_bytes (KAccount a b))
      | None \<Rightarrow> m (key_bytes (KAccount a b)))"
proof (induction es arbitrary: m k key)
  case (Cons e es)
  have "map_of (entry_accounts es) x = None" if "e = EntryAccount x acc" for x acc
  proof (rule ccontr)
    assume "map_of (entry_accounts es) x \<noteq> None"
    then obtain acc' where "EntryAccount x acc' \<in> set es"
      using map_of_SomeD by (fastforce simp: entry_lists_mem)
    with in_order_above [of 1 "be_bytes 20 x" es "EntryAccount x acc'"] Cons.prems that show False by simp
  qed
  with Cons show ?case
    by (cases e) (auto simp: bl_map_def split: option.splits)
qed simp

lemma loaded_slots:
  "in_order k key es \<Longrightarrow> bl_contents (map (entry_op S) es) m (key_bytes (KSlot a s b)) =
     (case map_of (entry_slots es) (a, s) of
        Some v \<Rightarrow> if b = S then Some (be_bytes 32 v) else m (key_bytes (KSlot a s b))
      | None \<Rightarrow> m (key_bytes (KSlot a s b)))"
proof (induction es arbitrary: m k key)
  case (Cons e es)
  have "map_of (entry_slots es) (x, y) = None" if "e = EntrySlot x y v" for x y v
  proof (rule ccontr)
    assume "map_of (entry_slots es) (x, y) \<noteq> None"
    then obtain v' where "EntrySlot x y v' \<in> set es"
      using map_of_SomeD by (fastforce simp: entry_lists_mem)
    with in_order_above [of 2 "be_bytes 20 x @ be_bytes 32 y" es "EntrySlot x y v'"] Cons.prems that show False
      by simp
  qed
  with Cons show ?case
    by (cases e) (auto simp: bl_map_def split: option.splits)
qed simp

lemma loaded_other:
  assumes "list_all known_kind es" and "\<And>a b. r \<noteq> KAccount a b" and "\<And>a s b. r \<noteq> KSlot a s b" and "\<And>h. r \<noteq> KCode h"
  shows "bl_contents (map (entry_op S) es) m (key_bytes r) = m (key_bytes r)"
  using assms(1)
proof (induction es arbitrary: m)
  case (Cons e es)
  with assms(2-4) show ?case by (cases e) (auto simp: bl_map_def)
qed simp

lemma in_order_known: "in_order k key es \<Longrightarrow> list_all known_kind es"
  by (induction es arbitrary: k key) auto

text \<open>A store with meta rows only.\<close>

definition blank :: "(bytes \<rightharpoonup> bytes) \<Rightarrow> bool" where
  "blank m \<longleftrightarrow> (\<forall>r. (\<forall>t. r \<noteq> KMeta t) \<longrightarrow> m (key_bytes r) = None)"

lemma loaded_world:
  assumes "blank m" and "in_order k key es" and "S \<le> at"
    and m': "\<And>r. \<forall>t. r \<noteq> KMeta t \<Longrightarrow> m' (key_bytes r) = bl_contents (map (entry_op S) es) m (key_bytes r)"
  shows "world_at kc m' at = \<lparr>w_acct = map_of (entry_accounts es),
    w_slot = (\<lambda>a s. case map_of (entry_slots es) (a, s) of None \<Rightarrow> 0 | Some v \<Rightarrow> v)\<rparr>"
proof -
  note kn = in_order_known [OF assms(2)]
  have a: "last_write m' (KAccount a) at = map_option (Pair S) (map_option (EncodeAccount []) (map_of (entry_accounts es) a))" for a
    using assms(1) by (intro last_write_single [OF _ assms(3)])
      (auto simp: m' loaded_accounts [OF assms(2)] blank_def split: option.splits)
  have s: "last_write m' (KSlot a s) at = map_option (Pair S) (map_option (be_bytes 32) (map_of (entry_slots es) (a, s)))" for a s
    using assms(1) by (intro last_write_single [OF _ assms(3)])
      (auto simp: m' loaded_slots [OF assms(2)] blank_def split: option.splits)
  have d: "last_write m' (KDestruct a) at = None" for a
    using assms(1) by (simp add: last_write_None m' loaded_other [OF kn] blank_def)
  have b: "m' (key_bytes (KBaseAccount h)) = None" "m' (key_bytes (KBaseSlot h g)) = None" for h g
    using assms(1) by (simp_all add: m' loaded_other [OF kn] blank_def)
  show ?thesis
    by (rule world_eqI)
      (simp_all add: acct_at_def slot_at_def a s d b acct_dec_def accountc.dec_enc hashc.dec_enc
        split: option.split)
qed

context healthy_lmdb
begin

lemma run_entries:
  assumes "delivers nxt it es" and "in_order k key es"
    and "list_all bl_ok (bl_ops bl)" and "bl_progress bl = None"
  shows "\<exists>e bl'. baseline_loop nxt L it d bl n k key
      = (case Finish L (d\<lparr>env := e\<rparr>) bl' of (d', _, err) \<Rightarrow> Some (d', err))
    \<and> pending_map kv (d\<lparr>env := e\<rparr>) bl' = bl_contents (map (entry_op (bl_s bl)) es) (pending_map kv d bl)
    \<and> list_all bl_ok (bl_ops bl') \<and> (wf_rows (kv (env d)) \<longrightarrow> wf_rows (kv e))"
  using assms
proof (induction es arbitrary: it d bl n k key)
  case Nil
  then have "\<exists>it'. nxt it = (it', Inr None)" by (cases "nxt it") auto
  then show ?case
    using Nil by (auto simp: baseline_loop.simps [of nxt L it] intro!: exI [of _ "env d"] exI [of _ bl])
next
  case (Cons x es)
  from Cons.prems obtain it' where it: "nxt it = (it', Inr (Some x))" "delivers nxt it' es" by auto
  from Cons.prems(2) have x: "known_kind x" "entry_check n k key x = None"
    "in_order (entry_kind x) (entry_key x) es"
    by (auto simp: entry_check_None)
  from bl_push_kv [OF Cons.prems(3) entry_op_ok [OF x(1)] Cons.prems(4), of d] obtain e bl' where
    p: "bl_push L d bl (entry_op (bl_s bl) x) = (d\<lparr>env := e\<rparr>, bl', None)"
      "pending_map kv (d\<lparr>env := e\<rparr>) bl' = bl_map (entry_op (bl_s bl) x) (pending_map kv d bl)"
      "list_all bl_ok (bl_ops bl')" "bl_progress bl' = None" "bl_s bl' = bl_s bl"
      "wf_rows (kv (env d)) \<longrightarrow> wf_rows (kv e)"
    by blast
  have step: "baseline_loop nxt L it d bl n k key
      = baseline_loop nxt L it' (d\<lparr>env := e\<rparr>) bl' (n + 1) (entry_kind x) (entry_key x)"
    by (simp add: baseline_loop.simps [of nxt L it] it x entry_add_push p)
  from Cons.IH [OF it(2) x(3) p(3,4), of "d\<lparr>env := e\<rparr>" "n + 1"] show ?case
    unfolding step p(2,5) using p(6) by auto
qed

lemma run_disordered:
  assumes "delivers nxt it es" and "\<not> in_order k key es"
    and "list_all bl_ok (bl_ops bl)" and "bl_progress bl = None"
  shows "\<exists>e err. baseline_loop nxt L it d bl n k key = Some (d\<lparr>env := e\<rparr>, Some err)
    \<and> (\<forall>t. kv e (key_bytes (KMeta t)) = kv (env d) (key_bytes (KMeta t)))"
  using assms
proof (induction es arbitrary: it d bl n k key)
  case (Cons x es)
  from Cons.prems obtain it' where it: "nxt it = (it', Inr (Some x))" "delivers nxt it' es" by auto
  show ?case
  proof (cases "entry_check n k key x")
    case (Some err)
    then show ?thesis
      by (auto simp: baseline_loop.simps [of nxt L it] it intro!: exI [of _ "env d"])
  next
    case None
    then have x: "known_kind x" "\<not> in_order (entry_kind x) (entry_key x) es"
      using Cons.prems(2) by (auto simp: entry_check_None)
    from bl_push_kv [OF Cons.prems(3) entry_op_ok [OF x(1)] Cons.prems(4), of d "bl_s bl"] obtain e bl' where
      p: "bl_push L d bl (entry_op (bl_s bl) x) = (d\<lparr>env := e\<rparr>, bl', None)"
        "pending_map kv (d\<lparr>env := e\<rparr>) bl' = bl_map (entry_op (bl_s bl) x) (pending_map kv d bl)"
        "list_all bl_ok (bl_ops bl')" "bl_progress bl' = None"
      by blast
    have "kv e (key_bytes (KMeta t)) = kv (env d) (key_bytes (KMeta t))" for t
      using fun_cong [OF p(2), of "key_bytes (KMeta t)"] Cons.prems(3) p(3) entry_op_ok [OF x(1)]
      by (simp add: pending_map_def bl_contents_meta bl_map_meta)
    with Cons.IH [OF it(2) x(2) p(3,4), of "d\<lparr>env := e\<rparr>" "n + 1"] show ?thesis
      by (auto simp: baseline_loop.simps [of nxt L it] it None x entry_add_push p)
  qed
qed simp

lemma RunBaseline_ordered:
  assumes d: "genesisPlus1 d = 0" "\<not> baselineDone d" "kv (env d) MetaGenesis = None" "wf_rows (kv (env d))"
    and es: "delivers nxt it es" "in_order 0 [] es" and m: "blank (kv (env d))"
  shows "\<exists>d'. RunBaseline nxt L d S it = Some (d', None) \<and> db_ok kv S d' \<and> complete kv d'
    \<and> no_edge (kv (env d'))
    \<and> (\<forall>at. S \<le> at \<longrightarrow> world_at kc (kv (env d')) at = \<lparr>w_acct = map_of (entry_accounts es),
         w_slot = (\<lambda>a s. case map_of (entry_slots es) (a, s) of None \<Rightarrow> 0 | Some v \<Rightarrow> v)\<rparr>)"
proof -
  from NewBaseline_first [OF d, of S] obtain d1 where
    nb: "NewBaseline L d S = (d1, Inr \<lparr>bl_s = S, bl_ops = [], bl_progress = None\<rparr>)" and ok1: "db_ok kv S d1"
    and m1: "kv (env d1) = (kv (env d))(key_bytes (KMeta 1) \<mapsto> be_bytes 8 S)" by blast
  from ok1 have wf1: "wf_rows (kv (env d1))" by (simp add: db_ok_def)
  let ?bl = "\<lparr>bl_s = S, bl_ops = [], bl_progress = None\<rparr>" and ?m = "kv (env d1)"
  let ?c = "bl_contents (map (entry_op S) es) ?m"
  from run_entries [OF es, of ?bl d1 0] wf1 obtain e bl' where
    run: "baseline_loop nxt L it d1 ?bl 0 0 [] = (case Finish L (d1\<lparr>env := e\<rparr>) bl' of (d', _, err) \<Rightarrow> Some (d', err))"
    and pm: "pending_map kv (d1\<lparr>env := e\<rparr>) bl' = ?c" and bl': "list_all bl_ok (bl_ops bl')" and wfe: "wf_rows (kv e)"
    by (auto simp: pending_map_def)
  note kn = in_order_known [OF es(2)]
  have bm: "blank ?m" using m by (simp add: blank_def m1)
  have "queue_empty ?c" using bm by (simp add: queue_empty_def loaded_other [OF kn] blank_def)
  with Finish_kv [OF bl', of "d1\<lparr>env := e\<rparr>"] wfe pm obtain d' bl'' where
    fin: "Finish L (d1\<lparr>env := e\<rparr>) bl' = (d', bl'', None)" "kv (env d') = finished_map ?c" "baselineDone d'"
      "genesisPlus1 d' = genesisPlus1 d1"
    by auto
  have ops: "list_all bl_ok (map (entry_op S) es)" using kn by (auto simp: list_all_iff intro: entry_op_ok)
  have fm: "finished_map ?c (key_bytes r) = ?c (key_bytes r)" if "\<forall>t. r \<noteq> KMeta t" for r
    using that by (simp add: finished_map_def)
  have "wf_rows (finished_map ?c)"
    using bl_contents_wf [OF ops wf1] by (auto simp: finished_map_def intro!: wf_rows_upd wf_rows_del)
  then have "db_ok kv S d'" "complete kv d'"
    using ok1 fin by (auto simp: db_ok_def complete_def finished_map_def key_simps bl_contents_meta [OF ops])
  moreover have "no_edge (kv (env d'))"
    using bm by (simp add: no_edge_def fin(2) fm loaded_other [OF kn] blank_def)
  ultimately show ?thesis
    using loaded_world [OF bm es(2), of S _ "kv (env d')" kc] fm fin
    by (simp add: RunBaseline_def nb run)
qed

end

end
