(* ===== verification/Mem.thy ===== *)
theory Mem
  imports StoreHistory "HOL-Library.AList"
begin

text \<open>
  Package \<^verbatim>\<open>mem\<close> (\<^verbatim>\<open>src/mem/mem.go\<close>): the lazily pinned base map, the stack of unfinalized
  layers and the side buffers of the executors. The store handle is passed beside the state. A
  Go map that is only looked up is a partial function; the maps of a side buffer, which the
  write phase ranges over and counts, are association lists (\<open>drain_lookup\<close> shows that the order
  of the iteration does not matter).

  The specification is one world: \<open>tip_world\<close>, the unfinalized batches applied to what the store
  denotes. \<open>mem_inv\<close> is the invariant: every pinned value is one the store had at some point
  of the commits not yet finalized in memory. Under it every read returns the value of the tip
  world (\<open>mem_Account_tip\<close>, \<open>mem_Slot_tip\<close>), also while the store runs ahead of the base map.
\<close>

record mem_account =
  MBalance :: u256
  MNonce :: u64
  MCodeHash :: hash
  Exists :: bool
  Storage :: "hash \<rightharpoonup> hash"

definition fromSchema :: "account \<Rightarrow> mem_account" where
  "fromSchema a = \<lparr>MBalance = Balance a, MNonce = Nonce a, MCodeHash = CodeHash a, Exists = True,
     Storage = Map.empty\<rparr>"

definition ToSchema :: "mem_account \<Rightarrow> account" where
  "ToSchema a = \<lparr>Balance = MBalance a, Nonce = MNonce a, CodeHash = MCodeHash a\<rparr>"

record mem_map =
  accounts :: "address \<rightharpoonup> mem_account"
  code :: "hash \<rightharpoonup> bytes"

definition NewMap :: mem_map where
  "NewMap = \<lparr>accounts = Map.empty, code = Map.empty\<rparr>"

text \<open>The zero value of the struct, with a fresh storage map.\<close>

definition absent_account :: "(hash \<rightharpoonup> hash) \<Rightarrow> mem_account" where
  "absent_account st =
     \<lparr>MBalance = 0, MNonce = 0, MCodeHash = 0, Exists = False, Storage = st\<rparr>"

definition PinAccount ::
  "mem_map \<Rightarrow> address \<Rightarrow> account \<Rightarrow> bool \<Rightarrow> mem_map \<times> mem_account" where
  "PinAccount m addr acct ex =
     (case accounts m addr of
        Some a \<Rightarrow> (m, a)
      | None \<Rightarrow>
          (let a = (if ex then fromSchema acct else absent_account Map.empty)
           in (m\<lparr>accounts := (accounts m)(addr \<mapsto> a)\<rparr>, a)))"

definition PinSlot :: "mem_map \<Rightarrow> address \<Rightarrow> hash \<Rightarrow> hash \<Rightarrow> error + mem_map" where
  "PinSlot m addr slot val =
     (case accounts m addr of
        None \<Rightarrow> Inl (Panic ''mem: PinSlot before PinAccount'')
      | Some a \<Rightarrow>
          Inr (if Storage a slot = None
               then m\<lparr>accounts := (accounts m)(addr \<mapsto> a\<lparr>Storage := (Storage a)(slot \<mapsto> val)\<rparr>)\<rparr>
               else m))"

definition PinCode :: "mem_map \<Rightarrow> hash \<Rightarrow> bytes \<Rightarrow> mem_map" where
  "PinCode m h c = (if code m h = None then m\<lparr>code := (code m)(h \<mapsto> c)\<rparr> else m)"

fun Apply_op :: "op \<Rightarrow> mem_map \<Rightarrow> mem_map" where
  "Apply_op (OpAccount addr acc) m =
     (case accounts m addr of
        None \<Rightarrow> m
      | Some a \<Rightarrow> m\<lparr>accounts := (accounts m)(addr \<mapsto> (fromSchema acc)\<lparr>Storage := Storage a\<rparr>)\<rparr>)"
| "Apply_op (OpSlot addr slot v) m =
     (case accounts m addr of
        None \<Rightarrow> m
      | Some a \<Rightarrow>
          (if Storage a slot \<noteq> None
           then m\<lparr>accounts := (accounts m)(addr \<mapsto> a\<lparr>Storage := (Storage a)(slot \<mapsto> v)\<rparr>)\<rparr> else m))"
| "Apply_op (OpDeleteSlot addr slot) m =
     (case accounts m addr of
        None \<Rightarrow> m
      | Some a \<Rightarrow>
          (if Storage a slot \<noteq> None
           then m\<lparr>accounts := (accounts m)(addr \<mapsto> a\<lparr>Storage := (Storage a)(slot \<mapsto> 0)\<rparr>)\<rparr> else m))"
| "Apply_op (OpDestruct addr) m =
     (case accounts m addr of
        None \<Rightarrow> m
      | Some a \<Rightarrow>
          m\<lparr>accounts := (accounts m)(addr \<mapsto> absent_account (map_option (\<lambda>_. 0) \<circ> Storage a))\<rparr>)"
| "Apply_op (OpCode h c) m = m"
| "Apply_op (OpUnknown k) m = m"

definition Apply :: "mem_map \<Rightarrow> batch \<Rightarrow> mem_map" where
  "Apply m b = fold Apply_op (Ops b) m"

subsection \<open>Side buffers and layers\<close>

record side_buffer =
  sb_accounts :: "(address \<times> account \<times> bool) list"
  sb_slots :: "(skey \<times> hash) list"
  sb_code :: "(hash \<times> bytes) list"

definition NewSideBuffer :: side_buffer where
  "NewSideBuffer = \<lparr>sb_accounts = [], sb_slots = [], sb_code = []\<rparr>"

record layer =
  l_batch :: batch
  l_accounts :: "address \<rightharpoonup> account"
  l_slots :: "skey \<rightharpoonup> hash"
  l_destructed :: "address \<Rightarrow> bool"

fun layer_op :: "op \<Rightarrow> layer \<Rightarrow> layer" where
  "layer_op (OpAccount a acc) l = l\<lparr>l_accounts := (l_accounts l)(a \<mapsto> acc)\<rparr>"
| "layer_op (OpSlot a s v) l = l\<lparr>l_slots := (l_slots l)((a, s) \<mapsto> v)\<rparr>"
| "layer_op (OpDeleteSlot a s) l = l\<lparr>l_slots := (l_slots l)((a, s) \<mapsto> 0)\<rparr>"
| "layer_op (OpDestruct a) l =
     l\<lparr>l_destructed := (l_destructed l)(a := True),
       l_accounts := (l_accounts l)(a := None),
       l_slots := (\<lambda>k. if fst k = a then None else l_slots l k)\<rparr>"
| "layer_op (OpCode h c) l = l"
| "layer_op (OpUnknown k) l = l"

definition newLayer :: "batch \<Rightarrow> layer" where
  "newLayer b =
     fold layer_op (Ops b)
       \<lparr>l_batch = b, l_accounts = Map.empty, l_slots = Map.empty, l_destructed = (\<lambda>_. False)\<rparr>"

record mem_state =
  base :: mem_map
  layers :: "layer list"
  buffers :: "side_buffer list"
  finalized :: u64
  tip :: hash
  tipBlock :: u64
  tipTime :: u64
  pinsMerged :: u64

definition mem_New :: "'e lmdb_ops \<Rightarrow> 'e db \<Rightarrow> error + mem_state" where
  "mem_New L d =
     (case Finalized L d of
        Inl err \<Rightarrow> Inl err
      | Inr (h, ok) \<Rightarrow>
          Inr \<lparr>base = NewMap, layers = [], buffers = [], finalized = (if ok then h else 0),
               tip = 0, tipBlock = 0, tipTime = 0, pinsMerged = 0\<rparr>)"

definition Register :: "mem_state \<Rightarrow> side_buffer \<Rightarrow> mem_state" where
  "Register s sb = s\<lparr>buffers := buffers s @ [sb]\<rparr>"

definition TipInfo :: "mem_state \<Rightarrow> hash \<times> u64 \<times> u64" where
  "TipInfo s = (tip s, tipBlock s, tipTime s)"

subsection \<open>Read phase\<close>

text \<open>The loops of \<^verbatim>\<open>Account\<close> and \<^verbatim>\<open>Slot\<close> over the layers, newest first.\<close>

fun layers_account :: "layer list \<Rightarrow> address \<Rightarrow> (account \<times> bool) option" where
  "layers_account [] addr = None"
| "layers_account (l # ls) addr =
     (case l_accounts l addr of
        Some a \<Rightarrow> Some (a, True)
      | None \<Rightarrow> if l_destructed l addr then Some (zero_account, False) else layers_account ls addr)"

fun layers_slot :: "layer list \<Rightarrow> skey \<Rightarrow> hash option" where
  "layers_slot [] sk = None"
| "layers_slot (l # ls) sk =
     (case l_slots l sk of
        Some v \<Rightarrow> Some v
      | None \<Rightarrow> if l_destructed l (fst sk) then Some 0 else layers_slot ls sk)"

definition mem_Account ::
  "'e lmdb_ops \<Rightarrow> (bytes \<Rightarrow> hash) \<Rightarrow> 'e db \<Rightarrow> mem_state \<Rightarrow> address \<Rightarrow> side_buffer
     \<Rightarrow> 'e db \<times> side_buffer \<times> (error + account \<times> bool)" where
  "mem_Account L kc d s addr sb =
     (case layers_account (rev (layers s)) addr of
        Some r \<Rightarrow> (d, sb, Inr r)
      | None \<Rightarrow>
          (case accounts (base s) addr of
             Some a \<Rightarrow> (d, sb, Inr (ToSchema a, Exists a))
           | None \<Rightarrow>
               (case map_of (sb_accounts sb) addr of
                  Some e \<Rightarrow> (d, sb, Inr e)
                | None \<Rightarrow>
                    (case GetAccount L kc d addr Latest of
                       (d', Inl err) \<Rightarrow> (d', sb, Inl err)
                     | (d', Inr r) \<Rightarrow>
                         (d', sb\<lparr>sb_accounts := AList.update addr r (sb_accounts sb)\<rparr>, Inr r)))))"

definition mem_Slot ::
  "'e lmdb_ops \<Rightarrow> (bytes \<Rightarrow> hash) \<Rightarrow> 'e db \<Rightarrow> mem_state \<Rightarrow> address \<Rightarrow> hash \<Rightarrow> side_buffer
     \<Rightarrow> 'e db \<times> side_buffer \<times> (error + hash)" where
  "mem_Slot L kc d s addr slot sb =
     (case layers_slot (rev (layers s)) (addr, slot) of
        Some v \<Rightarrow> (d, sb, Inr v)
      | None \<Rightarrow>
          (let known = (case accounts (base s) addr of
                          None \<Rightarrow> None
                        | Some a \<Rightarrow> if \<not> Exists a then Some 0 else Storage a slot)
           in case known of
                Some v \<Rightarrow> (d, sb, Inr v)
              | None \<Rightarrow>
                  (case map_of (sb_slots sb) (addr, slot) of
                     Some v \<Rightarrow> (d, sb, Inr v)
                   | None \<Rightarrow>
                       (case GetSlot L kc d addr slot Latest of
                          (d1, Inl err) \<Rightarrow> (d1, sb, Inl err)
                        | (d1, Inr v) \<Rightarrow>
                            (let sb1 = sb\<lparr>sb_slots := AList.update (addr, slot) v (sb_slots sb)\<rparr>
                             in if accounts (base s) addr = None \<and> map_of (sb_accounts sb1) addr = None
                                then (case GetAccount L kc d1 addr Latest of
                                        (d2, Inl err) \<Rightarrow> (d2, sb1, Inl err)
                                      | (d2, Inr r) \<Rightarrow>
                                          (d2, sb1\<lparr>sb_accounts := AList.update addr r (sb_accounts sb1)\<rparr>,
                                           Inr v))
                                else (d1, sb1, Inr v))))))"

definition mem_Code ::
  "'e lmdb_ops \<Rightarrow> 'e db \<Rightarrow> mem_state \<Rightarrow> hash \<Rightarrow> side_buffer \<Rightarrow> side_buffer \<times> (error + bytes)" where
  "mem_Code L d s h sb =
     (case code (base s) h of
        Some c \<Rightarrow> (sb, Inr c)
      | None \<Rightarrow>
          (case map_of (sb_code sb) h of
             Some c \<Rightarrow> (sb, Inr c)
           | None \<Rightarrow>
               (case GetCode L d h of
                  Inl err \<Rightarrow> (sb, Inl err)
                | Inr c \<Rightarrow> (sb\<lparr>sb_code := AList.update h c (sb_code sb)\<rparr>, Inr c))))"

subsection \<open>Write phase\<close>

definition drain_account :: "address \<times> account \<times> bool \<Rightarrow> mem_map \<Rightarrow> mem_map" where
  "drain_account p m =
     (case p of (addr, acct, ex) \<Rightarrow>
        (if ex then fst (PinAccount m addr acct True)
         else fst (PinAccount m addr zero_account False)))"

definition drain_slot :: "skey \<times> hash \<Rightarrow> mem_map \<Rightarrow> mem_map" where
  "drain_slot p m =
     (case p of ((addr, slot), v) \<Rightarrow>
        (if accounts m addr \<noteq> None then projr (PinSlot m addr slot v) else m))"

definition drain_code :: "hash \<times> bytes \<Rightarrow> mem_map \<Rightarrow> mem_map" where
  "drain_code p m = PinCode m (fst p) (snd p)"

definition drain_buffer :: "side_buffer \<Rightarrow> mem_map \<Rightarrow> mem_map" where
  "drain_buffer sb m =
     fold drain_code (sb_code sb) (fold drain_slot (sb_slots sb) (fold drain_account (sb_accounts sb) m))"

definition buffer_len :: "side_buffer \<Rightarrow> u64" where
  "buffer_len sb = of_nat (length (sb_accounts sb) + length (sb_slots sb) + length (sb_code sb))"

definition lockAndDrain :: "mem_state \<Rightarrow> mem_state" where
  "lockAndDrain s =
     s\<lparr>base := fold drain_buffer (buffers s) (base s),
       pinsMerged := pinsMerged s + sum_list (map buffer_len (buffers s)),
       buffers := map (\<lambda>_. NewSideBuffer) (buffers s)\<rparr>"

definition push_layer :: "batch \<Rightarrow> mem_state \<Rightarrow> mem_state" where
  "push_layer b s =
     s\<lparr>layers := layers s @ [newLayer b], tip := Hash b, tipBlock := Block b,
       tipTime := Time b div 1000\<rparr>"

definition ApplyBlock :: "mem_state \<Rightarrow> batch \<Rightarrow> mem_state" where
  "ApplyBlock s b = push_layer b (lockAndDrain s)"

definition mem_Finalize :: "mem_state \<Rightarrow> u64 \<Rightarrow> hash \<Rightarrow> mem_state \<times> error option" where
  "mem_Finalize s block hash =
     (let s1 = lockAndDrain s
      in case layers s1 of
           [] \<Rightarrow> (s1, Some (ErrFinalize block))
         | l # ls \<Rightarrow>
             (if Block (l_batch l) \<noteq> block then (s1, Some (ErrFinalize block))
              else if Hash (l_batch l) \<noteq> hash then (s1, Some (ErrHashMismatch block))
              else (s1\<lparr>base := Apply (base s1) (l_batch l), layers := ls, finalized := block,
                       tip := (if ls = [] then hash else tip s1)\<rparr>, None)))"

definition mem_PreferenceReset :: "mem_state \<Rightarrow> batch list \<Rightarrow> mem_state" where
  "mem_PreferenceReset s preferred =
     fold push_layer preferred ((lockAndDrain s)\<lparr>layers := []\<rparr>)"

subsection \<open>A layer is the effect of its batch\<close>

definition layer_acct :: "layer \<Rightarrow> address \<Rightarrow> account option option" where
  "layer_acct l a =
     (case l_accounts l a of
        Some acc \<Rightarrow> Some (Some acc) | None \<Rightarrow> if l_destructed l a then Some None else None)"

definition layer_slot :: "layer \<Rightarrow> address \<Rightarrow> hash \<Rightarrow> hash option" where
  "layer_slot l a s =
     (case l_slots l (a, s) of
        Some v \<Rightarrow> Some v | None \<Rightarrow> if l_destructed l a then Some 0 else None)"

lemma layer_op_views:
  "layer_acct (layer_op op l) a = (case acct_eff op a of None \<Rightarrow> layer_acct l a | Some r \<Rightarrow> Some r)"
  "layer_slot (layer_op op l) a s = (case slot_eff op a s of None \<Rightarrow> layer_slot l a s | Some r \<Rightarrow> Some r)"
  "l_batch (layer_op op l) = l_batch l"
  by (cases op; simp add: layer_acct_def layer_slot_def)+

lemma fold_layer_views:
  "layer_acct (fold layer_op ops l) a =
     (case acct_effect ops a of None \<Rightarrow> layer_acct l a | Some r \<Rightarrow> Some r)"
  "layer_slot (fold layer_op ops l) a s =
     (case slot_effect ops a s of None \<Rightarrow> layer_slot l a s | Some r \<Rightarrow> Some r)"
  "l_batch (fold layer_op ops l) = l_batch l"
  by (induction ops arbitrary: l) (auto simp: layer_op_views split: option.splits)

lemma newLayer_views [simp]:
  "layer_acct (newLayer b) a = acct_effect (Ops b) a"
  "layer_slot (newLayer b) a s = slot_effect (Ops b) a s"
  "l_batch (newLayer b) = b"
  unfolding newLayer_def fold_layer_views
  by (auto simp: layer_acct_def layer_slot_def split: option.splits)

lemma layers_lookup:
  "layers_account (rev (map newLayer bs)) a = map_option acct_res (acct_effect (chain_ops bs) a)"
  "layers_slot (rev (map newLayer bs)) (a, s) = slot_effect (chain_ops bs) a s"
proof (induction bs rule: rev_induct)
  case (snoc b bs)
  {
    case 1
    with snoc show ?case
      by (simp add: acct_effect_append layer_acct_def flip: newLayer_views(1) split: option.split)
  next
    case 2
    with snoc show ?case
      by (simp add: slot_effect_append layer_slot_def flip: newLayer_views(2) split: option.split)
  }
qed simp_all

subsection \<open>Applying a batch to the base map\<close>

definition entry_res :: "mem_account \<Rightarrow> account \<times> bool" where
  "entry_res e = (ToSchema e, Exists e)"

lemma entry_res_simps [simp]:
  "entry_res ((fromSchema acc)\<lparr>Storage := st\<rparr>) = acct_res (Some acc)"
  "entry_res (fromSchema acc) = acct_res (Some acc)"
  "entry_res (absent_account st) = acct_res None"
  "entry_res (e\<lparr>Storage := st\<rparr>) = entry_res e"
  by (simp_all add: entry_res_def ToSchema_def fromSchema_def absent_account_def zero_account_def)

lemma entry_storage_simps [simp]:
  "Storage (fromSchema acc) = Map.empty" "Storage (absent_account st) = st"
  by (simp_all add: fromSchema_def absent_account_def)

text \<open>What one operation does to the entry of one address.\<close>

fun Apply_entry :: "address \<Rightarrow> op \<Rightarrow> mem_account \<Rightarrow> mem_account" where
  "Apply_entry a (OpAccount x acc) e = (if x = a then (fromSchema acc)\<lparr>Storage := Storage e\<rparr> else e)"
| "Apply_entry a (OpSlot x s v) e =
     (if x = a \<and> Storage e s \<noteq> None then e\<lparr>Storage := (Storage e)(s \<mapsto> v)\<rparr> else e)"
| "Apply_entry a (OpDeleteSlot x s) e =
     (if x = a \<and> Storage e s \<noteq> None then e\<lparr>Storage := (Storage e)(s \<mapsto> 0)\<rparr> else e)"
| "Apply_entry a (OpDestruct x) e =
     (if x = a then absent_account (map_option (\<lambda>_. 0) \<circ> Storage e) else e)"
| "Apply_entry a _ e = e"

lemma Apply_op_entry:
  "accounts (Apply_op op m) a = map_option (Apply_entry a op) (accounts m a)"
  "code (Apply_op op m) = code m"
  by (cases op; cases "accounts m a"; auto split: option.splits)+

lemma Apply_entries:
  "accounts (Apply m b) a = map_option (fold (Apply_entry a) (Ops b)) (accounts m a)"
  "code (Apply m b) = code m"
proof -
  have "accounts (fold Apply_op ops m) a = map_option (fold (Apply_entry a) ops) (accounts m a)
      \<and> code (fold Apply_op ops m) = code m" for ops
    by (induction ops arbitrary: m) (simp_all add: Apply_op_entry option.map_comp comp_def option.map_id)
  then show "accounts (Apply m b) a = map_option (fold (Apply_entry a) (Ops b)) (accounts m a)"
    "code (Apply m b) = code m"
    by (simp_all add: Apply_def)
qed

lemma Apply_entry_views:
  "entry_res (Apply_entry a op e) = (case acct_eff op a of None \<Rightarrow> entry_res e | Some r \<Rightarrow> acct_res r)"
  "Storage (Apply_entry a op e) s =
     map_option (\<lambda>v. case slot_eff op a s of None \<Rightarrow> v | Some r \<Rightarrow> r) (Storage e s)"
  by (cases op; cases "Storage e s"; auto simp: option.map_ident)+

lemma fold_entry_views:
  "entry_res (fold (Apply_entry a) ops e) =
     (case acct_effect ops a of None \<Rightarrow> entry_res e | Some r \<Rightarrow> acct_res r)"
  "Storage (fold (Apply_entry a) ops e) s =
     map_option (\<lambda>v. case slot_effect ops a s of None \<Rightarrow> v | Some r \<Rightarrow> r) (Storage e s)"
proof (induction ops arbitrary: e)
  case (Cons op ops)
  {
    case 1
    show ?case using Cons(1) [of "Apply_entry a op e"]
      by (auto simp: Apply_entry_views split: option.splits)
  next
    case 2
    show ?case using Cons(2) [of "Apply_entry a op e"]
      by (cases "Storage e s") (auto simp: Apply_entry_views split: option.splits)
  }
qed (simp_all add: option.map_ident)

subsection \<open>Draining the side buffers\<close>

definition pin_entry :: "account \<times> bool \<Rightarrow> mem_account" where
  "pin_entry r = (if snd r then fromSchema (fst r) else absent_account Map.empty)"

definition pin_slots :: "(skey \<times> hash) list \<Rightarrow> address \<Rightarrow> mem_account \<Rightarrow> mem_account" where
  "pin_slots l a e = e\<lparr>Storage := (\<lambda>s. map_of l (a, s)) ++ Storage e\<rparr>"

lemma drain_accounts_lookup:
  "accounts (fold drain_account l m) a =
     (case accounts m a of Some e \<Rightarrow> Some e | None \<Rightarrow> map_option pin_entry (map_of l a))"
  "code (fold drain_account l m) = code m"
  by (induction l arbitrary: m)
    (auto simp: drain_account_def PinAccount_def pin_entry_def Let_def split: option.splits)

lemma drain_slot_entry:
  "accounts (drain_slot p m) a = map_option (pin_slots [p] a) (accounts m a)"
  "code (drain_slot p m) = code m"
proof -
  obtain x y v where p: "p = ((x, y), v)" by (metis prod.collapse)
  show "accounts (drain_slot p m) a = map_option (pin_slots [p] a) (accounts m a)"
    by (cases "accounts m a")
      (auto simp: p drain_slot_def PinSlot_def pin_slots_def map_add_def fun_eq_iff
        intro!: mem_account.equality split: option.splits)
  show "code (drain_slot p m) = code m"
    by (auto simp: p drain_slot_def PinSlot_def split: option.splits)
qed

lemma pin_slots_simps:
  "pin_slots [] a = id" "pin_slots l a (pin_slots [p] a e) = pin_slots (p # l) a e"
  by (cases p; auto simp: pin_slots_def map_add_def fun_eq_iff split: option.splits)+

lemma drain_slots_lookup:
  "accounts (fold drain_slot l m) a = map_option (pin_slots l a) (accounts m a)"
  "code (fold drain_slot l m) = code m"
  by (induction l arbitrary: m)
    (simp_all add: drain_slot_entry option.map_comp comp_def pin_slots_simps option.map_id)

lemma drain_codes_lookup:
  "accounts (fold drain_code l m) = accounts m"
  "code (fold drain_code l m) h = (case code m h of Some c \<Rightarrow> Some c | None \<Rightarrow> map_of l h)"
  by (induction l arbitrary: m) (auto simp: drain_code_def PinCode_def split: option.splits)

text \<open>
  The merged map depends on the contents of the buffer only, not on the order in which Go's
  \<^verbatim>\<open>range\<close> visits them; what the base map already knows wins.
\<close>

lemma drain_lookup:
  "accounts (drain_buffer sb m) a =
     map_option (pin_slots (sb_slots sb) a)
       (case accounts m a of Some e \<Rightarrow> Some e | None \<Rightarrow> map_option pin_entry (map_of (sb_accounts sb) a))"
  "code (drain_buffer sb m) h = (case code m h of Some c \<Rightarrow> Some c | None \<Rightarrow> map_of (sb_code sb) h)"
  by (simp_all add: drain_buffer_def drain_accounts_lookup drain_slots_lookup drain_codes_lookup)

subsection \<open>Every pin is a value of some committed world\<close>

definition acct_pin :: "world list \<Rightarrow> address \<Rightarrow> account \<times> bool \<Rightarrow> bool" where
  "acct_pin ws a r \<longleftrightarrow> (\<exists>w \<in> set ws. r = acct_res (w_acct w a))"

definition slot_pin :: "world list \<Rightarrow> address \<Rightarrow> hash \<Rightarrow> hash \<Rightarrow> bool" where
  "slot_pin ws a s v \<longleftrightarrow> (\<exists>w \<in> set ws. v = w_slot w a s)"

definition map_ok :: "world list \<Rightarrow> mem_map \<Rightarrow> bool" where
  "map_ok ws m \<longleftrightarrow>
     (\<forall>a e. accounts m a = Some e \<longrightarrow>
        acct_pin ws a (entry_res e) \<and> (\<forall>s v. Storage e s = Some v \<longrightarrow> slot_pin ws a s v))"

definition sb_ok :: "world list \<Rightarrow> side_buffer \<Rightarrow> bool" where
  "sb_ok ws sb \<longleftrightarrow>
     (\<forall>a r. map_of (sb_accounts sb) a = Some r \<longrightarrow> acct_pin ws a r)
     \<and> (\<forall>a s v. map_of (sb_slots sb) (a, s) = Some v \<longrightarrow> slot_pin ws a s v)"

lemma last_pins:
  "acct_pin (worlds bs w) a (acct_res (w_acct (apply_chain bs w) a))"
  "slot_pin (worlds bs w) a s (w_slot (apply_chain bs w) a s)"
  unfolding acct_pin_def slot_pin_def using worlds_ends(2) [of bs w] by blast+

lemma acct_pin_entry: "acct_pin ws a r \<Longrightarrow> acct_pin ws a (entry_res (pin_entry r))"
  by (auto simp: acct_pin_def pin_entry_def acct_res_def split: option.splits)

lemma entry_res_pin_slots [simp]: "entry_res (pin_slots l a e) = entry_res e"
  by (simp add: pin_slots_def)

lemma Storage_pin_slots: "Storage (pin_slots l a e) s = (case Storage e s of Some v \<Rightarrow> Some v | None \<Rightarrow> map_of l (a, s))"
  by (simp add: pin_slots_def map_add_def)

lemma Storage_pin_entry [simp]: "Storage (pin_entry r) = Map.empty"
  by (simp add: pin_entry_def)

lemma map_ok_drain:
  assumes "map_ok ws m" and "sb_ok ws sb"
  shows "map_ok ws (drain_buffer sb m)"
  using assms
  by (auto simp: map_ok_def sb_ok_def drain_lookup Storage_pin_slots acct_pin_entry split: option.splits)

lemma sb_ok_New [simp]: "sb_ok ws NewSideBuffer"
  by (simp add: sb_ok_def NewSideBuffer_def)

lemma map_ok_New [simp]: "map_ok ws NewMap"
  by (simp add: map_ok_def NewMap_def)

lemma map_ok_drains: "map_ok ws m \<Longrightarrow> list_all (sb_ok ws) sbs \<Longrightarrow> map_ok ws (fold drain_buffer sbs m)"
  by (induction sbs arbitrary: m) (simp_all add: map_ok_drain)

lemma pins_mono:
  assumes "set ws \<subseteq> set vs"
  shows "map_ok ws m \<Longrightarrow> map_ok vs m" "sb_ok ws sb \<Longrightarrow> sb_ok vs sb"
  using assms unfolding map_ok_def sb_ok_def acct_pin_def slot_pin_def by blast+

lemma map_ok_Apply:
  assumes "map_ok (worlds (b # bs) w) m"
  shows "map_ok (worlds bs (apply_batch b w)) (Apply m b)"
proof -
  let ?ws = "worlds (b # bs) w" and ?vs = "worlds bs (apply_batch b w)"
  have first: "apply_batch b w \<in> set ?vs" by (rule worlds_ends)
  have a: "acct_pin ?vs a (case acct_effect (Ops b) a of None \<Rightarrow> r | Some q \<Rightarrow> acct_res q)"
    if "acct_pin ?ws a r" for a r
  proof (cases "acct_effect (Ops b) a")
    case None
    then have "w_acct w a = w_acct (apply_batch b w) a" by (simp add: apply_batch_def world_effects)
    with that first None show ?thesis unfolding acct_pin_def by (metis option.simps(4) set_ConsD worlds.simps(2))
  next
    case (Some q)
    then have "q = w_acct (apply_batch b w) a" by (simp add: apply_batch_def world_effects)
    with first Some show ?thesis unfolding acct_pin_def by (metis option.simps(5))
  qed
  have s: "slot_pin ?vs a s (case slot_effect (Ops b) a s of None \<Rightarrow> v | Some q \<Rightarrow> q)"
    if "slot_pin ?ws a s v" for a s v
  proof (cases "slot_effect (Ops b) a s")
    case None
    then have "w_slot w a s = w_slot (apply_batch b w) a s" by (simp add: apply_batch_def world_effects)
    with that first None show ?thesis unfolding slot_pin_def by (metis option.simps(4) set_ConsD worlds.simps(2))
  next
    case (Some q)
    then have "q = w_slot (apply_batch b w) a s" by (simp add: apply_batch_def world_effects)
    with first Some show ?thesis unfolding slot_pin_def by (metis option.simps(5))
  qed
  have "acct_pin ?vs a (case acct_effect (Ops b) a of None \<Rightarrow> entry_res e | Some q \<Rightarrow> acct_res q)"
    if "acct_pin ?ws a (entry_res e)" for a e
    using a that .
  with assms s show ?thesis
    by (auto simp: map_ok_def Apply_entries fold_entry_views)
qed

subsection \<open>The invariant\<close>

text \<open>
  \<open>serving\<close>: the store answers every read. \<open>pend\<close> are the blocks committed to the store and not
  yet finalized in memory, the oldest layers; \<open>w0\<close> is the world before them. Commits come
  before finalization in memory, so the store is never behind.
\<close>

definition db_world :: "(bytes \<Rightarrow> hash) \<Rightarrow> ('e \<Rightarrow> bytes \<rightharpoonup> bytes) \<Rightarrow> 'e db \<Rightarrow> world" where
  "db_world kc kv d = world_at kc (kv (env d)) Latest"

lemma db_world_cong: "env d = env d' \<Longrightarrow> db_world kc kv d = db_world kc kv d'"
  by (simp add: db_world_def)

definition tip_world ::
  "(bytes \<Rightarrow> hash) \<Rightarrow> ('e \<Rightarrow> bytes \<rightharpoonup> bytes) \<Rightarrow> 'e db \<Rightarrow> mem_state \<Rightarrow> world" where
  "tip_world kc kv d s = apply_chain (map l_batch (layers s)) (db_world kc kv d)"

definition mem_inv ::
  "(bytes \<Rightarrow> hash) \<Rightarrow> ('e \<Rightarrow> bytes \<rightharpoonup> bytes) \<Rightarrow> 'e db \<Rightarrow> mem_state \<Rightarrow> batch list \<Rightarrow> world \<Rightarrow> bool" where
  "mem_inv kc kv d s pend w0 \<longleftrightarrow>
     (\<exists>rest. layers s = map newLayer (pend @ rest))
     \<and> db_world kc kv d = apply_chain pend w0
     \<and> list_all no_orphans (worlds pend w0)
     \<and> map_ok (worlds pend w0) (base s)
     \<and> list_all (sb_ok (worlds pend w0)) (buffers s)"

lemma Latest_max [simp]: "S \<le> Latest"
  by (simp add: Latest_def)

lemma pin_untouched:
  assumes "layers_account (rev (map newLayer (pend @ rest))) a = None" and "acct_pin (worlds pend w0) a r"
  shows "r = acct_res (w_acct (apply_chain (pend @ rest) (apply_chain pend w0)) a)"
proof -
  from assms(1) have "acct_effect (chain_ops (pend @ rest)) a = None" by (simp only: layers_lookup) simp
  then have e: "acct_effect (chain_ops pend) a = None" "acct_effect (chain_ops rest) a = None"
    by (auto simp: acct_effect_append split: option.splits)
  from assms(2) obtain w where "w \<in> set (worlds pend w0)" "r = acct_res (w_acct w a)"
    by (auto simp: acct_pin_def)
  with worlds_untouched(1) [OF _ e(1)] e show ?thesis
    by (simp add: apply_chain_ops world_effects)
qed

lemma slot_pin_untouched:
  assumes "layers_slot (rev (map newLayer (pend @ rest))) (a, s) = None" and "slot_pin (worlds pend w0) a s v"
  shows "v = w_slot (apply_chain (pend @ rest) (apply_chain pend w0)) a s"
proof -
  from assms(1) have "slot_effect (chain_ops (pend @ rest)) a s = None" by (simp only: layers_lookup)
  then have e: "slot_effect (chain_ops pend) a s = None" "slot_effect (chain_ops rest) a s = None"
    by (auto simp: slot_effect_append split: option.splits)
  from assms(2) obtain w where "w \<in> set (worlds pend w0)" "v = w_slot w a s"
    by (auto simp: slot_pin_def)
  with worlds_untouched(2) [OF _ e(1)] e show ?thesis
    by (simp add: apply_chain_ops world_effects)
qed

text \<open>An account known not to exist has no storage in the world it was read from.\<close>

lemma absent_slot_pin:
  assumes "list_all no_orphans (worlds pend w0)" and "acct_pin (worlds pend w0) a (x, False)"
  shows "slot_pin (worlds pend w0) a s 0"
proof -
  from assms(2) obtain w where w: "w \<in> set (worlds pend w0)" "w_acct w a = None"
    by (auto simp: acct_pin_def acct_res_def split: option.splits)
  with assms(1) have "w_slot w a s = 0" by (auto simp: list_all_iff intro: no_orphansD)
  with w(1) show ?thesis by (force simp: slot_pin_def)
qed

lemma sb_ok_update:
  "sb_ok ws sb \<Longrightarrow> acct_pin ws a r \<Longrightarrow> sb_ok ws (sb\<lparr>sb_accounts := AList.update a r (sb_accounts sb)\<rparr>)"
  "sb_ok ws sb \<Longrightarrow> slot_pin ws a s v \<Longrightarrow> sb_ok ws (sb\<lparr>sb_slots := AList.update (a, s) v (sb_slots sb)\<rparr>)"
  by (auto simp: sb_ok_def update_conv')

subsection \<open>The write phase keeps the invariant\<close>

lemma lockAndDrain_fields [simp]:
  "layers (lockAndDrain s) = layers s" "tip (lockAndDrain s) = tip s"
  "finalized (lockAndDrain s) = finalized s" "tipBlock (lockAndDrain s) = tipBlock s"
  "buffers (lockAndDrain s) = map (\<lambda>_. NewSideBuffer) (buffers s)"
  by (simp_all add: lockAndDrain_def)

lemma mem_inv_drain: "mem_inv kc kv d s pend w0 \<Longrightarrow> mem_inv kc kv d (lockAndDrain s) pend w0"
  by (auto simp: mem_inv_def map_ok_drains lockAndDrain_def list_all_iff)

lemma mem_inv_push: "mem_inv kc kv d s pend w0 \<Longrightarrow> mem_inv kc kv d (push_layer b s) pend w0"
  by (auto simp: mem_inv_def push_layer_def) (metis append.assoc list.simps(8,9) map_append)

lemma mem_inv_Register: "mem_inv kc kv d s pend w0 \<Longrightarrow> mem_inv kc kv d (Register s NewSideBuffer) pend w0"
  by (simp add: mem_inv_def Register_def)

lemma mem_inv_ApplyBlock:
  assumes "mem_inv kc kv d s pend w0"
  shows "mem_inv kc kv d (ApplyBlock s b) pend w0"
    and "tip_world kc kv d (ApplyBlock s b) = apply_batch b (tip_world kc kv d s)"
proof -
  show "mem_inv kc kv d (ApplyBlock s b) pend w0"
    unfolding ApplyBlock_def by (intro mem_inv_push mem_inv_drain assms)
  show "tip_world kc kv d (ApplyBlock s b) = apply_batch b (tip_world kc kv d s)"
    by (simp add: tip_world_def ApplyBlock_def push_layer_def)
qed

lemma fold_push_layers: "layers (fold push_layer bs s) = layers s @ map newLayer bs"
  by (induction bs arbitrary: s) (simp_all add: push_layer_def)

lemma fold_push_fields:
  "base (fold push_layer bs s) = base s" "buffers (fold push_layer bs s) = buffers s"
  by (induction bs arbitrary: s) (simp_all add: push_layer_def)

lemma mem_inv_Reset:
  assumes "mem_inv kc kv d s pend w0" and "bs = pend @ rest"
  shows "mem_inv kc kv d (mem_PreferenceReset s bs) pend w0"
    and "tip_world kc kv d (mem_PreferenceReset s bs) = apply_chain bs (db_world kc kv d)"
proof -
  from mem_inv_drain [OF assms(1)] assms(2) show "mem_inv kc kv d (mem_PreferenceReset s bs) pend w0"
    by (auto simp: mem_inv_def mem_PreferenceReset_def fold_push_layers fold_push_fields)
  show "tip_world kc kv d (mem_PreferenceReset s bs) = apply_chain bs (db_world kc kv d)"
    by (simp add: tip_world_def mem_PreferenceReset_def fold_push_layers comp_def)
qed

lemma mem_inv_Finalize:
  assumes "mem_inv kc kv d s (b # pend) w0"
  shows "\<exists>s'. mem_Finalize s (Block b) (Hash b) = (s', None)
    \<and> mem_inv kc kv d s' pend (apply_batch b w0)
    \<and> tip_world kc kv d s' = tip_world kc kv d s \<and> finalized s' = Block b"
proof -
  from mem_inv_drain [OF assms] obtain rest where
    ls: "layers s = newLayer b # map newLayer (pend @ rest)"
    and db: "db_world kc kv d = apply_chain (b # pend) w0"
    and ok: "list_all no_orphans (worlds pend (apply_batch b w0))"
      "map_ok (worlds (b # pend) w0) (base (lockAndDrain s))"
    by (auto simp: mem_inv_def)
  have "tip_world kc kv d s = apply_chain (pend @ rest) (db_world kc kv d)"
    using apply_chain_absorb [of "pend @ rest" pend rest b w0]
    by (simp add: tip_world_def ls db comp_def)
  with ls db ok map_ok_Apply [OF ok(2)] show ?thesis
    by (auto simp: mem_Finalize_def Let_def mem_inv_def tip_world_def comp_def list_all_iff)
qed

lemma mem_Finalize_error:
  assumes "snd (mem_Finalize s block h) \<noteq> None"
  shows "fst (mem_Finalize s block h) = lockAndDrain s"
  using assms by (auto simp: mem_Finalize_def Let_def split: list.splits if_splits)

lemma mem_inv_commit:
  assumes inv: "mem_inv kc kv d s pend w0" and ls: "layers s = map newLayer (pend @ b # rest)"
    and db: "db_world kc kv d' = apply_batch b (db_world kc kv d)"
    and orph: "no_orphans (db_world kc kv d')"
  shows "mem_inv kc kv d' s (pend @ [b]) w0" and "tip_world kc kv d' s = tip_world kc kv d s"
proof -
  have "set (worlds pend w0) \<subseteq> set (worlds (pend @ [b]) w0)" by (auto simp: worlds_snoc)
  from pins_mono [OF this] inv ls db orph show "mem_inv kc kv d' s (pend @ [b]) w0"
    by (auto simp: mem_inv_def worlds_snoc list_all_iff)
  from inv have "db_world kc kv d = apply_chain pend w0" by (simp add: mem_inv_def)
  then show "tip_world kc kv d' s = tip_world kc kv d s"
    using apply_chain_written [of pend b rest w0] by (simp add: tip_world_def ls db comp_def)
qed

context healthy_lmdb
begin

lemma GetAccount_serving:
  assumes "serving kv S d"
  shows "\<exists>d'. GetAccount L kc d a Latest = (d', Inr (acct_res (w_acct (db_world kc kv d) a)))
    \<and> env d' = env d \<and> serving kv S d'"
  using serving_GetAccount [OF assms, of Latest kc a] by (simp add: db_world_def)

lemma GetSlot_serving:
  assumes "serving kv S d"
  shows "\<exists>d'. GetSlot L kc d a s Latest = (d', Inr (w_slot (db_world kc kv d) a s))
    \<and> env d' = env d \<and> serving kv S d'"
  using serving_GetSlot [OF assms, of Latest kc a s] by (simp add: db_world_def)

lemma mem_Account_tip:
  assumes sv: "serving kv S d" and inv: "mem_inv kc kv d s pend w0" and sb: "sb_ok (worlds pend w0) sb"
  shows "\<exists>d' sb'. mem_Account L kc d s a sb = (d', sb', Inr (acct_res (w_acct (tip_world kc kv d s) a)))
    \<and> env d' = env d \<and> serving kv S d' \<and> sb_ok (worlds pend w0) sb'"
proof -
  from inv obtain rest where ls: "layers s = map newLayer (pend @ rest)"
    and db: "db_world kc kv d = apply_chain pend w0" and m: "map_ok (worlds pend w0) (base s)"
    by (auto simp: mem_inv_def)
  have tip: "tip_world kc kv d s = apply_chain (pend @ rest) (apply_chain pend w0)"
    by (simp add: tip_world_def ls db comp_def)
  show ?thesis
  proof (cases "layers_account (rev (layers s)) a")
    case (Some r)
    then obtain q where "acct_effect (chain_ops (pend @ rest)) a = Some q" "r = acct_res q"
      unfolding ls layers_lookup by auto
    then have "r = acct_res (w_acct (tip_world kc kv d s) a)"
      unfolding tip apply_chain_ops world_effects by simp
    with Some sv sb show ?thesis by (auto simp: mem_Account_def)
  next
    case None
    note pin = pin_untouched [OF None [unfolded ls], of w0, folded tip]
    obtain d' where g: "GetAccount L kc d a Latest = (d', Inr (acct_res (w_acct (apply_chain pend w0) a)))"
      and d': "env d' = env d" "serving kv S d'"
      using GetAccount_serving [OF sv, of kc a] db by auto
    have gp: "acct_pin (worlds pend w0) a (acct_res (w_acct (apply_chain pend w0) a))"
      by (rule last_pins)
    have known: "(ToSchema e, Exists e) = acct_res (w_acct (tip_world kc kv d s) a)"
      if "accounts (base s) a = Some e" for e
      using m that by (intro pin) (auto simp: map_ok_def entry_res_def)
    have buf: "r = acct_res (w_acct (tip_world kc kv d s) a)" if "map_of (sb_accounts sb) a = Some r" for r
      using sb that unfolding sb_ok_def by (intro pin) blast
    show ?thesis
    proof (cases "accounts (base s) a")
      case (Some e)
      with None sv sb known [OF Some] show ?thesis by (simp add: mem_Account_def)
    next
      case base: None
      show ?thesis
      proof (cases "map_of (sb_accounts sb) a")
        case (Some r)
        with base \<open>layers_account _ _ = None\<close> sv sb buf [OF Some] show ?thesis
          by (simp add: mem_Account_def)
      next
        case None
        with base \<open>layers_account _ _ = None\<close> d' sb_ok_update(1) [OF sb gp] show ?thesis
          by (simp add: mem_Account_def g pin [OF gp, symmetric])
      qed
    qed
  qed
qed

lemma mem_Slot_miss:
  assumes sv: "serving kv S d" and sb: "sb_ok (worlds pend w0) sb"
    and db: "db_world kc kv d = apply_chain pend w0"
    and l: "layers_slot (rev (layers s)) (a, k) = None"
    and b: "case accounts (base s) a of None \<Rightarrow> True | Some e \<Rightarrow> Exists e \<and> Storage e k = None"
    and q: "map_of (sb_slots sb) (a, k) = None"
  shows "\<exists>d' sb'. mem_Slot L kc d s a k sb = (d', sb', Inr (w_slot (apply_chain pend w0) a k))
    \<and> env d' = env d \<and> serving kv S d' \<and> sb_ok (worlds pend w0) sb'"
proof -
  let ?v = "w_slot (apply_chain pend w0) a k" and ?r = "acct_res (w_acct (apply_chain pend w0) a)"
  let ?sb = "sb\<lparr>sb_slots := AList.update (a, k) ?v (sb_slots sb)\<rparr>"
  obtain d1 where g: "GetSlot L kc d a k Latest = (d1, Inr ?v)"
    and d1: "env d1 = env d" "serving kv S d1"
    using GetSlot_serving [OF sv, of kc a k] db by auto
  obtain d2 where g2: "GetAccount L kc d1 a Latest = (d2, Inr ?r)"
    and d2: "env d2 = env d" "serving kv S d2"
    using GetAccount_serving [OF d1(2), of kc a] db d1(1) db_world_cong [of d1 d kc kv] by auto
  have pins: "slot_pin (worlds pend w0) a k ?v" "acct_pin (worlds pend w0) a ?r"
    by (rule last_pins)+
  have ok: "sb_ok (worlds pend w0) ?sb" using sb pins(1) by (rule sb_ok_update)
  note ok2 = sb_ok_update(1) [OF ok pins(2)]
  have "mem_Slot L kc d s a k sb =
      (if accounts (base s) a = None \<and> map_of (sb_accounts sb) a = None
       then (d2, ?sb\<lparr>sb_accounts := AList.update a ?r (sb_accounts ?sb)\<rparr>, Inr ?v) else (d1, ?sb, Inr ?v))"
    using b by (auto simp: mem_Slot_def l q g g2 split: option.splits)
  with d1 d2 ok ok2 show ?thesis by simp
qed

lemma mem_Slot_tip:
  assumes sv: "serving kv S d" and inv: "mem_inv kc kv d s pend w0" and sb: "sb_ok (worlds pend w0) sb"
  shows "\<exists>d' sb'. mem_Slot L kc d s a k sb = (d', sb', Inr (w_slot (tip_world kc kv d s) a k))
    \<and> env d' = env d \<and> serving kv S d' \<and> sb_ok (worlds pend w0) sb'"
proof -
  from inv obtain rest where ls: "layers s = map newLayer (pend @ rest)"
    and db: "db_world kc kv d = apply_chain pend w0" and m: "map_ok (worlds pend w0) (base s)"
    and orph: "list_all no_orphans (worlds pend w0)"
    by (auto simp: mem_inv_def)
  have tip: "tip_world kc kv d s = apply_chain (pend @ rest) (apply_chain pend w0)"
    by (simp add: tip_world_def ls db comp_def)
  show ?thesis
  proof (cases "layers_slot (rev (layers s)) (a, k)")
    case (Some v)
    then have "v = w_slot (tip_world kc kv d s) a k"
      unfolding ls layers_lookup tip apply_chain_ops world_effects by simp
    with Some sv sb show ?thesis by (auto simp: mem_Slot_def)
  next
    case None
    note pin = slot_pin_untouched [OF None [unfolded ls], of w0, folded tip]
    have gone_val: "0 = w_slot (tip_world kc kv d s) a k" if "accounts (base s) a = Some e" "\<not> Exists e" for e
    proof (rule pin, rule absent_slot_pin [OF orph])
      from m that(1) have "acct_pin (worlds pend w0) a (entry_res e)" by (simp add: map_ok_def)
      with that(2) show "acct_pin (worlds pend w0) a (ToSchema e, False)" by (simp add: entry_res_def)
    qed
    have known_val: "v = w_slot (tip_world kc kv d s) a k"
      if "accounts (base s) a = Some e" "Storage e k = Some v" for e v
      using m that unfolding map_ok_def by (intro pin) blast
    have buf: "v = w_slot (tip_world kc kv d s) a k" if "map_of (sb_slots sb) (a, k) = Some v" for v
      using sb that unfolding sb_ok_def by (intro pin) blast
    have miss: "w_slot (apply_chain pend w0) a k = w_slot (tip_world kc kv d s) a k"
      by (rule pin, rule last_pins)
    consider (gone) e where "accounts (base s) a = Some e" "\<not> Exists e"
      | (known) e v where "accounts (base s) a = Some e" "Exists e" "Storage e k = Some v"
      | (other) "case accounts (base s) a of None \<Rightarrow> True | Some e \<Rightarrow> Exists e \<and> Storage e k = None"
      by (cases "accounts (base s) a"; cases "\<exists>v. Storage (the (accounts (base s) a)) k = Some v") auto
    then show ?thesis
    proof cases
      case other
      show ?thesis
      proof (cases "map_of (sb_slots sb) (a, k)")
        case None
        with mem_Slot_miss [OF sv sb db \<open>layers_slot _ _ = None\<close> other] miss show ?thesis by simp
      next
        case (Some v)
        with other \<open>layers_slot _ _ = None\<close> sv sb buf [OF Some] show ?thesis
          by (cases "accounts (base s) a") (simp_all add: mem_Slot_def)
      qed
    next
      case gone
      with None sv sb gone_val [OF gone] show ?thesis by (simp add: mem_Slot_def)
    next
      case known
      with None sv sb known_val [OF known(1,3)] show ?thesis by (simp add: mem_Slot_def)
    qed
  qed
qed

end

end
