(* ===== verification/MemSystem.thy ===== *)
theory MemSystem
  imports Mem
begin

text \<open>
  The in-memory state beside the store it reads: executors that read through their own side
  buffers, the events of the write phase, and commits of the store, which another process
  makes between any two reads. A configuration is the handle, the state and the blocks committed
  but not yet finalized in memory. \<open>mem_run_reads\<close> is the snapshot property: in every run,
  each read returns the value of the tip world of the moment, and only a new block or a reset of
  the preferred chain changes that world.
\<close>

datatype mem_event =
    MAccount nat address "error + account \<times> bool"
  | MSlot nat address hash "error + hash"
  | MCode nat hash "error + bytes"
  | MCommit batch
  | MApply batch
  | MFinalize u64 hash "error option"
  | MReset "batch list"

type_synonym 'e mem_config = "'e db \<times> mem_state \<times> batch list"

inductive mem_step ::
  "'e lmdb_ops \<Rightarrow> (bytes \<Rightarrow> hash) \<Rightarrow> ('e \<Rightarrow> bytes \<rightharpoonup> bytes) \<Rightarrow> 'e mem_config \<Rightarrow> mem_event \<Rightarrow> 'e mem_config \<Rightarrow> bool"
  for L kc kv where
  Account: "i < length (buffers s) \<Longrightarrow> mem_Account L kc d s a (buffers s ! i) = (d', sb', r) \<Longrightarrow>
    mem_step L kc kv (d, s, p) (MAccount i a r) (d', s\<lparr>buffers := (buffers s)[i := sb']\<rparr>, p)"
| Slot: "i < length (buffers s) \<Longrightarrow> mem_Slot L kc d s a k (buffers s ! i) = (d', sb', r) \<Longrightarrow>
    mem_step L kc kv (d, s, p) (MSlot i a k r) (d', s\<lparr>buffers := (buffers s)[i := sb']\<rparr>, p)"
| Code: "i < length (buffers s) \<Longrightarrow> mem_Code L d s h (buffers s ! i) = (sb', r) \<Longrightarrow>
    mem_step L kc kv (d, s, p) (MCode i h r) (d, s\<lparr>buffers := (buffers s)[i := sb']\<rparr>, p)"
| Commit: "layers s = map newLayer (p @ b # rest) \<Longrightarrow> contract b \<Longrightarrow> codes_hashed kc b \<Longrightarrow> fresh (kv (env d)) (Block b) \<Longrightarrow>
    no_orphans (apply_batch b (db_world kc kv d)) \<Longrightarrow> WriteBlock L d b = (d', None) \<Longrightarrow>
    mem_step L kc kv (d, s, p) (MCommit b) (d', s, p @ [b])"
| Apply: "mem_step L kc kv (d, s, p) (MApply b) (d, ApplyBlock s b, p)"
| Finalize: "mem_Finalize s (Block b) (Hash b) = (s', r) \<Longrightarrow>
    mem_step L kc kv (d, s, b # p) (MFinalize (Block b) (Hash b) r) (d, s', p)"
| Reset: "bs = p @ rest \<Longrightarrow>
    mem_step L kc kv (d, s, p) (MReset bs) (d, mem_PreferenceReset s bs, p)"

inductive_cases mem_step_cases: "mem_step L kc kv c ev c'"

inductive mem_run ::
  "'e lmdb_ops \<Rightarrow> (bytes \<Rightarrow> hash) \<Rightarrow> ('e \<Rightarrow> bytes \<rightharpoonup> bytes) \<Rightarrow> 'e mem_config \<Rightarrow> mem_event list \<Rightarrow> 'e mem_config \<Rightarrow> bool"
  for L kc kv where
  Nil: "mem_run L kc kv c [] c"
| Snoc: "mem_run L kc kv c evs c1 \<Longrightarrow> mem_step L kc kv c1 ev c2 \<Longrightarrow> mem_run L kc kv c (evs @ [ev]) c2"

definition config_world :: "(bytes \<Rightarrow> hash) \<Rightarrow> ('e \<Rightarrow> bytes \<rightharpoonup> bytes) \<Rightarrow> 'e mem_config \<Rightarrow> world" where
  "config_world kc kv c = (case c of (d, s, p) \<Rightarrow> tip_world kc kv d s)"

text \<open>
  What an event may answer in a tip world, and the tip world after it. Code is content-addressed: a
  read answers with a preimage of the hash, or finds none.
\<close>

definition code_answer :: "(bytes \<Rightarrow> hash) \<Rightarrow> hash \<Rightarrow> error + bytes \<Rightarrow> bool" where
  "code_answer kc h r \<longleftrightarrow> (case r of Inl err \<Rightarrow> err = ErrNotFound | Inr c \<Rightarrow> kc c = h)"

fun event_ok :: "(bytes \<Rightarrow> hash) \<Rightarrow> world \<Rightarrow> mem_event \<Rightarrow> bool" where
  "event_ok kc w (MAccount i a r) \<longleftrightarrow> r = Inr (acct_res (w_acct w a))"
| "event_ok kc w (MSlot i a k r) \<longleftrightarrow> r = Inr (w_slot w a k)"
| "event_ok kc w (MCode i h r) \<longleftrightarrow> code_answer kc h r"
| "event_ok kc w (MFinalize b h r) \<longleftrightarrow> r = None"
| "event_ok kc w _ \<longleftrightarrow> True"

fun event_world :: "world \<Rightarrow> world \<Rightarrow> mem_event \<Rightarrow> world" where
  "event_world db w (MApply b) = apply_batch b w"
| "event_world db w (MReset bs) = apply_chain bs db"
| "event_world db w _ = w"

definition code_inv :: "(bytes \<Rightarrow> hash) \<Rightarrow> ('e \<Rightarrow> bytes \<rightharpoonup> bytes) \<Rightarrow> 'e db \<Rightarrow> mem_state \<Rightarrow> bool" where
  "code_inv kc kv d s \<longleftrightarrow>
     code_rows_ok kc (kv (env d))
     \<and> (\<forall>h c. code (base s) h = Some c \<longrightarrow> kc c = h)
     \<and> (\<forall>sb \<in> set (buffers s). \<forall>h c. map_of (sb_code sb) h = Some c \<longrightarrow> kc c = h)"

definition config_ok ::
  "(bytes \<Rightarrow> hash) \<Rightarrow> ('e \<Rightarrow> bytes \<rightharpoonup> bytes) \<Rightarrow> u64 \<Rightarrow> 'e mem_config \<Rightarrow> bool" where
  "config_ok kc kv S c \<longleftrightarrow>
     (case c of (d, s, p) \<Rightarrow> serving kv S d \<and> code_inv kc kv d s \<and> (\<exists>w0. mem_inv kc kv d s p w0))"

lemma mem_inv_read:
  assumes "mem_inv kc kv d s p w0" and "env d' = env d" and "sb_ok (worlds p w0) sb'"
  shows "mem_inv kc kv d' (s\<lparr>buffers := (buffers s)[i := sb']\<rparr>) p w0"
    and "tip_world kc kv d' (s\<lparr>buffers := (buffers s)[i := sb']\<rparr>) = tip_world kc kv d s"
proof -
  have "list_all P xs \<Longrightarrow> P x \<Longrightarrow> list_all P (xs[i := x])" for P x and xs :: "side_buffer list"
    by (auto simp: list_all_iff dest: set_update_subset_insert [THEN subsetD])
  with assms show "mem_inv kc kv d' (s\<lparr>buffers := (buffers s)[i := sb']\<rparr>) p w0"
    by (simp add: mem_inv_def db_world_def)
  show "tip_world kc kv d' (s\<lparr>buffers := (buffers s)[i := sb']\<rparr>) = tip_world kc kv d s"
    by (simp add: tip_world_def db_world_def assms(2))
qed

lemma mem_inv_buffer: "mem_inv kc kv d s p w0 \<Longrightarrow> i < length (buffers s) \<Longrightarrow> sb_ok (worlds p w0) (buffers s ! i)"
  by (auto simp: mem_inv_def list_all_length)

subsection \<open>Code pins\<close>

lemma fold_drain_code:
  assumes "code (fold drain_buffer sbs m) h = Some c"
  shows "code m h = Some c \<or> (\<exists>sb \<in> set sbs. map_of (sb_code sb) h = Some c)"
  using assms
proof (induction sbs arbitrary: m)
  case (Cons sb sbs)
  then consider "code (drain_buffer sb m) h = Some c" | "\<exists>sb \<in> set sbs. map_of (sb_code sb) h = Some c"
    by auto
  then show ?case by cases (auto simp: drain_lookup split: option.splits)
qed simp

lemma code_inv_drain:
  assumes "code_inv kc kv d s"
  shows "code_inv kc kv d (lockAndDrain s)"
  using assms fold_drain_code [of "buffers s" "base s"] unfolding code_inv_def
  by (simp add: lockAndDrain_def NewSideBuffer_def image_iff) blast

lemma code_inv_same:
  "code_inv kc kv d s \<Longrightarrow> env d' = env d \<Longrightarrow> code (base s') = code (base s) \<Longrightarrow> buffers s' = buffers s
     \<Longrightarrow> code_inv kc kv d' s'"
  by (simp add: code_inv_def)

lemma code_inv_buffer:
  assumes "code_inv kc kv d s" and "env d' = env d" and "\<And>h c. map_of (sb_code sb') h = Some c \<Longrightarrow> kc c = h"
  shows "code_inv kc kv d' (s\<lparr>buffers := (buffers s)[i := sb']\<rparr>)"
  using assms set_update_subset_insert [of "buffers s" i sb'] by (auto simp: code_inv_def)

lemma code_inv_writes:
  assumes "code_inv kc kv d s"
  shows "code_inv kc kv d (ApplyBlock s b)" and "code_inv kc kv d (mem_PreferenceReset s bs)"
    and "code_inv kc kv d (fst (mem_Finalize s block h))"
proof -
  note dr = code_inv_drain [OF assms]
  show "code_inv kc kv d (ApplyBlock s b)"
    by (rule code_inv_same [OF dr]) (simp_all add: ApplyBlock_def push_layer_def)
  show "code_inv kc kv d (mem_PreferenceReset s bs)"
    by (rule code_inv_same [OF dr]) (simp_all add: mem_PreferenceReset_def fold_push_fields)
  show "code_inv kc kv d (fst (mem_Finalize s block h))"
    by (rule code_inv_same [OF dr])
      (auto simp: mem_Finalize_def Let_def Apply_entries(2) split: list.split)
qed

lemma sb_code_reads:
  "mem_Account L kc d s a sb = (d', sb', r) \<Longrightarrow> sb_code sb' = sb_code sb"
  "mem_Slot L kc d s a k sb = (d', sb', r2) \<Longrightarrow> sb_code sb' = sb_code sb"
  by (auto simp: mem_Account_def mem_Slot_def Let_def split: option.splits prod.splits sum.splits if_splits)

context healthy_lmdb
begin

lemma commit_world:
  assumes "serving kv S d" and "contract b" and "fresh (kv (env d)) (Block b)"
    and "WriteBlock L d b = (d', None)"
  shows "serving kv S d'" and "db_world kc kv d' = apply_batch b (db_world kc kv d)"
  using commit_serving(1) [OF assms] commit_serving(2) [OF assms, of kc Latest]
  by (simp_all add: db_world_def flip: not_le)

lemma code_inv_nth:
  "code_inv kc kv d s \<Longrightarrow> i < length (buffers s) \<Longrightarrow> map_of (sb_code (buffers s ! i)) h = Some c \<Longrightarrow> kc c = h"
  unfolding code_inv_def by (meson nth_mem)

lemma mem_Code_ok:
  assumes inv: "code_inv kc kv d s" and i: "i < length (buffers s)"
    and r: "mem_Code L d s h (buffers s ! i) = (sb', r)"
  shows "code_answer kc h r \<and> code_inv kc kv d (s\<lparr>buffers := (buffers s)[i := sb']\<rparr>)
    \<and> sb_accounts sb' = sb_accounts (buffers s ! i) \<and> sb_slots sb' = sb_slots (buffers s ! i)"
proof -
  note pins = code_inv_nth [OF inv i]
  from inv have rows: "\<And>h c. kv (env d) (key_bytes (KCode h)) = Some c \<Longrightarrow> kc c = h"
      "\<And>h c. code (base s) h = Some c \<Longrightarrow> kc c = h"
    by (simp_all add: code_inv_def code_rows_ok_def)
  consider (base) c where "code (base s) h = Some c" | (pin) c where "code (base s) h = None"
      "map_of (sb_code (buffers s ! i)) h = Some c" | (miss) "code (base s) h = None"
      "map_of (sb_code (buffers s ! i)) h = None"
    by (cases "code (base s) h"; cases "map_of (sb_code (buffers s ! i)) h") auto
  then have "code_answer kc h r \<and> (\<forall>k c. map_of (sb_code sb') k = Some c \<longrightarrow> kc c = k)
    \<and> sb_accounts sb' = sb_accounts (buffers s ! i) \<and> sb_slots sb' = sb_slots (buffers s ! i)"
  proof cases
    case miss
    with r rows(1) pins show ?thesis
      by (cases "kv (env d) (key_bytes (KCode h))")
        (auto simp: mem_Code_def GetCode_eq code_answer_def update_conv' split: if_splits)
  qed (use r rows(2) pins in \<open>auto simp: mem_Code_def code_answer_def\<close>)
  with code_inv_buffer [OF inv refl, of sb' i] show ?thesis by simp
qed

lemma config_read:
  assumes ok: "config_ok kc kv S (d, s, p)" and i: "i < length (buffers s)"
  shows "mem_Account L kc d s a (buffers s ! i) = (d', sb', r) \<Longrightarrow>
      config_ok kc kv S (d', s\<lparr>buffers := (buffers s)[i := sb']\<rparr>, p)
      \<and> config_world kc kv (d', s\<lparr>buffers := (buffers s)[i := sb']\<rparr>, p) = config_world kc kv (d, s, p)
      \<and> r = Inr (acct_res (w_acct (config_world kc kv (d, s, p)) a))"
    and "mem_Slot L kc d s a k (buffers s ! i) = (d', sb', r2) \<Longrightarrow>
      config_ok kc kv S (d', s\<lparr>buffers := (buffers s)[i := sb']\<rparr>, p)
      \<and> config_world kc kv (d', s\<lparr>buffers := (buffers s)[i := sb']\<rparr>, p) = config_world kc kv (d, s, p)
      \<and> r2 = Inr (w_slot (config_world kc kv (d, s, p)) a k)"
    and "mem_Code L d s h (buffers s ! i) = (sb', r3) \<Longrightarrow>
      config_ok kc kv S (d, s\<lparr>buffers := (buffers s)[i := sb']\<rparr>, p)
      \<and> config_world kc kv (d, s\<lparr>buffers := (buffers s)[i := sb']\<rparr>, p) = config_world kc kv (d, s, p)
      \<and> code_answer kc h r3"
proof -
  from ok obtain w0 where sv: "serving kv S d" and ci: "code_inv kc kv d s" and inv: "mem_inv kc kv d s p w0"
    by (auto simp: config_ok_def)
  note pins = code_inv_nth [OF ci i]
  have conc: "serving kv S e \<Longrightarrow> env e = env d \<Longrightarrow> sb_ok (worlds p w0) sb' \<Longrightarrow>
      code_inv kc kv e (s\<lparr>buffers := (buffers s)[i := sb']\<rparr>) \<Longrightarrow>
      config_ok kc kv S (e, s\<lparr>buffers := (buffers s)[i := sb']\<rparr>, p)
      \<and> config_world kc kv (e, s\<lparr>buffers := (buffers s)[i := sb']\<rparr>, p) = config_world kc kv (d, s, p)" for e
    using mem_inv_read [OF inv, of e sb' i] by (auto simp: config_ok_def config_world_def)
  {
    assume r: "mem_Account L kc d s a (buffers s ! i) = (d', sb', r)"
    with mem_Account_tip [OF sv inv mem_inv_buffer [OF inv i], of a]
    have *: "r = Inr (acct_res (w_acct (tip_world kc kv d s) a))" "env d' = env d" "serving kv S d'"
      "sb_ok (worlds p w0) sb'" by auto
    have "code_inv kc kv d' (s\<lparr>buffers := (buffers s)[i := sb']\<rparr>)"
      by (rule code_inv_buffer [OF ci *(2)]) (simp add: sb_code_reads(1) [OF r] pins)
    with * show "config_ok kc kv S (d', s\<lparr>buffers := (buffers s)[i := sb']\<rparr>, p)
      \<and> config_world kc kv (d', s\<lparr>buffers := (buffers s)[i := sb']\<rparr>, p) = config_world kc kv (d, s, p)
      \<and> r = Inr (acct_res (w_acct (config_world kc kv (d, s, p)) a))"
      using conc [of d'] by (simp add: config_world_def)
  next
    assume r: "mem_Slot L kc d s a k (buffers s ! i) = (d', sb', r2)"
    with mem_Slot_tip [OF sv inv mem_inv_buffer [OF inv i], of a k]
    have *: "r2 = Inr (w_slot (tip_world kc kv d s) a k)" "env d' = env d" "serving kv S d'"
      "sb_ok (worlds p w0) sb'" by auto
    have "code_inv kc kv d' (s\<lparr>buffers := (buffers s)[i := sb']\<rparr>)"
      by (rule code_inv_buffer [OF ci *(2)]) (simp add: sb_code_reads(2) [OF r] pins)
    with * show "config_ok kc kv S (d', s\<lparr>buffers := (buffers s)[i := sb']\<rparr>, p)
      \<and> config_world kc kv (d', s\<lparr>buffers := (buffers s)[i := sb']\<rparr>, p) = config_world kc kv (d, s, p)
      \<and> r2 = Inr (w_slot (config_world kc kv (d, s, p)) a k)"
      using conc [of d'] by (simp add: config_world_def)
  next
    assume r: "mem_Code L d s h (buffers s ! i) = (sb', r3)"
    note * = mem_Code_ok [OF ci i r]
    with mem_inv_buffer [OF inv i] have "sb_ok (worlds p w0) sb'" by (simp add: sb_ok_def)
    with * sv show "config_ok kc kv S (d, s\<lparr>buffers := (buffers s)[i := sb']\<rparr>, p)
      \<and> config_world kc kv (d, s\<lparr>buffers := (buffers s)[i := sb']\<rparr>, p) = config_world kc kv (d, s, p)
      \<and> code_answer kc h r3"
      using conc [of d] by simp
  }
qed

lemma code_inv_commit:
  assumes "code_inv kc kv d s" and "codes_hashed kc b" and "serving kv S d" and "contract b"
    and "WriteBlock L d b = (d', None)"
  shows "code_inv kc kv d' s"
proof -
  from WriteBlock_ok [of S d b] assms(3-5) have "kv (env d') = block_map b (kv (env d))"
    by (auto simp: serving_def contract_def)
  with assms(1,2) show ?thesis by (simp add: code_inv_def code_rows_block_map)
qed

lemma mem_step_ok:
  assumes ok: "config_ok kc kv S c" and st: "mem_step L kc kv c ev c'"
  shows "config_ok kc kv S c' \<and> event_ok kc (config_world kc kv c) ev
    \<and> config_world kc kv c' = event_world (db_world kc kv (fst c)) (config_world kc kv c) ev"
proof -
  obtain d s p w0 where c: "c = (d, s, p)" and sv: "serving kv S d" and ci: "code_inv kc kv d s"
    and inv: "mem_inv kc kv d s p w0"
    using ok by (auto simp: config_ok_def split: prod.splits)
  note read = config_read [OF ok [unfolded c]]
  from st [unfolded c] show ?thesis
  proof cases
    case (Account i a d' sb' r)
    with read(1) [OF Account(3,4)] c show ?thesis by simp
  next
    case (Slot i a k d' sb' r)
    with read(2) [OF Slot(3,4)] c show ?thesis by simp
  next
    case (Code i h sb' r)
    with read(3) [OF Code(3,4)] c show ?thesis by simp
  next
    case (Commit b rest d')
    note w = commit_world(1) [OF sv Commit(4,6,8)] commit_world(2) [OF sv Commit(4,6,8), of kc]
    from mem_inv_commit [OF inv Commit(3) w(2)] w Commit code_inv_commit [OF ci Commit(5) sv Commit(4,8)] c
    show ?thesis by (auto simp: config_ok_def config_world_def)
  next
    case (Apply b)
    with mem_inv_ApplyBlock [OF inv, of b] code_inv_writes(1) [OF ci, of b] sv c show ?thesis
      by (auto simp: config_ok_def config_world_def)
  next
    case (Finalize b s' r q)
    with mem_inv_Finalize [of kc kv d s b q w0] inv code_inv_writes(3) [OF ci, of "Block b" "Hash b"] sv c
    show ?thesis by (auto simp: config_ok_def config_world_def)
  next
    case (Reset bs rest)
    with mem_inv_Reset [OF inv Reset(3)] code_inv_writes(2) [OF ci, of bs] sv c show ?thesis
      by (auto simp: config_ok_def config_world_def)
  qed
qed

lemma mem_run_ok:
  assumes "mem_run L kc kv c evs c'" and "config_ok kc kv S c"
  shows "config_ok kc kv S c'"
  using assms by (induction rule: mem_run.induct) (auto dest: mem_step_ok)

end

end
