(* ===== verification/Examples.thy ===== *)
theory Examples
  imports MemSystem
begin

text \<open>
  A small store and three blocks on which the theorems are applied: genesis at height 100 with one
  account, then a block that changes it and writes a slot, one that destroys it, and one that
  recreates it. The database is the association list of theory \<open>Lmdb\<close>.
\<close>

definition ex_kc :: "bytes \<Rightarrow> hash" where
  "ex_kc bs = be_word bs"

definition ex_acct :: "u256 \<Rightarrow> account" where
  "ex_acct v = \<lparr>Balance = v, Nonce = 1, CodeHash = 3\<rparr>"

definition ex_db :: "alist_env db" where
  "ex_db = \<lparr>env = [(key_bytes (KMeta 1), be_bytes 8 (100 :: u64)), (key_bytes (KMeta 2), [1]),
      (key_bytes (KAccount 7 100), EncodeAccount [] (ex_acct 5))],
     ro = False, genesisPlus1 = 0, baselineDone = False\<rparr>"

definition ex_b1 :: batch where
  "ex_b1 = \<lparr>Block = 101, Hash = 11, Parent = 10, Time = 1000,
     Ops = [OpAccount 7 (ex_acct 6), OpSlot 7 1 42]\<rparr>"

definition ex_b2 :: batch where
  "ex_b2 = \<lparr>Block = 102, Hash = 12, Parent = 11, Time = 2000, Ops = [OpDestruct 7]\<rparr>"

definition ex_b3 :: batch where
  "ex_b3 = \<lparr>Block = 103, Hash = 13, Parent = 12, Time = 3000,
     Ops = [OpAccount 7 (ex_acct 8), OpSlot 7 2 9]\<rparr>"

lemmas ex_batches = ex_b1_def ex_b2_def ex_b3_def

lemma ex_contract [simp]: "contract ex_b1" "contract ex_b2" "contract ex_b3"
  by (simp_all add: contract_def sized_def recreated_def ex_batches)

lemma ex_blocks [simp]:
  "Block ex_b1 = 101" "Block ex_b2 = 102" "Block ex_b3 = 103"
  "Hash ex_b1 = 11" "Hash ex_b2 = 12" "Hash ex_b3 = 13"
  "Parent ex_b1 = 10" "Parent ex_b2 = 11" "Parent ex_b3 = 12"
  by (simp_all add: ex_batches)

lemma ex_rows:
  "map_of (env ex_db) (key_bytes r) =
     (if r = KMeta 1 then Some (be_bytes 8 (100 :: u64)) else if r = KMeta 2 then Some [1]
      else if r = KAccount 7 100 then Some (EncodeAccount [] (ex_acct 5)) else None)"
  by (auto simp: ex_db_def)

lemma ex_wf: "wf_rows (map_of (env ex_db))"
  by (auto simp: wf_rows_def ex_db_def length_EncodeAccount split: if_splits)

lemma ex_serving: "serving map_of 100 ex_db"
  using ex_wf by (simp add: serving_def db_ok_def complete_def no_edge_def key_simps ex_rows)
    (simp add: ex_db_def)

lemma ex_fresh: "100 < b \<Longrightarrow> fresh (map_of (env ex_db)) b"
  by (auto simp: fresh_def ex_rows)

lemma ex_appendable: "appendable (map_of (env ex_db)) [ex_b1, ex_b2, ex_b3]"
  by (simp add: appendable_def ascending_def ex_fresh)

lemma ex_last_write:
  assumes "100 \<le> at"
  shows "last_write (map_of (env ex_db)) (KAccount a) at =
      (if a = 7 then Some (100, EncodeAccount [] (ex_acct 5)) else None)"
    and "last_write (map_of (env ex_db)) (KSlot a s) at = None"
    and "last_write (map_of (env ex_db)) (KDestruct a) at = None"
  using last_write_single [of "map_of (env ex_db)" "KAccount a" 100
      "if a = 7 then Some (EncodeAccount [] (ex_acct 5)) else None", OF _ assms]
  by (simp_all add: last_write_None ex_rows)

definition ex_w0 :: world where
  "ex_w0 = \<lparr>w_acct = (\<lambda>_. None)(7 := Some (ex_acct 5)), w_slot = (\<lambda>_ _. 0)\<rparr>"

lemma ex_world: "100 \<le> at \<Longrightarrow> world_at ex_kc (map_of (env ex_db)) at = ex_w0"
  by (rule world_eqI)
    (simp_all add: ex_w0_def acct_at_def slot_at_def ex_last_write ex_rows acct_dec_def accountc.dec_enc)

definition ex_w1 :: world where
  "ex_w1 = \<lparr>w_acct = (\<lambda>_. None)(7 := Some (ex_acct 6)), w_slot = (\<lambda>_ _. 0)(7 := (\<lambda>_. 0)(1 := 42))\<rparr>"

definition ex_w2 :: world where
  "ex_w2 = \<lparr>w_acct = (\<lambda>_. None), w_slot = (\<lambda>_ _. 0)\<rparr>"

definition ex_w3 :: world where
  "ex_w3 = \<lparr>w_acct = (\<lambda>_. None)(7 := Some (ex_acct 8)), w_slot = (\<lambda>_ _. 0)(7 := (\<lambda>_. 0)(2 := 9))\<rparr>"

lemmas ex_world_defs = ex_w0_def ex_w1_def ex_w2_def ex_w3_def

lemma ex_apply [simp]:
  "apply_batch ex_b1 ex_w0 = ex_w1" "apply_batch ex_b2 ex_w1 = ex_w2" "apply_batch ex_b3 ex_w2 = ex_w3"
  by (auto simp: apply_batch_def ex_batches ex_world_defs fun_eq_iff)

lemma ex_orphans [simp]: "no_orphans ex_w0" "no_orphans ex_w1" "no_orphans ex_w2" "no_orphans ex_w3"
  by (auto simp: no_orphans_def ex_world_defs)

lemma ex_no_orphans: "list_all no_orphans (worlds [ex_b1, ex_b2, ex_b3] ex_w0)"
  by simp

text \<open>The same store before its baseline is complete.\<close>

definition ex_partial :: "alist_env db" where
  "ex_partial = \<lparr>env = [(key_bytes (KMeta 1), be_bytes 8 (100 :: u64)),
      (key_bytes (KAccount 7 100), EncodeAccount [] (ex_acct 5))],
     ro = False, genesisPlus1 = 0, baselineDone = False\<rparr>"

lemma ex_partial_rows:
  "map_of (env ex_partial) (key_bytes r) =
     (if r = KMeta 1 then Some (be_bytes 8 (100 :: u64))
      else if r = KAccount 7 100 then Some (EncodeAccount [] (ex_acct 5)) else None)"
  by (auto simp: ex_partial_def)

lemma ex_partial_ok: "db_ok map_of 100 ex_partial"
proof -
  have "wf_rows (map_of (env ex_partial))"
    by (auto simp: wf_rows_def ex_partial_def length_EncodeAccount split: if_splits)
  then show ?thesis by (simp add: db_ok_def key_simps ex_partial_rows) (simp add: ex_partial_def)
qed

text \<open>A store that breaks the batch contract: a slot row and a destruct row of one block, no account row.\<close>

definition ex_edge :: "alist_env db" where
  "ex_edge = \<lparr>env = [(key_bytes (KMeta 1), be_bytes 8 (100 :: u64)),
      (key_bytes (KSlot 7 1 120), be_bytes 32 (9 :: hash)), (key_bytes (KDestruct 7 120), [])],
     ro = False, genesisPlus1 = 0, baselineDone = False\<rparr>"

lemma ex_edge_rows:
  "map_of (env ex_edge) (key_bytes r) =
     (if r = KMeta 1 then Some (be_bytes 8 (100 :: u64))
      else if r = KSlot 7 1 120 then Some (be_bytes 32 (9 :: hash))
      else if r = KDestruct 7 120 then Some [] else None)"
  by (auto simp: ex_edge_def)

lemma ex_edge_ok: "db_ok map_of 100 ex_edge"
proof -
  have "wf_rows (map_of (env ex_edge))"
    by (auto simp: wf_rows_def ex_edge_def split: if_splits)
  then show ?thesis by (simp add: db_ok_def key_simps ex_edge_rows) (simp add: ex_edge_def)
qed

lemma ex_edge_edge: "edge (map_of (env ex_edge)) 150 7 1"
  using last_write_single [of "map_of (env ex_edge)" "KSlot 7 1" 120 "Some (be_bytes 32 (9 :: hash))" 150]
    last_write_single [of "map_of (env ex_edge)" "KDestruct 7" 120 "Some []" 150]
  by (simp add: edge_def ex_edge_rows)

text \<open>A database with nothing in it.\<close>

definition ex_empty :: "alist_env db" where
  "ex_empty = \<lparr>env = [], ro = False, genesisPlus1 = 0, baselineDone = False\<rparr>"

end
