(* ===== verification/StoreProperties.thy ===== *)
theory StoreProperties
  imports StoreBaseline NodeBaseline Examples
begin

text \<open>
  What the store promises: historical reads, the per-block write, the codecs and the baseline load.
  Each property is applied, in its witness, to the stores of theory \<open>Examples\<close>.
\<close>

text \<open>A full state in order: an account, a slot of it and a code.\<close>

definition ex_entries :: "entry list" where
  "ex_entries = [EntryAccount 7 (ex_acct 5), EntrySlot 7 1 42, EntryCode 3 [96]]"

lemma ex_entries_order: "in_order 0 [] ex_entries"
  by (simp add: ex_entries_def)

lemma ex_empty_facts:
  "genesisPlus1 ex_empty = 0" "\<not> baselineDone ex_empty" "map_of (env ex_empty) MetaGenesis = None"
  "wf_rows (map_of (env ex_empty))" "blank (map_of (env ex_empty))"
  by (simp_all add: ex_empty_def wf_rows_def blank_def)

text \<open>A loader with one pending storage trie buffered.\<close>

definition ex_queued :: baseline where
  "ex_queued = \<lparr>bl_s = 100, bl_ops = [\<lparr>bl_k = key_bytes (KQueue 5), bl_v = be_bytes 32 (6 :: hash), bl_del = False\<rparr>],
     bl_progress = None\<rparr>"

lemma ex_queued_ok: "list_all bl_ok (bl_ops ex_queued)"
  by (auto simp: ex_queued_def bl_ok_def)

section \<open>History\<close>

text \<open>
  C1. A history of block writes denotes the chain: after any run of batches that keep the batch
  contract is written above what the store holds, \<^verbatim>\<open>GetAccount\<close> and \<^verbatim>\<open>GetSlot\<close> at any height return
  what the batches up to that height, applied in order, make of the state before them.
\<close>

theorem store_history_reads:
  assumes "healthy_lmdb L kv" and "db_ok kv S d" and "complete kv d" and "no_edge (kv (env d))"
    and "S \<le> at" and "appendable (kv (env d)) bs"
  shows "\<exists>d'. write_all L d bs = (d', None)
    \<and> snd (GetAccount L kc d' a at) =
        Inr (acct_res (w_acct (apply_chain (filter (\<lambda>b. Block b \<le> at) bs) (world_at kc (kv (env d)) at)) a))
    \<and> snd (GetSlot L kc d' a s at) =
        Inr (w_slot (apply_chain (filter (\<lambda>b. Block b \<le> at) bs) (world_at kc (kv (env d)) at)) a s)"
  using healthy_lmdb.history_reads [OF assms refl] .

theorem store_history_reads_witness:
  "\<exists>d'. write_all alist_lmdb ex_db [ex_b1, ex_b2, ex_b3] = (d', None)
    \<and> snd (GetAccount alist_lmdb ex_kc d' 7 101) = Inr (ex_acct 6, True)
    \<and> snd (GetSlot alist_lmdb ex_kc d' 7 1 101) = Inr 42"
  using store_history_reads [OF alist.healthy_lmdb_axioms, of 100 ex_db 101 "[ex_b1, ex_b2, ex_b3]" ex_kc 7 1]
    ex_serving ex_appendable
  by (simp add: serving_def ex_world) (simp add: ex_w1_def)

text \<open>
  C2. Every key is sought once: the cursor seek of \<^verbatim>\<open>seekLE\<close> at height \<^verbatim>\<open>at\<close> finds the newest row of
  the account at or before that height, or nothing when there is none.
\<close>

theorem seek_is_newest:
  assumes "healthy_lmdb L kv" and "wf_rows (kv e)"
  shows "seekLE L e (AppendAccountKey [] a at) = Inr (last_write (kv e) (KAccount a) at)
    \<and> seekLE L e (AppendSlotKey [] a s at) = Inr (last_write (kv e) (KSlot a s) at)
    \<and> seekLE L e (AppendDestructKey [] a at) = Inr (last_write (kv e) (KDestruct a) at)"
  using healthy_lmdb.seekLE_rows [OF assms] by (simp_all add: key_simps)

theorem seek_is_newest_witness:
  "seekLE alist_lmdb (env ex_db) (AppendAccountKey [] 7 250)
     = Inr (Some (100, EncodeAccount [] (ex_acct 5)))"
  using seek_is_newest [OF alist.healthy_lmdb_axioms ex_wf, of 7 250] by (simp add: ex_last_write)

text \<open>
  C3. \<^verbatim>\<open>GetAccount\<close> on a store with a genesis, at a height not below it: the account the rows
  denote when a row answers or the baseline is complete, \<^verbatim>\<open>ErrBaselineIncomplete\<close> otherwise. The
  database is left alone.
\<close>

theorem GetAccount_result:
  assumes "healthy_lmdb L kv" and "db_ok kv S d" and "S \<le> at"
  shows "\<exists>d'. GetAccount L kc d addr at =
      (d', if acct_known kc (kv (env d)) at addr \<or> complete kv d
           then Inr (acct_res (acct_at kc (kv (env d)) at addr)) else Inl ErrBaselineIncomplete)
    \<and> env d' = env d"
  using healthy_lmdb.GetAccount_eq [OF assms, of kc addr] by blast

theorem GetAccount_result_witness:
  "snd (GetAccount alist_lmdb ex_kc ex_partial 8 150) = Inl ErrBaselineIncomplete"
proof -
  have "\<not> acct_known ex_kc (map_of (env ex_partial)) 150 8" "\<not> complete map_of ex_partial"
    by (simp_all add: acct_known_def last_write_None complete_def key_simps ex_partial_rows)
  then show ?thesis
    using GetAccount_result [OF alist.healthy_lmdb_axioms ex_partial_ok, of 150 ex_kc 8] by auto
qed


text \<open>
  C4. \<^verbatim>\<open>GetSlot\<close> on a store with a genesis, at a height not below it: \<^verbatim>\<open>ErrDestructEdge\<close> when the newest
  slot row and the newest destruct row are of one block that does not recreate the account, else the
  value the rows denote when a row answers or the baseline is complete, else \<^verbatim>\<open>ErrBaselineIncomplete\<close>.
\<close>

theorem GetSlot_result:
  assumes "healthy_lmdb L kv" and "db_ok kv S d" and "S \<le> at"
  shows "\<exists>d'. GetSlot L kc d addr slot at =
      (d', if edge (kv (env d)) at addr slot then Inl ErrDestructEdge
           else if slot_known kc (kv (env d)) at addr slot \<or> complete kv d
           then Inr (slot_at kc (kv (env d)) at addr slot)
           else Inl ErrBaselineIncomplete)
    \<and> env d' = env d"
  using healthy_lmdb.GetSlot_eq [OF assms, of kc addr slot] by blast

theorem GetSlot_result_witness:
  "snd (GetSlot alist_lmdb ex_kc ex_edge 7 1 150) = Inl ErrDestructEdge"
  using GetSlot_result [OF alist.healthy_lmdb_axioms ex_edge_ok, of 150 ex_kc 7 1] ex_edge_edge by auto

text \<open>
  C5. Writing a block that keeps the batch contract, above what the store holds: it succeeds, the store
  serves as before, every height below the block denotes the state it denoted, and every other one
  that state with the block applied.
\<close>

theorem WriteBlock_world:
  assumes "healthy_lmdb L kv" and "serving kv S d" and "contract b" and "fresh (kv (env d)) (Block b)"
  shows "\<exists>d'. WriteBlock L d b = (d', None) \<and> serving kv S d'
    \<and> (\<forall>at. world_at kc (kv (env d')) at =
         (if at < Block b then world_at kc (kv (env d)) at else apply_batch b (world_at kc (kv (env d)) at)))"
proof -
  from healthy_lmdb.WriteBlock_ok [OF assms(1), of S d b] assms(2,3) obtain d' where w: "WriteBlock L d b = (d', None)"
    by (auto simp: serving_def contract_def)
  from healthy_lmdb.commit_serving [OF assms w] w show ?thesis by blast
qed

theorem WriteBlock_world_witness:
  "\<exists>d'. WriteBlock alist_lmdb ex_db ex_b1 = (d', None)
    \<and> world_at ex_kc (map_of (env d')) 100 = ex_w0 \<and> world_at ex_kc (map_of (env d')) 150 = ex_w1"
  using WriteBlock_world [OF alist.healthy_lmdb_axioms ex_serving ex_contract(1), of ex_kc] ex_fresh [of 101]
  by (auto simp: ex_world)

text \<open>
  C6. Writing again any block of a run that has been written leaves the contents of the database as they
  are: after a crash the last blocks can be replayed, whichever of them were committed.
\<close>

theorem WriteBlock_again:
  assumes "healthy_lmdb L kv" and "db_ok kv S d" and "ascending bs" and "same_code bs" and "list_all contract bs"
    and "b \<in> set bs"
  shows "\<exists>d' d''. write_all L d bs = (d', None) \<and> WriteBlock L d' b = (d'', None) \<and> kv (env d'') = kv (env d')"
proof -
  have sz: "list_all sized bs" "sized b" "\<And>c. c \<in> set bs \<Longrightarrow> list_all op_sized (Ops c)"
    using assms(5,6) contract_sized by (auto simp: list_all_iff)
  from healthy_lmdb.write_all_ok [OF assms(1,2) sz(1)] obtain d'
    where d': "write_all L d bs = (d', None)" "kv (env d') = history_map bs (kv (env d))" "db_ok kv S d'" by blast
  from healthy_lmdb.WriteBlock_ok [OF assms(1) d'(3) sz(2)] d' block_map_replay [OF assms(3,4,6) sz(3)]
  show ?thesis by force
qed

theorem WriteBlock_again_witness:
  "\<exists>d' d''. write_all alist_lmdb ex_db [ex_b1, ex_b2, ex_b3] = (d', None)
    \<and> WriteBlock alist_lmdb d' ex_b2 = (d'', None) \<and> map_of (env d'') = map_of (env d')"
  by (rule WriteBlock_again [OF alist.healthy_lmdb_axioms, of 100])
    (use ex_serving ex_appendable in \<open>auto simp: serving_def appendable_def same_code_def ex_batches\<close>)

text \<open>
  Below the history genesis nothing is answered: both reads fail with \<^verbatim>\<open>ErrBelowGenesis\<close>.
\<close>

theorem reads_below_genesis:
  assumes "healthy_lmdb L kv" and "db_ok kv S d" and "at < S"
  shows "snd (GetAccount L kc d a at) = Inl ErrBelowGenesis \<and> snd (GetSlot L kc d a s at) = Inl ErrBelowGenesis"
proof -
  obtain d1 where "checkAt L d at = (d1, Some ErrBelowGenesis)"
    using healthy_lmdb.checkAt_below [OF assms] by (metis prod.collapse)
  then show ?thesis by (simp add: GetAccount_def GetSlot_def)
qed

theorem reads_below_genesis_witness:
  "snd (GetAccount alist_lmdb ex_kc ex_db 7 99) = Inl ErrBelowGenesis"
  using reads_below_genesis [OF alist.healthy_lmdb_axioms, of 100 ex_db 99 ex_kc 7 0] ex_serving
  by (simp add: serving_def)

section \<open>Encodings\<close>

text \<open>
  C7. The batch codec: a byte string decodes to a batch exactly when it is the encoding of that batch and
  the batch fits the widths of the format. Nothing else decodes, and no two strings decode alike.
\<close>

theorem batch_codec: "Decode data = Inr b \<longleftrightarrow> sized b \<and> Encode [] b = Inr data"
  by (rule Decode_iff)


section \<open>Baseline\<close>

text \<open>
  C9. A baseline load from an iterator that delivers the state in order: \<^verbatim>\<open>RunBaseline\<close> returns without
  error, and the store then serves, at every height from the pivot on, exactly the accounts and slots
  delivered.
\<close>

theorem RunBaseline_loads:
  assumes "healthy_lmdb L kv" and "genesisPlus1 d = 0" and "\<not> baselineDone d" and "kv (env d) MetaGenesis = None"
    and "wf_rows (kv (env d))" and "delivers nxt it es" and "in_order 0 [] es" and "blank (kv (env d))"
  shows "\<exists>d'. RunBaseline nxt L d S it = Some (d', None) \<and> serving kv S d'
    \<and> (\<forall>at \<ge> S. world_at kc (kv (env d')) at = \<lparr>w_acct = map_of (entry_accounts es),
         w_slot = (\<lambda>a s. case map_of (entry_slots es) (a, s) of None \<Rightarrow> 0 | Some v \<Rightarrow> v)\<rparr>)"
  using healthy_lmdb.RunBaseline_ordered [OF assms, of S kc] unfolding serving_def by blast

theorem RunBaseline_loads_witness:
  "\<exists>d'. RunBaseline list_iter alist_lmdb ex_empty 100 ex_entries = Some (d', None)
    \<and> world_at ex_kc (map_of (env d')) 100 =
        \<lparr>w_acct = [7 \<mapsto> ex_acct 5], w_slot = (\<lambda>a s. if a = 7 \<and> s = 1 then 42 else 0)\<rparr>"
proof -
  have w: "(\<lambda>a s. case map_of (entry_slots ex_entries) (a, s) of None \<Rightarrow> 0 | Some v \<Rightarrow> v)
      = (\<lambda>a s. if a = 7 \<and> s = 1 then 42 else 0)" "map_of (entry_accounts ex_entries) = [7 \<mapsto> ex_acct 5]"
    by (auto simp: ex_entries_def fun_eq_iff)
  from RunBaseline_loads [OF alist.healthy_lmdb_axioms ex_empty_facts(1-4) delivers_list ex_entries_order
      ex_empty_facts(5), of 100 ex_kc]
  show ?thesis unfolding w by blast
qed

text \<open>
  C10. An iterator that delivers entries out of order, or of an unknown kind, is refused: \<^verbatim>\<open>RunBaseline\<close>
  returns an error and the baseline is not marked complete, so that reads that miss go on failing.
\<close>

theorem RunBaseline_refuses:
  assumes "healthy_lmdb L kv" and "genesisPlus1 d = 0" and "\<not> baselineDone d" and "kv (env d) MetaGenesis = None"
    and "wf_rows (kv (env d))" and "delivers nxt it es" and "\<not> in_order 0 [] es" and "\<not> complete kv d"
  shows "\<exists>d' err. RunBaseline nxt L d S it = Some (d', Some err) \<and> \<not> complete kv d'"
proof -
  from healthy_lmdb.NewBaseline_first [OF assms(1-5), of S] obtain d1
    where d1: "NewBaseline L d S = (d1, Inr \<lparr>bl_s = S, bl_ops = [], bl_progress = None\<rparr>)"
      "kv (env d1) = (kv (env d))(key_bytes (KMeta 1) \<mapsto> be_bytes 8 S)" by blast
  from healthy_lmdb.run_disordered [OF assms(1,6,7), of "\<lparr>bl_s = S, bl_ops = [], bl_progress = None\<rparr>" d1 0]
  obtain e err where "baseline_loop nxt L it d1 \<lparr>bl_s = S, bl_ops = [], bl_progress = None\<rparr> 0 0 []
      = Some (d1\<lparr>env := e\<rparr>, Some err)" "kv e (key_bytes (KMeta 2)) = kv (env d1) (key_bytes (KMeta 2))" by auto
  with d1 assms(8) show ?thesis by (auto simp: RunBaseline_def complete_def key_simps)
qed

theorem RunBaseline_refuses_witness:
  "\<exists>d' err. RunBaseline list_iter alist_lmdb ex_empty 100 (rev ex_entries) = Some (d', Some err)
    \<and> \<not> complete map_of d'"
  using RunBaseline_refuses [OF alist.healthy_lmdb_axioms ex_empty_facts(1-4) delivers_list, of "rev ex_entries" 100]
  by (simp add: ex_entries_def complete_def ex_empty_def)

text \<open>
  \<^verbatim>\<open>Finish\<close> marks the baseline complete exactly when, with the buffered rows written, no storage queue
  row is left; otherwise it reports a pending row and the mark stays off.
\<close>

theorem Finish_guard:
  assumes "healthy_lmdb L kv" and "list_all bl_ok (bl_ops bl)" and "wf_rows (kv (env d))"
  shows "\<exists>d' bl' err. Finish L d bl = (d', bl', err)
    \<and> (if queue_empty (pending_map kv d bl)
       then err = None \<and> kv (env d') = finished_map (pending_map kv d bl) \<and> baselineDone d'
       else (\<exists>k. err = Some (ErrQueuePending k)) \<and> kv (env d') = pending_map kv d bl
         \<and> baselineDone d' = baselineDone d)"
  using healthy_lmdb.Finish_kv [OF assms] by blast

theorem Finish_guard_witness:
  "\<exists>d' bl' k. Finish alist_lmdb ex_empty ex_queued = (d', bl', Some (ErrQueuePending k)) \<and> \<not> baselineDone d'"
proof -
  have "\<not> queue_empty (pending_map map_of ex_empty ex_queued)"
    by (auto simp: queue_empty_def pending_map_def ex_queued_def bl_map_def ex_empty_def intro!: exI [of _ 5])
  with Finish_guard [OF alist.healthy_lmdb_axioms ex_queued_ok ex_empty_facts(4)] show ?thesis
    by (auto simp: ex_empty_def)
qed

text \<open>
  C11. \<^verbatim>\<open>Flush\<close> is all or nothing on the database, whatever the database does: on an error the handle is as
  it was. The buffered rows are dropped all the same, while the progress cursor stays buffered.
\<close>

theorem Flush_all_or_nothing:
  "case Flush L d bl of (d', bl', err) \<Rightarrow>
     (err \<noteq> None \<longrightarrow> d' = d \<and> bl_ops bl' = [] \<and> bl_progress bl' = bl_progress bl)
     \<and> (err = None \<longrightarrow> bl_ops bl' = [] \<and> bl_progress bl' = None)"
  by (auto simp: Flush_def Update_def split: sum.splits prod.splits)

theorem Flush_all_or_nothing_witness:
  "\<exists>bl'. Flush (alist_lmdb\<lparr>mdb_commit := \<lambda>_. Inl (MDB_OTHER 28)\<rparr>) ex_empty (SetProgress ex_queued [1])
      = (ex_empty, bl', Some (ErrLmdb (MDB_OTHER 28))) \<and> bl_ops bl' = [] \<and> bl_progress bl' = Some [1]"
proof -
  let ?L = "alist_lmdb\<lparr>mdb_commit := \<lambda>_. Inl (MDB_OTHER 28)\<rparr>"
  have "snd (snd (Flush ?L ex_empty (SetProgress ex_queued [1]))) = Some (ErrLmdb (MDB_OTHER 28))"
    using length_key_bytes [of "KQueue 5"]
    by (simp add: Flush_def Update_def flush_txn_def ex_queued_def SetProgress_def lift_mdb_def alist_lmdb_def
        key_ok_def MetaBaselineProgress_def PrefMeta_def)
  with Flush_all_or_nothing [where L = ?L and d = ex_empty and bl = "SetProgress ex_queued [1]"] show ?thesis
    by (auto simp: SetProgress_def split: prod.splits)
qed

text \<open>
  The pivot of a store is fixed by the first baseline: \<^verbatim>\<open>NewBaseline\<close> at another height is refused, at
  the same height it resumes, and the database is left alone.
\<close>

theorem NewBaseline_pivot:
  assumes "healthy_lmdb L kv" and "db_ok kv S d"
  shows "\<exists>d'. NewBaseline L d S' =
      (d', if S' = S then Inr \<lparr>bl_s = S, bl_ops = [], bl_progress = None\<rparr> else Inl (ErrGenesisSet S S'))
    \<and> env d' = env d \<and> db_ok kv S d'"
  by (rule healthy_lmdb.NewBaseline_set [OF assms])

theorem NewBaseline_pivot_witness: "snd (NewBaseline alist_lmdb ex_partial 200) = Inl (ErrGenesisSet 100 200)"
  using NewBaseline_pivot [OF alist.healthy_lmdb_axioms ex_partial_ok, of 200] by auto

end
