(* ===== verification/Engine.thy ===== *)
theory Engine
  imports MemSystem "HOL-Library.Multiset"
begin

text \<open>
  Package \<^verbatim>\<open>engine\<close> (\<^verbatim>\<open>src/engine/engine.go\<close>): the per-call view with its overlay, the pool of
  workers, one batch under the read lock and the loop that runs a stale batch again. An executor is an
  interface implemented elsewhere: a call makes it a program (\<open>prog\<close>) that reads and writes the view
  and ends in a result. The goroutines of a batch interleave step by step (\<open>batch_step\<close>), and the
  other process may commit to the store between any two steps; the read lock keeps the in-memory
  state's write phase out.

  \<open>batch_results\<close>: whatever the interleaving, every result is one the program has against the tip
  world of the moment the lock was taken. \<open>batch_can_finish\<close>: a batch that is not finished can go on.
  \<open>execute_current\<close>: what \<^verbatim>\<open>Execute\<close> returns is computed in the tip world of its return, as long as
  the tip hash determines that world.
\<close>

subsection \<open>Views\<close>

record view =
  v_sb :: nat
  v_balances :: "address \<rightharpoonup> u256"
  v_slots :: "skey \<rightharpoonup> hash"

definition newView :: "nat \<Rightarrow> view" where
  "newView sb = \<lparr>v_sb = sb, v_balances = Map.empty, v_slots = Map.empty\<rparr>"

definition view_reset :: "view \<Rightarrow> view" where
  "view_reset v = v\<lparr>v_balances := Map.empty, v_slots := Map.empty\<rparr>"

type_synonym 'e shared = "'e db \<times> mem_state"

definition View_Account ::
  "'e lmdb_ops \<Rightarrow> (bytes \<Rightarrow> hash) \<Rightarrow> 'e shared \<Rightarrow> view \<Rightarrow> address \<Rightarrow> 'e shared \<times> (error + account \<times> bool)" where
  "View_Account L kc sh v addr =
     (case sh of (d, st) \<Rightarrow>
        (case mem_Account L kc d st addr (buffers st ! v_sb v) of
           (d', sb', r) \<Rightarrow> ((d', st\<lparr>buffers := (buffers st)[v_sb v := sb']\<rparr>), r)))"

definition View_Balance ::
  "'e lmdb_ops \<Rightarrow> (bytes \<Rightarrow> hash) \<Rightarrow> 'e shared \<Rightarrow> view \<Rightarrow> address \<Rightarrow> 'e shared \<times> (error + u256)" where
  "View_Balance L kc sh v addr =
     (case v_balances v addr of
        Some b \<Rightarrow> (sh, Inr b)
      | None \<Rightarrow>
          (case View_Account L kc sh v addr of
             (sh', Inl err) \<Rightarrow> (sh', Inl err)
           | (sh', Inr (a, _)) \<Rightarrow> (sh', Inr (Balance a))))"

definition View_SetBalance :: "view \<Rightarrow> address \<Rightarrow> u256 \<Rightarrow> view" where
  "View_SetBalance v addr b = v\<lparr>v_balances := (v_balances v)(addr \<mapsto> b)\<rparr>"

definition View_Slot ::
  "'e lmdb_ops \<Rightarrow> (bytes \<Rightarrow> hash) \<Rightarrow> 'e shared \<Rightarrow> view \<Rightarrow> address \<Rightarrow> hash \<Rightarrow> 'e shared \<times> (error + hash)" where
  "View_Slot L kc sh v addr slot =
     (case v_slots v (addr, slot) of
        Some val \<Rightarrow> (sh, Inr val)
      | None \<Rightarrow>
          (case sh of (d, st) \<Rightarrow>
             (case mem_Slot L kc d st addr slot (buffers st ! v_sb v) of
                (d', sb', r) \<Rightarrow> ((d', st\<lparr>buffers := (buffers st)[v_sb v := sb']\<rparr>), r))))"

definition View_SetSlot :: "view \<Rightarrow> address \<Rightarrow> hash \<Rightarrow> hash \<Rightarrow> view" where
  "View_SetSlot v addr slot val = v\<lparr>v_slots := (v_slots v)((addr, slot) \<mapsto> val)\<rparr>"

definition View_Code ::
  "'e lmdb_ops \<Rightarrow> 'e shared \<Rightarrow> view \<Rightarrow> hash \<Rightarrow> 'e shared \<times> (error + bytes)" where
  "View_Code L sh v h =
     (case sh of (d, st) \<Rightarrow>
        (case mem_Code L d st h (buffers st ! v_sb v) of
           (sb', r) \<Rightarrow> ((d, st\<lparr>buffers := (buffers st)[v_sb v := sb']\<rparr>), r)))"

definition View_TipInfo :: "'e shared \<Rightarrow> hash \<times> u64 \<times> u64" where
  "View_TipInfo sh = TipInfo (snd sh)"

subsection \<open>Executors\<close>

datatype 'r prog =
    Return 'r
  | GetAcct address "error + account \<times> bool \<Rightarrow> 'r prog"
  | GetBal address "error + u256 \<Rightarrow> 'r prog"
  | GetSlt address hash "error + hash \<Rightarrow> 'r prog"
  | GetCod hash "error + bytes \<Rightarrow> 'r prog"
  | GetTip "hash \<times> u64 \<times> u64 \<Rightarrow> 'r prog"
  | PutBal address u256 "'r prog"
  | PutSlt address hash hash "'r prog"

record ('c, 'r) worker =
  ex :: "'c \<Rightarrow> 'r prog"
  w_view :: view

record ('c, 'r) engine =
  pool :: "('c, 'r) worker list"
  requeues :: u64

text \<open>\<^verbatim>\<open>New\<close> registers one fresh side buffer per executor.\<close>

fun add_workers ::
  "('c \<Rightarrow> 'r prog) list \<Rightarrow> mem_state \<Rightarrow> ('c, 'r) worker list \<Rightarrow> mem_state \<times> ('c, 'r) worker list" where
  "add_workers [] st ws = (st, ws)"
| "add_workers (x # xs) st ws =
     add_workers xs (Register st NewSideBuffer)
       (ws @ [\<lparr>ex = x, w_view = newView (length (buffers st))\<rparr>])"

definition engine_New :: "mem_state \<Rightarrow> ('c \<Rightarrow> 'r prog) list \<Rightarrow> mem_state \<times> ('c, 'r) engine" where
  "engine_New st execs =
     (case add_workers execs st [] of (st', ws) \<Rightarrow> (st', \<lparr>pool = ws, requeues = 0\<rparr>))"

text \<open>One step of an executor's program on its view.\<close>

fun prog_step ::
  "'e lmdb_ops \<Rightarrow> (bytes \<Rightarrow> hash) \<Rightarrow> 'e shared \<Rightarrow> view \<Rightarrow> 'r prog \<Rightarrow> 'e shared \<times> view \<times> 'r prog" where
  "prog_step L kc sh v (Return r) = (sh, v, Return r)"
| "prog_step L kc sh v (GetAcct a k) = (case View_Account L kc sh v a of (sh', r) \<Rightarrow> (sh', v, k r))"
| "prog_step L kc sh v (GetBal a k) = (case View_Balance L kc sh v a of (sh', r) \<Rightarrow> (sh', v, k r))"
| "prog_step L kc sh v (GetSlt a s k) = (case View_Slot L kc sh v a s of (sh', r) \<Rightarrow> (sh', v, k r))"
| "prog_step L kc sh v (GetCod h k) = (case View_Code L sh v h of (sh', r) \<Rightarrow> (sh', v, k r))"
| "prog_step L kc sh v (GetTip k) = (sh, v, k (View_TipInfo sh))"
| "prog_step L kc sh v (PutBal a b p) = (sh, View_SetBalance v a b, p)"
| "prog_step L kc sh v (PutSlt a s x p) = (sh, View_SetSlot v a s x, p)"

subsection \<open>One batch\<close>

text \<open>
  A batch under the read lock: the calls still to be handed out, with their positions, the free
  workers (the channel), the running goroutines and the results so far.
\<close>

record ('c, 'r) batch_run =
  todo :: "(nat \<times> 'c) list"
  free :: "('c, 'r) worker list"
  running :: "(nat \<times> ('c, 'r) worker \<times> 'r prog) list"
  results :: "nat \<rightharpoonup> 'r"

definition start_batch :: "('c, 'r) engine \<Rightarrow> 'c list \<Rightarrow> ('c, 'r) batch_run" where
  "start_batch e calls =
     \<lparr>todo = enumerate 0 calls, free = pool e, running = [], results = Map.empty\<rparr>"

inductive batch_step ::
  "'e lmdb_ops \<Rightarrow> (bytes \<Rightarrow> hash) \<Rightarrow> ('e \<Rightarrow> bytes \<rightharpoonup> bytes) \<Rightarrow>
     'e mem_config \<times> ('c, 'r) batch_run \<Rightarrow> 'e mem_config \<times> ('c, 'r) batch_run \<Rightarrow> bool"
  for L kc kv where
  Spawn: "todo b = (i, c) # cs \<Longrightarrow> free b = w # ws \<Longrightarrow>
    batch_step L kc kv (cfg, b)
      (cfg, b\<lparr>todo := cs, free := ws,
              running := running b @ [(i, w\<lparr>w_view := view_reset (w_view w)\<rparr>, ex w c)]\<rparr>)"
| Exec: "j < length (running b) \<Longrightarrow> running b ! j = (i, w, p) \<Longrightarrow>
    prog_step L kc (d, st) (w_view w) p = ((d', st'), v', p') \<Longrightarrow>
    batch_step L kc kv ((d, st, pend), b)
      ((d', st', pend), b\<lparr>running := (running b)[j := (i, w\<lparr>w_view := v'\<rparr>, p')]\<rparr>)"
| Done: "running b = rs @ (i, w, Return r) # rs' \<Longrightarrow>
    batch_step L kc kv (cfg, b)
      (cfg, b\<lparr>running := rs @ rs', results := (results b)(i \<mapsto> r), free := free b @ [w]\<rparr>)"
| Store: "mem_step L kc kv cfg (MCommit x) cfg' \<Longrightarrow> batch_step L kc kv (cfg, b) (cfg', b)"

definition batch_done :: "('c, 'r) batch_run \<Rightarrow> bool" where
  "batch_done b \<longleftrightarrow> todo b = [] \<and> running b = []"

abbreviation batch_runs where
  "batch_runs L kc kv \<equiv> (batch_step L kc kv)\<^sup>*\<^sup>*"

subsection \<open>The loop of \<^verbatim>\<open>Execute\<close>\<close>

text \<open>
  Between the end of a batch and the look at the tip hash, anything may happen to the state: a run of
  events, each allowed by \<open>G\<close>.
\<close>

inductive writer_run ::
  "'e lmdb_ops \<Rightarrow> (bytes \<Rightarrow> hash) \<Rightarrow> ('e \<Rightarrow> bytes \<rightharpoonup> bytes) \<Rightarrow> ('e mem_config \<Rightarrow> mem_event \<Rightarrow> bool)
     \<Rightarrow> 'e mem_config \<Rightarrow> 'e mem_config \<Rightarrow> bool"
  for L kc kv G where
  Refl: "writer_run L kc kv G c c"
| Step: "writer_run L kc kv G c c1 \<Longrightarrow> G c1 ev \<Longrightarrow> mem_step L kc kv c1 ev c2 \<Longrightarrow> writer_run L kc kv G c c2"

abbreviation config_tip :: "'e mem_config \<Rightarrow> hash" where
  "config_tip c \<equiv> tip (fst (snd c))"

inductive execute ::
  "'e lmdb_ops \<Rightarrow> (bytes \<Rightarrow> hash) \<Rightarrow> ('e \<Rightarrow> bytes \<rightharpoonup> bytes) \<Rightarrow> ('e mem_config \<Rightarrow> mem_event \<Rightarrow> bool)
     \<Rightarrow> 'c list \<Rightarrow> 'e mem_config \<times> ('c, 'r) engine \<Rightarrow> 'e mem_config \<times> ('c, 'r) engine
     \<Rightarrow> (nat \<rightharpoonup> 'r) \<Rightarrow> bool"
  for L kc kv G calls where
  Fresh: "batch_runs L kc kv (cfg, start_batch e calls) (cfg1, b) \<Longrightarrow> batch_done b \<Longrightarrow>
    writer_run L kc kv G cfg1 cfg2 \<Longrightarrow> config_tip cfg2 = config_tip cfg \<Longrightarrow>
    execute L kc kv G calls (cfg, e) (cfg2, e\<lparr>pool := free b\<rparr>) (results b)"
| Stale: "batch_runs L kc kv (cfg, start_batch e calls) (cfg1, b) \<Longrightarrow> batch_done b \<Longrightarrow>
    writer_run L kc kv G cfg1 cfg2 \<Longrightarrow> config_tip cfg2 \<noteq> config_tip cfg \<Longrightarrow>
    execute L kc kv G calls (cfg2, e\<lparr>pool := free b, requeues := requeues e + 1\<rparr>) out res \<Longrightarrow>
    execute L kc kv G calls (cfg, e) out res"

subsection \<open>What a program answers in a world\<close>

inductive outcome ::
  "(bytes \<Rightarrow> hash) \<Rightarrow> world \<Rightarrow> hash \<times> u64 \<times> u64 \<Rightarrow> (address \<rightharpoonup> u256) \<Rightarrow> (skey \<rightharpoonup> hash) \<Rightarrow> 'r prog \<Rightarrow> 'r \<Rightarrow> bool"
  for kc w ti where
  Return: "outcome kc w ti bal slt (Return r) r"
| GetAcct: "outcome kc w ti bal slt (k (Inr (acct_res (w_acct w a)))) r \<Longrightarrow> outcome kc w ti bal slt (GetAcct a k) r"
| GetBal: "outcome kc w ti bal slt
      (k (Inr (case bal a of Some b \<Rightarrow> b | None \<Rightarrow> Balance (fst (acct_res (w_acct w a)))))) r \<Longrightarrow>
    outcome kc w ti bal slt (GetBal a k) r"
| GetSlt: "outcome kc w ti bal slt
      (k (Inr (case slt (a, s) of Some x \<Rightarrow> x | None \<Rightarrow> w_slot w a s))) r \<Longrightarrow>
    outcome kc w ti bal slt (GetSlt a s k) r"
| GetCod: "code_answer kc h c \<Longrightarrow> outcome kc w ti bal slt (k c) r \<Longrightarrow> outcome kc w ti bal slt (GetCod h k) r"
| GetTip: "outcome kc w ti bal slt (k ti) r \<Longrightarrow> outcome kc w ti bal slt (GetTip k) r"
| PutBal: "outcome kc w ti (bal(a \<mapsto> b)) slt p r \<Longrightarrow> outcome kc w ti bal slt (PutBal a b p) r"
| PutSlt: "outcome kc w ti bal (slt((a, s) \<mapsto> x)) p r \<Longrightarrow> outcome kc w ti bal slt (PutSlt a s x p) r"

inductive_simps outcome_simps:
  "outcome kc w ti bal slt (Return x) r"
  "outcome kc w ti bal slt (GetAcct a k) r"
  "outcome kc w ti bal slt (GetBal a k) r"
  "outcome kc w ti bal slt (GetSlt a s k) r"
  "outcome kc w ti bal slt (GetCod h k) r"
  "outcome kc w ti bal slt (GetTip k) r"
  "outcome kc w ti bal slt (PutBal a b p) r"
  "outcome kc w ti bal slt (PutSlt a s x p) r"

text \<open>Between configurations that a batch cannot tell apart.\<close>

definition same_tip ::
  "(bytes \<Rightarrow> hash) \<Rightarrow> ('e \<Rightarrow> bytes \<rightharpoonup> bytes) \<Rightarrow> u64 \<Rightarrow> 'e mem_config \<Rightarrow> 'e mem_config \<Rightarrow> bool" where
  "same_tip kc kv S c c' \<longleftrightarrow>
     config_ok kc kv S c' \<and> config_world kc kv c' = config_world kc kv c
     \<and> TipInfo (fst (snd c')) = TipInfo (fst (snd c))
     \<and> layers (fst (snd c')) = layers (fst (snd c))
     \<and> length (buffers (fst (snd c'))) = length (buffers (fst (snd c)))"

lemma TipInfo_buffers [simp]: "TipInfo (s\<lparr>buffers := x\<rparr>) = TipInfo s"
  by (simp add: TipInfo_def)

lemma same_tip_trans: "same_tip kc kv S a b \<Longrightarrow> same_tip kc kv S b c \<Longrightarrow> same_tip kc kv S a c"
  by (simp add: same_tip_def)

context healthy_lmdb
begin

lemma View_reads:
  assumes ok: "config_ok kc kv S (d, st, p)" and i: "v_sb v < length (buffers st)"
  shows "View_Account L kc (d, st) v a = ((d', st'), r) \<Longrightarrow>
      same_tip kc kv S (d, st, p) (d', st', p) \<and> r = Inr (acct_res (w_acct (config_world kc kv (d, st, p)) a))"
    and "View_Balance L kc (d, st) v a = ((d', st'), r1) \<Longrightarrow>
      same_tip kc kv S (d, st, p) (d', st', p) \<and> r1 = Inr (case v_balances v a of Some b \<Rightarrow> b
        | None \<Rightarrow> Balance (fst (acct_res (w_acct (config_world kc kv (d, st, p)) a))))"
    and "View_Slot L kc (d, st) v a s = ((d', st'), r2) \<Longrightarrow>
      same_tip kc kv S (d, st, p) (d', st', p) \<and> r2 = Inr (case v_slots v (a, s) of Some x \<Rightarrow> x
        | None \<Rightarrow> w_slot (config_world kc kv (d, st, p)) a s)"
    and "View_Code L (d, st) v h = ((d', st'), r3) \<Longrightarrow>
      same_tip kc kv S (d, st, p) (d', st', p) \<and> code_answer kc h r3"
proof -
  note rd = config_read [OF ok i]
  have acct: "same_tip kc kv S (d, st, p) (d', st', p)
      \<and> r = Inr (acct_res (w_acct (config_world kc kv (d, st, p)) a))"
    if "View_Account L kc (d, st) v a = ((d', st'), r)" for r
    using that rd(1) by (auto simp: View_Account_def same_tip_def split: prod.splits)
  then show "View_Account L kc (d, st) v a = ((d', st'), r) \<Longrightarrow>
      same_tip kc kv S (d, st, p) (d', st', p) \<and> r = Inr (acct_res (w_acct (config_world kc kv (d, st, p)) a))" .
  show "View_Balance L kc (d, st) v a = ((d', st'), r1) \<Longrightarrow>
      same_tip kc kv S (d, st, p) (d', st', p) \<and> r1 = Inr (case v_balances v a of Some b \<Rightarrow> b
        | None \<Rightarrow> Balance (fst (acct_res (w_acct (config_world kc kv (d, st, p)) a))))"
    using acct ok
    by (cases "acct_res (w_acct (config_world kc kv (d, st, p)) a)")
      (auto simp: View_Balance_def same_tip_def split: option.splits prod.splits sum.splits)
  show "View_Slot L kc (d, st) v a s = ((d', st'), r2) \<Longrightarrow>
      same_tip kc kv S (d, st, p) (d', st', p) \<and> r2 = Inr (case v_slots v (a, s) of Some x \<Rightarrow> x
        | None \<Rightarrow> w_slot (config_world kc kv (d, st, p)) a s)"
    using rd(2) ok by (auto simp: View_Slot_def same_tip_def split: option.splits prod.splits)
  show "View_Code L (d, st) v h = ((d', st'), r3) \<Longrightarrow>
      same_tip kc kv S (d, st, p) (d', st', p) \<and> code_answer kc h r3"
    using rd(3) by (auto simp: View_Code_def same_tip_def split: prod.splits)
qed

lemma prog_step_ok:
  assumes ok: "config_ok kc kv S (d, st, p)" and i: "v_sb v < length (buffers st)"
    and st: "prog_step L kc (d, st) v q = ((d', st'), v', q')"
  shows "same_tip kc kv S (d, st, p) (d', st', p) \<and> v_sb v' = v_sb v
    \<and> (outcome kc (config_world kc kv (d, st, p)) (TipInfo st) (v_balances v') (v_slots v') q' r \<longrightarrow>
       outcome kc (config_world kc kv (d, st, p)) (TipInfo st) (v_balances v) (v_slots v) q r)"
proof -
  note rd = View_reads [OF ok i]
  have refl: "same_tip kc kv S (d, st, p) (d, st, p)" using ok by (simp add: same_tip_def)
  show ?thesis
  proof (cases q)
    case (GetAcct a k)
    with st rd(1) [of a d' st'] show ?thesis by (auto intro: outcome.intros split: prod.splits)
  next
    case (GetBal a k)
    with st rd(2) [of a d' st'] show ?thesis by (auto intro: outcome.intros split: prod.splits)
  next
    case (GetSlt a s k)
    with st rd(3) [of a s d' st'] show ?thesis by (auto intro: outcome.intros split: prod.splits)
  next
    case (GetCod h k)
    with st rd(4) [of h d' st'] show ?thesis by (auto intro: outcome.intros split: prod.splits)
  next
    case (GetTip k)
    with st refl show ?thesis by (auto simp: View_TipInfo_def intro: outcome.intros)
  qed (use st refl in \<open>auto simp: View_SetBalance_def View_SetSlot_def intro: outcome.intros\<close>)
qed

end

subsection \<open>The invariant of a batch\<close>

text \<open>
  Every call is waiting, running or answered; what a running program can still answer, and what has
  been answered, is an outcome of the call; and every worker keeps a side buffer of its own.
\<close>

definition task_ok ::
  "(bytes \<Rightarrow> hash) \<Rightarrow> world \<Rightarrow> hash \<times> u64 \<times> u64 \<Rightarrow> ('c \<Rightarrow> 'r prog) set \<Rightarrow> 'c list
     \<Rightarrow> nat \<times> ('c, 'r) worker \<times> 'r prog \<Rightarrow> bool" where
  "task_ok kc w ti xs calls t \<longleftrightarrow>
     (case t of (i, wk, q) \<Rightarrow> i < length calls \<and> ex wk \<in> xs
        \<and> (\<forall>r. outcome kc w ti (v_balances (w_view wk)) (v_slots (w_view wk)) q r \<longrightarrow>
               outcome kc w ti Map.empty Map.empty (ex wk (calls ! i)) r))"

definition answered ::
  "(bytes \<Rightarrow> hash) \<Rightarrow> world \<Rightarrow> hash \<times> u64 \<times> u64 \<Rightarrow> ('c \<Rightarrow> 'r prog) set \<Rightarrow> 'c list \<Rightarrow> nat \<Rightarrow> 'r \<Rightarrow> bool" where
  "answered kc w ti xs calls i r \<longleftrightarrow>
     i < length calls \<and> (\<exists>x \<in> xs. outcome kc w ti Map.empty Map.empty (x (calls ! i)) r)"

abbreviation sb_of :: "('c, 'r) worker \<Rightarrow> nat" where
  "sb_of wk \<equiv> v_sb (w_view wk)"

definition batch_workers :: "('c, 'r) batch_run \<Rightarrow> ('c, 'r) worker list" where
  "batch_workers b = free b @ map (\<lambda>t. fst (snd t)) (running b)"

definition pool_ok :: "nat \<Rightarrow> ('c \<Rightarrow> 'r prog) set \<Rightarrow> ('c, 'r) worker list \<Rightarrow> bool" where
  "pool_ok n xs ws \<longleftrightarrow>
     distinct (map sb_of ws) \<and> (\<forall>wk \<in> set ws. sb_of wk < n \<and> ex wk \<in> xs)"

definition batch_inv ::
  "(bytes \<Rightarrow> hash) \<Rightarrow> world \<Rightarrow> hash \<times> u64 \<times> u64 \<Rightarrow> nat \<Rightarrow> nat multiset \<Rightarrow> ('c \<Rightarrow> 'r prog) set \<Rightarrow> 'c list
     \<Rightarrow> ('c, 'r) batch_run \<Rightarrow> bool" where
  "batch_inv kc w ti n ids xs calls b \<longleftrightarrow>
     (\<forall>(i, c) \<in> set (todo b). i < length calls \<and> c = calls ! i)
     \<and> (\<forall>t \<in> set (running b). task_ok kc w ti xs calls t)
     \<and> (\<forall>i r. results b i = Some r \<longrightarrow> answered kc w ti xs calls i r)
     \<and> {..<length calls} \<subseteq> fst ` set (todo b) \<union> fst ` set (running b) \<union> dom (results b)
     \<and> mset (map sb_of (batch_workers b)) = ids
     \<and> pool_ok n xs (batch_workers b)"


lemma pool_ok_cong:
  assumes "mset (map (\<lambda>wk. (sb_of wk, ex wk)) ws') = mset (map (\<lambda>wk. (sb_of wk, ex wk)) ws)"
  shows "pool_ok n xs ws' \<longleftrightarrow> pool_ok n xs ws" and "mset (map sb_of ws') = mset (map sb_of ws)"
proof -
  have m: "mset (map sb_of us) = image_mset fst (mset (map (\<lambda>wk. (sb_of wk, ex wk)) us))" for us :: "('a, 'b) worker list"
    by (simp add: image_mset.compositionality comp_def)
  have a: "(\<forall>wk \<in> set us. sb_of wk < n \<and> ex wk \<in> xs) \<longleftrightarrow>
      (\<forall>x \<in># mset (map (\<lambda>wk. (sb_of wk, ex wk)) us). fst x < n \<and> snd x \<in> xs)" for us
    by simp
  show ids: "mset (map sb_of ws') = mset (map sb_of ws)" unfolding m assms ..
  from mset_eq_imp_distinct_iff [OF this] show "pool_ok n xs ws' \<longleftrightarrow> pool_ok n xs ws"
    unfolding pool_ok_def a assms by simp
qed

lemma batch_inv_Spawn:
  assumes inv: "batch_inv kc w ti n ids xs calls b" and b: "todo b = (i, c) # cs" "free b = wk # ws"
  shows "batch_inv kc w ti n ids xs calls (b\<lparr>todo := cs, free := ws,
    running := running b @ [(i, wk\<lparr>w_view := view_reset (w_view wk)\<rparr>, ex wk c)]\<rparr>)"
proof -
  let ?b = "b\<lparr>todo := cs, free := ws,
    running := running b @ [(i, wk\<lparr>w_view := view_reset (w_view wk)\<rparr>, ex wk c)]\<rparr>"
  have "mset (map (\<lambda>wk. (sb_of wk, ex wk)) (batch_workers ?b))
      = mset (map (\<lambda>wk. (sb_of wk, ex wk)) (batch_workers b))"
    by (simp add: batch_workers_def b view_reset_def)
  note pool = pool_ok_cong [OF this]
  have ex: "ex wk \<in> xs" using inv b by (simp add: batch_inv_def pool_ok_def batch_workers_def)
  have "task_ok kc w ti xs calls (i, wk\<lparr>w_view := view_reset (w_view wk)\<rparr>, ex wk c)"
    using inv b ex by (simp add: batch_inv_def task_ok_def view_reset_def)
  then show ?thesis
    using inv b unfolding batch_inv_def pool by auto
qed

lemma batch_inv_Exec:
  assumes inv: "batch_inv kc w ti n ids xs calls b" and j: "j < length (running b)" "running b ! j = (i, wk, q)"
    and v: "v_sb v' = sb_of wk"
    and q: "\<And>r. outcome kc w ti (v_balances v') (v_slots v') q' r \<Longrightarrow>
      outcome kc w ti (v_balances (w_view wk)) (v_slots (w_view wk)) q r"
  shows "batch_inv kc w ti n ids xs calls (b\<lparr>running := (running b)[j := (i, wk\<lparr>w_view := v'\<rparr>, q')]\<rparr>)"
proof -
  let ?t = "(i, wk\<lparr>w_view := v'\<rparr>, q')" and ?b = "b\<lparr>running := (running b)[j := (i, wk\<lparr>w_view := v'\<rparr>, q')]\<rparr>"
  have upd: "map f ((running b)[j := ?t]) = map f (running b)" if "f ?t = f (running b ! j)" for f :: "_ \<Rightarrow> 'z"
    using j that by (simp add: map_update list_update_same_conv)
  have "mset (map (\<lambda>wk. (sb_of wk, ex wk)) (batch_workers ?b))
      = mset (map (\<lambda>wk. (sb_of wk, ex wk)) (batch_workers b))"
    using upd [of "\<lambda>t. (sb_of (fst (snd t)), ex (fst (snd t)))"] j v by (simp add: batch_workers_def comp_def)
  note pool = pool_ok_cong [OF this]
  from j have mem: "(i, wk, q) \<in> set (running b)" by (metis nth_mem)
  have "task_ok kc w ti xs calls ?t"
    using inv mem q by (fastforce simp: batch_inv_def task_ok_def)
  then have "\<forall>t \<in> set (running ?b). task_ok kc w ti xs calls t"
    using inv set_update_subset_insert [of "running b" j ?t] by (auto simp: batch_inv_def)
  moreover have "fst ` set (running ?b) = fst ` set (running b)"
    using upd [of fst] j by (simp flip: set_map)
  ultimately show ?thesis using inv unfolding batch_inv_def pool by simp
qed

lemma batch_inv_Done:
  assumes inv: "batch_inv kc w ti n ids xs calls b" and r: "running b = rs @ (i, wk, Return r) # rs'"
  shows "batch_inv kc w ti n ids xs calls
    (b\<lparr>running := rs @ rs', results := (results b)(i \<mapsto> r), free := free b @ [wk]\<rparr>)"
proof -
  let ?b = "b\<lparr>running := rs @ rs', results := (results b)(i \<mapsto> r), free := free b @ [wk]\<rparr>"
  have "mset (map (\<lambda>wk. (sb_of wk, ex wk)) (batch_workers ?b))
      = mset (map (\<lambda>wk. (sb_of wk, ex wk)) (batch_workers b))"
    by (simp add: batch_workers_def r)
  note pool = pool_ok_cong [OF this]
  have "task_ok kc w ti xs calls (i, wk, Return r)" using inv r by (simp add: batch_inv_def)
  then have "answered kc w ti xs calls i r"
    by (auto simp: task_ok_def answered_def intro: outcome.Return)
  then show ?thesis using inv unfolding batch_inv_def pool r by auto
qed

context healthy_lmdb
begin

lemma batch_step_ok:
  assumes "batch_step L kc kv (cfg, b) (cfg', b')" and ok: "config_ok kc kv S cfg"
    and inv: "batch_inv kc (config_world kc kv cfg) (TipInfo (fst (snd cfg)))
      (length (buffers (fst (snd cfg)))) ids xs calls b"
  shows "same_tip kc kv S cfg cfg' \<and> batch_inv kc (config_world kc kv cfg) (TipInfo (fst (snd cfg)))
      (length (buffers (fst (snd cfg)))) ids xs calls b'"
  using assms(1)
proof cases
  case (Exec j i wk q d st d' st' v' q' pend)
  from nth_mem [OF Exec(4)] have "wk \<in> set (batch_workers b)" by (force simp: batch_workers_def Exec(5))
  with inv Exec have sb: "sb_of wk < length (buffers st)" by (simp add: batch_inv_def pool_ok_def)
  note step = prog_step_ok [OF ok [unfolded Exec(1)] sb Exec(6)]
  with batch_inv_Exec [OF inv Exec(4,5), of v' q'] Exec show ?thesis by simp
next
  case (Store x)
  from mem_step_ok [OF ok Store(2)] have "config_ok kc kv S cfg'" "config_world kc kv cfg' = config_world kc kv cfg"
    by simp_all
  moreover from Store(2) have "fst (snd cfg') = fst (snd cfg)" by cases simp
  ultimately show ?thesis using inv Store by (simp add: same_tip_def)
next
  case (Spawn i c cs w ws)
  with batch_inv_Spawn [OF inv Spawn(3,4)] ok show ?thesis by (simp add: same_tip_def)
next
  case (Done rs i w r rs')
  with batch_inv_Done [OF inv Done(3)] ok show ?thesis by (simp add: same_tip_def)
qed

lemma batch_runs_ok:
  assumes "batch_runs L kc kv (cfg, b) (cfg', b')" and ok: "config_ok kc kv S cfg"
    and inv: "batch_inv kc (config_world kc kv cfg) (TipInfo (fst (snd cfg)))
      (length (buffers (fst (snd cfg)))) ids xs calls b"
  shows "same_tip kc kv S cfg cfg' \<and> batch_inv kc (config_world kc kv cfg) (TipInfo (fst (snd cfg)))
      (length (buffers (fst (snd cfg)))) ids xs calls b'"
  using assms(1)
proof (induction rule: rtranclp_induct2)
  case refl
  with ok inv show ?case by (simp add: same_tip_def)
next
  case (step cfg1 b1 cfg2 b2)
  then have t: "same_tip kc kv S cfg cfg1" by simp
  with step batch_step_ok [OF step(2), of S ids xs calls] have "same_tip kc kv S cfg1 cfg2"
      "batch_inv kc (config_world kc kv cfg) (TipInfo (fst (snd cfg)))
        (length (buffers (fst (snd cfg)))) ids xs calls b2"
    by (simp_all add: same_tip_def)
  with same_tip_trans [OF t] show ?case by simp
qed

end

lemma batch_inv_start:
  assumes "pool_ok n xs (pool e)"
  shows "batch_inv kc w ti n (mset (map sb_of (pool e))) xs calls (start_batch e calls)"
proof -
  have "\<forall>(i, c) \<in> set (enumerate 0 calls). i < length calls \<and> c = calls ! i"
    by (auto simp: in_set_enumerate_eq)
  moreover have "{..<length calls} \<subseteq> fst ` set (enumerate 0 calls)"
    by (metis list.set_map map_fst_enumerate set_upt atLeast0LessThan plus_nat.add_0 order_refl)
  ultimately show ?thesis using assms by (simp add: batch_inv_def start_batch_def batch_workers_def)
qed

context healthy_lmdb
begin

text \<open>The results of a finished batch, and the pool it hands back.\<close>

lemma batch_results:
  assumes "config_ok kc kv S cfg" and "pool_ok (length (buffers (fst (snd cfg)))) xs (pool e)"
    and "batch_runs L kc kv (cfg, start_batch e calls) (cfg', b)" and "batch_done b"
  shows "same_tip kc kv S cfg cfg'
    \<and> (\<forall>i < length calls. \<exists>r. results b i = Some r
         \<and> answered kc (config_world kc kv cfg) (TipInfo (fst (snd cfg))) xs calls i r)
    \<and> pool_ok (length (buffers (fst (snd cfg)))) xs (free b)
    \<and> mset (map sb_of (free b)) = mset (map sb_of (pool e))"
proof -
  note inv = batch_runs_ok [OF assms(3,1) batch_inv_start [OF assms(2)]]
  with assms(4) have fin: "{..<length calls} \<subseteq> dom (results b)" "batch_workers b = free b"
    by (simp_all add: batch_inv_def batch_done_def batch_workers_def)
  show ?thesis
  proof (intro conjI allI impI)
    fix i
    assume "i < length calls"
    with fin obtain r where "results b i = Some r" by blast
    moreover with inv have "answered kc (config_world kc kv cfg) (TipInfo (fst (snd cfg))) xs calls i r"
      unfolding batch_inv_def by blast
    ultimately show "\<exists>r. results b i = Some r
        \<and> answered kc (config_world kc kv cfg) (TipInfo (fst (snd cfg))) xs calls i r" by blast
  qed (use inv fin in \<open>simp_all add: batch_inv_def\<close>)
qed

text \<open>During a batch no two goroutines share a side buffer.\<close>

lemma batch_exclusive:
  assumes "config_ok kc kv S cfg" and "pool_ok (length (buffers (fst (snd cfg)))) xs (pool e)"
    and "batch_runs L kc kv (cfg, start_batch e calls) (cfg', b)"
  shows "distinct (map (\<lambda>t. sb_of (fst (snd t))) (running b))"
  using batch_runs_ok [OF assms(3,1) batch_inv_start [OF assms(2)]]
  by (simp add: batch_inv_def pool_ok_def batch_workers_def comp_def)

lemma batch_workers_count:
  assumes "config_ok kc kv S cfg" and "pool_ok (length (buffers (fst (snd cfg)))) xs (pool e)"
    and "batch_runs L kc kv (cfg, start_batch e calls) (cfg', b)"
  shows "length (batch_workers b) = length (pool e)"
proof -
  from batch_runs_ok [OF assms(3,1) batch_inv_start [OF assms(2)]]
  have "mset (map sb_of (batch_workers b)) = mset (map sb_of (pool e))" by (simp add: batch_inv_def)
  then show ?thesis by (metis length_map mset_eq_length)
qed

end


subsection \<open>A batch can always finish\<close>

text \<open>Running the program of one goroutine to its end, from its next step on.\<close>

definition task_ends where
  "task_ends L kc kv b rs i rs' cfg w q \<longleftrightarrow>
     (\<exists>cfg' w' r. batch_runs L kc kv (cfg, b\<lparr>running := rs @ (i, w, q) # rs'\<rparr>)
        (cfg', b\<lparr>running := rs @ (i, w', Return r) # rs'\<rparr>))"

lemma task_ends_step:
  assumes "\<And>d' st' v' q'. prog_step L kc (fst cfg, fst (snd cfg)) (w_view w) q = ((d', st'), v', q') \<Longrightarrow>
      task_ends L kc kv b rs i rs' (d', st', snd (snd cfg)) (w\<lparr>w_view := v'\<rparr>) q'"
  shows "task_ends L kc kv b rs i rs' cfg w q"
proof -
  obtain d st p where cfg: "cfg = (d, st, p)" by (cases cfg)
  obtain d' st' v' q' where q: "prog_step L kc (d, st) (w_view w) q = ((d', st'), v', q')"
    by (metis prod.collapse)
  have "batch_step L kc kv (cfg, b\<lparr>running := rs @ (i, w, q) # rs'\<rparr>)
      ((d', st', p), b\<lparr>running := rs @ (i, w\<lparr>w_view := v'\<rparr>, q') # rs'\<rparr>)"
    using batch_step.Exec [of "length rs" "b\<lparr>running := rs @ (i, w, q) # rs'\<rparr>" i w q L kc d st d' st' v' q' kv p] q cfg
    by simp
  moreover from assms q cfg have "task_ends L kc kv b rs i rs' (d', st', p) (w\<lparr>w_view := v'\<rparr>) q'" by simp
  ultimately show ?thesis
    unfolding task_ends_def by (meson converse_rtranclp_into_rtranclp)
qed

lemma run_task: "task_ends L kc kv b rs i rs' cfg w q"
proof (induction q arbitrary: cfg w)
  case (Return r)
  then show ?case unfolding task_ends_def by blast
qed (rule task_ends_step, auto split: prod.splits)+

lemma drain_running:
  "\<exists>cfg' b'. batch_runs L kc kv (cfg, b) (cfg', b') \<and> running b' = [] \<and> todo b' = todo b
     \<and> length (batch_workers b') = length (batch_workers b)"
proof (induction "running b" arbitrary: cfg b)
  case Nil
  then show ?case by (metis rtranclp.rtrancl_refl)
next
  case (Cons t rs)
  obtain i w q where t: "t = (i, w, q)" by (cases t)
  have b: "b = b\<lparr>running := [] @ (i, w, q) # rs\<rparr>" using Cons(2) t by simp
  from run_task [of L kc kv b "[]" i rs cfg w q] obtain cfg1 w1 r
    where r1: "batch_runs L kc kv (cfg, b) (cfg1, b\<lparr>running := (i, w1, Return r) # rs\<rparr>)"
    unfolding task_ends_def by (metis append_Nil b)
  let ?b = "b\<lparr>running := rs, results := (results b)(i \<mapsto> r), free := free b @ [w1]\<rparr>"
  have "batch_step L kc kv (cfg1, b\<lparr>running := (i, w1, Return r) # rs\<rparr>) (cfg1, ?b)"
    using batch_step.Done [of "b\<lparr>running := (i, w1, Return r) # rs\<rparr>" "[]" i w1 r rs L kc kv cfg1] by simp
  with r1 have r2: "batch_runs L kc kv (cfg, b) (cfg1, ?b)" by (rule rtranclp.rtrancl_into_rtrancl)
  from Cons(1) [of ?b cfg1] obtain cfg' b' where "batch_runs L kc kv (cfg1, ?b) (cfg', b')" "running b' = []"
      "todo b' = todo b" "length (batch_workers b') = length (batch_workers ?b)" by auto
  moreover have "length (batch_workers ?b) = length (batch_workers b)"
    using Cons(2) by (simp add: batch_workers_def flip: Cons(2))
  ultimately show ?case using rtranclp_trans [OF r2] by metis
qed

lemma batch_can_finish:
  assumes "batch_workers b \<noteq> []"
  shows "\<exists>cfg' b'. batch_runs L kc kv (cfg, b) (cfg', b') \<and> batch_done b'"
  using assms
proof (induction "todo b" arbitrary: cfg b)
  case Nil
  from drain_running [of L kc kv cfg b] obtain cfg' b'
    where "batch_runs L kc kv (cfg, b) (cfg', b')" "running b' = []" "todo b' = todo b" by blast
  with Nil show ?case by (intro exI [of _ cfg'] exI [of _ b']) (simp add: batch_done_def)
next
  case (Cons ic cs)
  obtain i c where ic: "ic = (i, c)" by (cases ic)
  from drain_running [of L kc kv cfg b] obtain cfg1 b1
    where r1: "batch_runs L kc kv (cfg, b) (cfg1, b1)" and b1: "running b1 = []" "todo b1 = (i, c) # cs"
      "length (batch_workers b1) = length (batch_workers b)"
    using Cons(2) ic by metis
  from b1(3) Cons.prems have "batch_workers b1 \<noteq> []" by force
  with b1(1) obtain w ws where f: "free b1 = w # ws" by (auto simp: batch_workers_def neq_Nil_conv)
  let ?b = "b1\<lparr>todo := cs, free := ws,
    running := running b1 @ [(i, w\<lparr>w_view := view_reset (w_view w)\<rparr>, ex w c)]\<rparr>"
  from batch_step.Spawn [OF b1(2) f, of L kc kv cfg1] r1
  have r2: "batch_runs L kc kv (cfg, b) (cfg1, ?b)" by (rule rtranclp.rtrancl_into_rtrancl [rotated])
  have "batch_workers ?b \<noteq> []" by (simp add: batch_workers_def)
  with Cons(1) [of ?b cfg1] rtranclp_trans [OF r2] show ?case by simp blast
qed

subsection \<open>What \<^verbatim>\<open>Execute\<close> returns\<close>

lemma pool_ok_New:
  assumes "engine_New st execs = (st', e)"
  shows "pool_ok (length (buffers st')) (set execs) (pool e)" and "length (pool e) = length execs"
    and "length (buffers st') = length (buffers st) + length execs"
proof -
  have "pool_ok (length (buffers st1)) (X \<union> set xs) ws1 \<and> length ws1 = length ws + length xs
      \<and> length (buffers st1) = length (buffers st) + length xs"
    if "add_workers xs st ws = (st1, ws1)" "pool_ok (length (buffers st)) X ws" for xs st ws st1 ws1 X
    using that
  proof (induction xs arbitrary: st ws X)
    case (Cons x xs)
    have "pool_ok (length (buffers (Register st NewSideBuffer))) (insert x X)
        (ws @ [\<lparr>ex = x, w_view = newView (length (buffers st))\<rparr>])"
      using Cons.prems(2) by (auto simp: pool_ok_def Register_def newView_def)
    with Cons.IH [OF _ this] Cons.prems(1) show ?case by (auto simp: Register_def)
  qed simp
  from this [of execs st "[]" _ _ "{}"] assms
  show "pool_ok (length (buffers st')) (set execs) (pool e)" and "length (pool e) = length execs"
    and "length (buffers st') = length (buffers st) + length execs"
    by (auto simp: engine_New_def pool_ok_def split: prod.splits)
qed

text \<open>
  \<open>post\<close> gives every block its state. A tip is named when the world is the state of the tip hash, and
  an event names the tip it makes when it pushes a block onto its parent's state, or a chain that ends
  in a block with its state.
\<close>

definition tip_named ::
  "(bytes \<Rightarrow> hash) \<Rightarrow> ('e \<Rightarrow> bytes \<rightharpoonup> bytes) \<Rightarrow> (hash \<Rightarrow> world) \<Rightarrow> 'e mem_config \<Rightarrow> bool" where
  "tip_named kc kv post c \<longleftrightarrow>
     config_world kc kv c = post (config_tip c)
     \<and> (layers (fst (snd c)) \<noteq> [] \<longrightarrow> config_tip c = Hash (l_batch (last (layers (fst (snd c))))))"

fun names_tip ::
  "(bytes \<Rightarrow> hash) \<Rightarrow> ('e \<Rightarrow> bytes \<rightharpoonup> bytes) \<Rightarrow> (hash \<Rightarrow> world) \<Rightarrow> 'e mem_config \<Rightarrow> mem_event \<Rightarrow> bool" where
  "names_tip kc kv post c (MApply b) \<longleftrightarrow> post (Hash b) = apply_batch b (config_world kc kv c)"
| "names_tip kc kv post c (MReset bs) \<longleftrightarrow>
     bs \<noteq> [] \<and> post (Hash (last bs)) = apply_chain bs (db_world kc kv (fst c))"
| "names_tip kc kv post c _ \<longleftrightarrow> True"

lemma fold_push_tip: "tip (fold push_layer bs s) = (if bs = [] then tip s else Hash (last bs))"
  by (induction bs arbitrary: s) (simp_all add: push_layer_def)

lemma mem_Finalize_tip:
  assumes "mem_Finalize s block h = (s', None)"
    and "layers s \<noteq> [] \<longrightarrow> tip s = Hash (l_batch (last (layers s)))"
  shows "tip s' = tip s \<and> (layers s' \<noteq> [] \<longrightarrow> tip s' = Hash (l_batch (last (layers s'))))"
  using assms by (auto simp: mem_Finalize_def Let_def split: list.splits if_splits)

context healthy_lmdb
begin

lemma mem_step_named:
  assumes ok: "config_ok kc kv S c" and nm: "tip_named kc kv post c" and g: "names_tip kc kv post c ev"
    and st: "mem_step L kc kv c ev c'"
  shows "tip_named kc kv post c'"
proof -
  from mem_step_ok [OF ok st] have w: "event_ok kc (config_world kc kv c) ev"
      "config_world kc kv c' = event_world (db_world kc kv (fst c)) (config_world kc kv c) ev" by simp_all
  from st show ?thesis
  proof cases
    case (Finalize s b s' r d p)
    with w have r: "mem_Finalize s (Block b) (Hash b) = (s', None)" by simp
    from mem_Finalize_tip [OF r] nm Finalize w show ?thesis by (auto simp: tip_named_def)
  next
    case (Apply d s p b)
    with w g show ?thesis by (simp add: tip_named_def ApplyBlock_def push_layer_def)
  next
    case (Reset bs p rest d s)
    have "tip (mem_PreferenceReset s bs) = Hash (last bs)"
        "layers (mem_PreferenceReset s bs) = map newLayer bs"
      using Reset g by (simp_all add: mem_PreferenceReset_def fold_push_tip fold_push_layers)
    with w g Reset(1,2,3) show ?thesis by (simp add: tip_named_def last_map)
  qed (use nm w in \<open>simp_all add: tip_named_def\<close>)
qed

lemma mem_step_buffers:
  assumes "mem_step L kc kv c ev c'"
  shows "length (buffers (fst (snd c'))) = length (buffers (fst (snd c)))"
  using assms
  by cases (auto simp: ApplyBlock_def push_layer_def mem_PreferenceReset_def fold_push_fields mem_Finalize_def
      Let_def split: list.splits if_splits)

lemma writer_run_named:
  assumes "writer_run L kc kv (names_tip kc kv post) c c'" and "config_ok kc kv S c" and "tip_named kc kv post c"
  shows "config_ok kc kv S c' \<and> tip_named kc kv post c'
    \<and> length (buffers (fst (snd c'))) = length (buffers (fst (snd c)))"
  using assms
proof (induction rule: writer_run.induct)
  case (Step c c1 ev c2)
  then have "config_ok kc kv S c1" "tip_named kc kv post c1"
      "length (buffers (fst (snd c1))) = length (buffers (fst (snd c)))" by simp_all
  with Step.hyps mem_step_ok mem_step_named mem_step_buffers show ?case by metis
qed simp

lemma same_tip_named: "same_tip kc kv S c c' \<Longrightarrow> tip_named kc kv post c \<Longrightarrow> tip_named kc kv post c'"
  by (simp add: same_tip_def tip_named_def TipInfo_def)

text \<open>
  Every result of \<^verbatim>\<open>Execute\<close> is an outcome of its call in the world of the configuration it returns in.
\<close>

lemma execute_current:
  assumes "execute L kc kv (names_tip kc kv post) calls (cfg, e) (cfg', e') res"
    and "config_ok kc kv S cfg" and "tip_named kc kv post cfg"
    and "pool_ok (length (buffers (fst (snd cfg)))) xs (pool e)"
  shows "config_ok kc kv S cfg' \<and> tip_named kc kv post cfg'
    \<and> pool_ok (length (buffers (fst (snd cfg')))) xs (pool e')
    \<and> (\<exists>ti. fst ti = config_tip cfg' \<and>
        (\<forall>i < length calls. \<exists>r. res i = Some r \<and> answered kc (config_world kc kv cfg') ti xs calls i r))"
  using assms
proof (induction "(cfg, e)" "(cfg', e')" res arbitrary: cfg e rule: execute.induct)
  case (Fresh cfg e cfg1 b)
  note br = batch_results [OF Fresh(6,8,1,2)]
  then have st: "same_tip kc kv S cfg cfg1" and ok: "config_ok kc kv S cfg1" by (auto simp: same_tip_def)
  note wr = writer_run_named [OF Fresh(3) ok same_tip_named [OF st Fresh(7)]]
  have "config_world kc kv cfg' = config_world kc kv cfg"
    using wr Fresh(4,7) by (simp add: tip_named_def)
  with wr br Fresh(4,5) show ?case
    by (intro conjI exI [of _ "TipInfo (fst (snd cfg))"]) (auto simp: TipInfo_def same_tip_def)
next
  case (Stale cfg e cfg1 b cfg2 res)
  note br = batch_results [OF Stale(7,9,1,2)]
  then have st: "same_tip kc kv S cfg cfg1" and ok: "config_ok kc kv S cfg1" by (auto simp: same_tip_def)
  note wr = writer_run_named [OF Stale(3) ok same_tip_named [OF st Stale(8)]]
  with br Stale(6) st show ?case by (simp add: same_tip_def)
qed

end

end
