(* ===== verification/SimState.thy ===== *)
theory SimState
  imports Engine
begin

text \<open>
  The journaled overlay of package \<^verbatim>\<open>sim\<close> (\<^verbatim>\<open>src/sim/statedb.go\<close>): the state database one simulated
  call runs against. It reads through the engine's view, an interface here (\<open>view_ops\<close>, with the
  laws \<open>view_contract\<close>), which the views of theory \<open>Engine\<close> provide. A read error does not surface:
  the first one is kept in \<open>readErr\<close> and the machine is cancelled.

  \<open>undoes_exact\<close> is the contract of the journal: whatever was done since a snapshot, nested snapshots
  and reverts included, reverting to it restores the overlay. The lemmas \<open>Get..._ok\<close> say what the
  reads return over a world.
\<close>

subsection \<open>The view as an interface\<close>

record 'v view_ops =
  vw_Account :: "'v \<Rightarrow> address \<Rightarrow> 'v \<times> (error + account \<times> bool)"
  vw_Balance :: "'v \<Rightarrow> address \<Rightarrow> 'v \<times> (error + u256)"
  vw_Slot :: "'v \<Rightarrow> address \<Rightarrow> hash \<Rightarrow> 'v \<times> (error + hash)"
  vw_Code :: "'v \<Rightarrow> hash \<Rightarrow> 'v \<times> (error + bytes)"
  vw_TipInfo :: "'v \<Rightarrow> hash \<times> u64 \<times> u64"

definition engine_view :: "'e lmdb_ops \<Rightarrow> (bytes \<Rightarrow> hash) \<Rightarrow> ('e shared \<times> view) view_ops" where
  "engine_view L kc =
     \<lparr>vw_Account = (\<lambda>(sh, v) a. case View_Account L kc sh v a of (sh', r) \<Rightarrow> ((sh', v), r)),
      vw_Balance = (\<lambda>(sh, v) a. case View_Balance L kc sh v a of (sh', r) \<Rightarrow> ((sh', v), r)),
      vw_Slot = (\<lambda>(sh, v) a s. case View_Slot L kc sh v a s of (sh', r) \<Rightarrow> ((sh', v), r)),
      vw_Code = (\<lambda>(sh, v) h. case View_Code L sh v h of (sh', r) \<Rightarrow> ((sh', v), r)),
      vw_TipInfo = (\<lambda>(sh, v). View_TipInfo sh)\<rparr>"

subsection \<open>State\<close>

text \<open>Bit 0 of the first byte of a slot key is bit 248 of the word.\<close>

definition normSlot :: "hash \<Rightarrow> hash" where
  "normSlot slot = slot AND NOT (push_bit 248 1)"

text \<open>A journal entry carries what the overlay had before: \<open>None\<close> when it had no entry.\<close>

datatype jentry =
    jBalance address "u256 option"
  | jStorage address hash "hash option"
  | jNonce address "u64 option"
  | jCode address
  | jRefund u64
  | jLog
  | jDestruct address
  | jCreated address
  | jTransient address hash "hash option"
  | jALAddr address
  | jALSlot address hash

text \<open>
  The machine of the call is \<open>None\<close> for \<^verbatim>\<open>nil\<close>, and carries the error it was invalidated with. An
  access list entry is \<open>Some None\<close> for a \<^verbatim>\<open>nil\<close> slot map.
\<close>

record ('v, 'l) stateDB =
  sd_view :: 'v
  sd_evm :: "error option option"
  balances :: "address \<rightharpoonup> u256"
  slots :: "skey \<rightharpoonup> hash"
  ovSlots :: "skey \<rightharpoonup> hash"
  nonces :: "address \<rightharpoonup> u64"
  codes :: "address \<rightharpoonup> bytes"
  codeHashes :: "address \<rightharpoonup> hash"
  created :: "address set"
  destructed :: "address set"
  transient :: "skey \<rightharpoonup> hash"
  al :: "address \<rightharpoonup> hash set option"
  refund :: u64
  logs :: "'l list"
  journal :: "jentry list"
  readErr :: "error option"

definition newStateDB :: "'v \<Rightarrow> ('v, 'l) stateDB" where
  "newStateDB v =
     \<lparr>sd_view = v, sd_evm = None, balances = Map.empty, slots = Map.empty, ovSlots = Map.empty,
      nonces = Map.empty, codes = Map.empty, codeHashes = Map.empty, created = {}, destructed = {},
      transient = Map.empty, al = Map.empty, refund = 0, logs = [], journal = [], readErr = None\<rparr>"

text \<open>
  The caller's overrides as the lists that Go's \<^verbatim>\<open>range\<close> visits; keys that normalize alike are
  overwritten in that order.
\<close>

definition seed_slot :: "address \<Rightarrow> hash \<times> hash \<Rightarrow> ('v, 'l) stateDB \<Rightarrow> ('v, 'l) stateDB" where
  "seed_slot addr p s =
     (let k = (addr, normSlot (fst p))
      in s\<lparr>slots := (slots s)(k \<mapsto> snd p), ovSlots := (ovSlots s)(k \<mapsto> snd p)\<rparr>)"

definition sd_reset ::
  "('v, 'l) stateDB \<Rightarrow> 'v \<Rightarrow> (address \<times> u256) list \<Rightarrow> (address \<times> (hash \<times> hash) list) list
     \<Rightarrow> error option option \<Rightarrow> ('v, 'l) stateDB" where
  "sd_reset s v balanceOverrides storageOverrides evm =
     (let s1 = (newStateDB v)\<lparr>sd_evm := evm\<rparr>;
          s2 = fold (\<lambda>(addr, b) s. s\<lparr>balances := (balances s)(addr \<mapsto> b)\<rparr>) balanceOverrides s1
      in fold (\<lambda>(addr, sl) s. fold (seed_slot addr) sl s) storageOverrides s2)"

definition sd_fail :: "('v, 'l) stateDB \<Rightarrow> error \<Rightarrow> ('v, 'l) stateDB" where
  "sd_fail s err =
     (if readErr s = None
      then s\<lparr>readErr := Some err, sd_evm := map_option (\<lambda>_. Some err) (sd_evm s)\<rparr> else s)"

subsection \<open>Underlying reads\<close>

definition sd_account :: "'v view_ops \<Rightarrow> ('v, 'l) stateDB \<Rightarrow> address \<Rightarrow> ('v, 'l) stateDB \<times> account \<times> bool" where
  "sd_account V s addr =
     (case vw_Account V (sd_view s) addr of
        (v, Inl err) \<Rightarrow> (sd_fail (s\<lparr>sd_view := v\<rparr>) err, zero_account, False)
      | (v, Inr r) \<Rightarrow> (s\<lparr>sd_view := v\<rparr>, r))"

definition sd_balance :: "'v view_ops \<Rightarrow> ('v, 'l) stateDB \<Rightarrow> address \<Rightarrow> ('v, 'l) stateDB \<times> u256" where
  "sd_balance V s addr =
     (case balances s addr of
        Some b \<Rightarrow> (s, b)
      | None \<Rightarrow>
          (case vw_Balance V (sd_view s) addr of
             (v, Inl err) \<Rightarrow> (sd_fail (s\<lparr>sd_view := v\<rparr>) err, 0)
           | (v, Inr b) \<Rightarrow> (s\<lparr>sd_view := v\<rparr>, b)))"

definition sd_slot ::
  "'v view_ops \<Rightarrow> ('v, 'l) stateDB \<Rightarrow> address \<Rightarrow> hash \<Rightarrow> ('v, 'l) stateDB \<times> hash" where
  "sd_slot V s addr slot =
     (case vw_Slot V (sd_view s) addr slot of
        (v, Inl err) \<Rightarrow> (sd_fail (s\<lparr>sd_view := v\<rparr>) err, 0)
      | (v, Inr x) \<Rightarrow> (s\<lparr>sd_view := v\<rparr>, x))"

subsection \<open>The journal\<close>

definition log_entry :: "jentry \<Rightarrow> ('v, 'l) stateDB \<Rightarrow> ('v, 'l) stateDB" where
  "log_entry e s = s\<lparr>journal := journal s @ [e]\<rparr>"

definition Snapshot :: "('v, 'l) stateDB \<Rightarrow> nat" where
  "Snapshot s = length (journal s)"

fun undo :: "jentry \<Rightarrow> ('v, 'l) stateDB \<Rightarrow> ('v, 'l) stateDB" where
  "undo (jBalance a p) s = s\<lparr>balances := (balances s)(a := p)\<rparr>"
| "undo (jStorage a k p) s = s\<lparr>slots := (slots s)((a, k) := p)\<rparr>"
| "undo (jNonce a p) s = s\<lparr>nonces := (nonces s)(a := p)\<rparr>"
| "undo (jCode a) s = s\<lparr>codes := (codes s)(a := None), codeHashes := (codeHashes s)(a := None)\<rparr>"
| "undo (jRefund r) s = s\<lparr>refund := r\<rparr>"
| "undo jLog s = s\<lparr>logs := butlast (logs s)\<rparr>"
| "undo (jDestruct a) s = s\<lparr>destructed := destructed s - {a}\<rparr>"
| "undo (jCreated a) s = s\<lparr>created := created s - {a}\<rparr>"
| "undo (jTransient a k p) s = s\<lparr>transient := (transient s)((a, k) := p)\<rparr>"
| "undo (jALAddr a) s = s\<lparr>al := (al s)(a := None)\<rparr>"
| "undo (jALSlot a k) s =
     s\<lparr>al := (al s)(a := map_option (map_option (\<lambda>m. m - {k})) (al s a))\<rparr>"

definition RevertToSnapshot :: "('v, 'l) stateDB \<Rightarrow> nat \<Rightarrow> ('v, 'l) stateDB" where
  "RevertToSnapshot s n =
     (fold undo (rev (drop n (journal s))) s)\<lparr>journal := take n (journal s)\<rparr>"

subsection \<open>Balances, nonces, code\<close>

definition sd_setBalance :: "('v, 'l) stateDB \<Rightarrow> address \<Rightarrow> u256 \<Rightarrow> ('v, 'l) stateDB" where
  "sd_setBalance s addr b =
     (log_entry (jBalance addr (balances s addr)) s)\<lparr>balances := (balances s)(addr \<mapsto> b)\<rparr>"

definition AddBalance :: "'v view_ops \<Rightarrow> ('v, 'l) stateDB \<Rightarrow> address \<Rightarrow> u256 \<Rightarrow> ('v, 'l) stateDB" where
  "AddBalance V s addr amount =
     (case sd_balance V s addr of (s', b) \<Rightarrow> sd_setBalance s' addr (b + amount))"

definition SubBalance :: "'v view_ops \<Rightarrow> ('v, 'l) stateDB \<Rightarrow> address \<Rightarrow> u256 \<Rightarrow> ('v, 'l) stateDB" where
  "SubBalance V s addr amount =
     (case sd_balance V s addr of (s', b) \<Rightarrow> sd_setBalance s' addr (b - amount))"

definition GetNonce :: "'v view_ops \<Rightarrow> ('v, 'l) stateDB \<Rightarrow> address \<Rightarrow> ('v, 'l) stateDB \<times> u64" where
  "GetNonce V s addr =
     (case nonces s addr of
        Some n \<Rightarrow> (s, n)
      | None \<Rightarrow> (case sd_account V s addr of (s', a, _) \<Rightarrow> (s', Nonce a)))"

definition SetNonce :: "('v, 'l) stateDB \<Rightarrow> address \<Rightarrow> u64 \<Rightarrow> ('v, 'l) stateDB" where
  "SetNonce s addr n =
     (log_entry (jNonce addr (nonces s addr)) s)\<lparr>nonces := (nonces s)(addr \<mapsto> n)\<rparr>"

definition GetCodeHash ::
  "'v view_ops \<Rightarrow> (bytes \<Rightarrow> hash) \<Rightarrow> ('v, 'l) stateDB \<Rightarrow> address \<Rightarrow> ('v, 'l) stateDB \<times> hash" where
  "GetCodeHash V kc s addr =
     (case codeHashes s addr of
        Some h \<Rightarrow> (s, h)
      | None \<Rightarrow>
          (case sd_account V s addr of
             (s', a, known) \<Rightarrow>
               (if \<not> known then (s', 0) else if CodeHash a = 0 then (s', kc []) else (s', CodeHash a))))"

definition sd_GetCode ::
  "'v view_ops \<Rightarrow> (bytes \<Rightarrow> hash) \<Rightarrow> ('v, 'l) stateDB \<Rightarrow> address \<Rightarrow> ('v, 'l) stateDB \<times> bytes" where
  "sd_GetCode V kc s addr =
     (case codes s addr of
        Some c \<Rightarrow> (s, c)
      | None \<Rightarrow>
          (case GetCodeHash V kc s addr of
             (s', h) \<Rightarrow>
               (if h = 0 \<or> h = kc [] then (s', [])
                else case vw_Code V (sd_view s') h of
                       (v, Inl err) \<Rightarrow> (sd_fail (s'\<lparr>sd_view := v\<rparr>) err, [])
                     | (v, Inr c) \<Rightarrow> (s'\<lparr>sd_view := v\<rparr>, c))))"

definition GetCodeSize ::
  "'v view_ops \<Rightarrow> (bytes \<Rightarrow> hash) \<Rightarrow> ('v, 'l) stateDB \<Rightarrow> address \<Rightarrow> ('v, 'l) stateDB \<times> nat" where
  "GetCodeSize V kc s addr = (case sd_GetCode V kc s addr of (s', c) \<Rightarrow> (s', length c))"

definition SetCode :: "(bytes \<Rightarrow> hash) \<Rightarrow> ('v, 'l) stateDB \<Rightarrow> address \<Rightarrow> bytes \<Rightarrow> ('v, 'l) stateDB" where
  "SetCode kc s addr c =
     (log_entry (jCode addr) s)\<lparr>codes := (codes s)(addr \<mapsto> c), codeHashes := (codeHashes s)(addr \<mapsto> kc c)\<rparr>"

subsection \<open>Storage\<close>

definition GetState ::
  "'v view_ops \<Rightarrow> ('v, 'l) stateDB \<Rightarrow> address \<Rightarrow> hash \<Rightarrow> ('v, 'l) stateDB \<times> hash" where
  "GetState V s addr slot =
     (case slots s (addr, normSlot slot) of
        Some v \<Rightarrow> (s, v)
      | None \<Rightarrow> sd_slot V s addr (normSlot slot))"

definition GetCommittedState ::
  "'v view_ops \<Rightarrow> ('v, 'l) stateDB \<Rightarrow> address \<Rightarrow> hash \<Rightarrow> ('v, 'l) stateDB \<times> hash" where
  "GetCommittedState V s addr slot =
     (case ovSlots s (addr, normSlot slot) of
        Some v \<Rightarrow> (s, v)
      | None \<Rightarrow> sd_slot V s addr (normSlot slot))"

definition SetState :: "('v, 'l) stateDB \<Rightarrow> address \<Rightarrow> hash \<Rightarrow> hash \<Rightarrow> ('v, 'l) stateDB" where
  "SetState s addr slot val =
     (let k = (addr, normSlot slot)
      in (log_entry (jStorage addr (normSlot slot) (slots s k)) s)\<lparr>slots := (slots s)(k \<mapsto> val)\<rparr>)"

definition GetTransientState :: "('v, 'l) stateDB \<Rightarrow> address \<Rightarrow> hash \<Rightarrow> hash" where
  "GetTransientState s addr slot = (case transient s (addr, slot) of Some v \<Rightarrow> v | None \<Rightarrow> 0)"

definition SetTransientState :: "('v, 'l) stateDB \<Rightarrow> address \<Rightarrow> hash \<Rightarrow> hash \<Rightarrow> ('v, 'l) stateDB" where
  "SetTransientState s addr slot val =
     (log_entry (jTransient addr slot (transient s (addr, slot))) s)
       \<lparr>transient := (transient s)((addr, slot) \<mapsto> val)\<rparr>"

subsection \<open>Account lifecycle\<close>

definition CreateAccount :: "('v, 'l) stateDB \<Rightarrow> address \<Rightarrow> ('v, 'l) stateDB" where
  "CreateAccount s addr =
     (if addr \<in> created s then s
      else (log_entry (jCreated addr) s)\<lparr>created := insert addr (created s)\<rparr>)"

definition SelfDestruct :: "('v, 'l) stateDB \<Rightarrow> address \<Rightarrow> ('v, 'l) stateDB" where
  "SelfDestruct s addr =
     sd_setBalance
       (if addr \<in> destructed s then s
        else (log_entry (jDestruct addr) s)\<lparr>destructed := insert addr (destructed s)\<rparr>) addr 0"

definition HasSelfDestructed :: "('v, 'l) stateDB \<Rightarrow> address \<Rightarrow> bool" where
  "HasSelfDestructed s addr \<longleftrightarrow> addr \<in> destructed s"

definition Selfdestruct6780 :: "('v, 'l) stateDB \<Rightarrow> address \<Rightarrow> ('v, 'l) stateDB" where
  "Selfdestruct6780 s addr = (if addr \<in> created s then SelfDestruct s addr else s)"

definition Exist :: "'v view_ops \<Rightarrow> ('v, 'l) stateDB \<Rightarrow> address \<Rightarrow> ('v, 'l) stateDB \<times> bool" where
  "Exist V s addr =
     (if addr \<in> created s then (s, True)
      else if addr \<in> destructed s then (s, True)
      else if balances s addr \<noteq> None then (s, True)
      else if nonces s addr \<noteq> None then (s, True)
      else case sd_account V s addr of (s', _, known) \<Rightarrow> (s', known))"

definition Empty ::
  "'v view_ops \<Rightarrow> (bytes \<Rightarrow> hash) \<Rightarrow> ('v, 'l) stateDB \<Rightarrow> address \<Rightarrow> ('v, 'l) stateDB \<times> bool" where
  "Empty V kc s addr =
     (case GetNonce V s addr of
        (s1, n) \<Rightarrow>
          (if n \<noteq> 0 then (s1, False)
           else case sd_balance V s1 addr of
                  (s2, b) \<Rightarrow>
                    (if b \<noteq> 0 then (s2, False)
                     else case GetCodeHash V kc s2 addr of (s3, h) \<Rightarrow> (s3, h = 0 \<or> h = kc []))))"

subsection \<open>Refunds, logs, access list\<close>

definition AddRefund :: "('v, 'l) stateDB \<Rightarrow> u64 \<Rightarrow> ('v, 'l) stateDB" where
  "AddRefund s gas = (log_entry (jRefund (refund s)) s)\<lparr>refund := refund s + gas\<rparr>"

definition SubRefund :: "('v, 'l) stateDB \<Rightarrow> u64 \<Rightarrow> ('v, 'l) stateDB" where
  "SubRefund s gas =
     (let s1 = log_entry (jRefund (refund s)) s
      in if refund s < gas then sd_fail s1 ErrRefundUnderflow else s1\<lparr>refund := refund s - gas\<rparr>)"

definition AddLog :: "('v, 'l) stateDB \<Rightarrow> 'l \<Rightarrow> ('v, 'l) stateDB" where
  "AddLog s l = (log_entry jLog s)\<lparr>logs := logs s @ [l]\<rparr>"

definition AddressInAccessList :: "('v, 'l) stateDB \<Rightarrow> address \<Rightarrow> bool" where
  "AddressInAccessList s addr \<longleftrightarrow> al s addr \<noteq> None"

definition SlotInAccessList :: "('v, 'l) stateDB \<Rightarrow> address \<Rightarrow> hash \<Rightarrow> bool \<times> bool" where
  "SlotInAccessList s addr slot =
     (case al s addr of
        None \<Rightarrow> (False, False)
      | Some None \<Rightarrow> (True, False)
      | Some (Some m) \<Rightarrow> (True, slot \<in> m))"

definition AddAddressToAccessList :: "('v, 'l) stateDB \<Rightarrow> address \<Rightarrow> ('v, 'l) stateDB" where
  "AddAddressToAccessList s addr =
     (if al s addr = None then (log_entry (jALAddr addr) s)\<lparr>al := (al s)(addr \<mapsto> None)\<rparr> else s)"

definition AddSlotToAccessList :: "('v, 'l) stateDB \<Rightarrow> address \<Rightarrow> hash \<Rightarrow> ('v, 'l) stateDB" where
  "AddSlotToAccessList s addr slot =
     (let (s1, m) =
        (case al s addr of
           None \<Rightarrow> ((log_entry (jALAddr addr) s)\<lparr>al := (al s)(addr \<mapsto> Some {})\<rparr>, {})
         | Some None \<Rightarrow> (s\<lparr>al := (al s)(addr \<mapsto> Some {})\<rparr>, {})
         | Some (Some m) \<Rightarrow> (s, m))
      in if slot \<in> m then s1
         else (log_entry (jALSlot addr slot) s1)\<lparr>al := (al s1)(addr \<mapsto> Some (insert slot m))\<rparr>)"

definition Prepare ::
  "('v, 'l) stateDB \<Rightarrow> bool \<Rightarrow> bool \<Rightarrow> address \<Rightarrow> address \<Rightarrow> address option \<Rightarrow> address list
     \<Rightarrow> (address \<times> hash list) list \<Rightarrow> ('v, 'l) stateDB" where
  "Prepare s isBerlin isShanghai sender coinbase dst precompiles accessList =
     (if \<not> isBerlin then s
      else let s1 = AddAddressToAccessList s sender;
               s2 = (case dst of None \<Rightarrow> s1 | Some a \<Rightarrow> AddAddressToAccessList s1 a);
               s3 = fold (\<lambda>a s. AddAddressToAccessList s a) precompiles s2;
               s4 = fold (\<lambda>(a, ks) s. fold (\<lambda>k s. AddSlotToAccessList s a k) ks (AddAddressToAccessList s a))
                      accessList s3
           in if isShanghai then AddAddressToAccessList s4 coinbase else s4)"

subsection \<open>Reverting restores the overlay\<close>

text \<open>
  What a call can see of the overlay: everything but the journal, the view behind it and the error,
  with a \<^verbatim>\<open>nil\<close> slot map as the empty one.
\<close>

definition al_sets :: "(address \<rightharpoonup> hash set option) \<Rightarrow> (address \<rightharpoonup> hash set)" where
  "al_sets m = (\<lambda>a. map_option (\<lambda>x. case x of None \<Rightarrow> {} | Some ks \<Rightarrow> ks) (m a))"

definition same_overlay :: "('v, 'l) stateDB \<Rightarrow> ('v, 'l) stateDB \<Rightarrow> bool" where
  "same_overlay s t \<longleftrightarrow>
     balances s = balances t \<and> slots s = slots t \<and> ovSlots s = ovSlots t \<and> nonces s = nonces t
     \<and> codes s = codes t \<and> codeHashes s = codeHashes t \<and> created s = created t
     \<and> destructed s = destructed t \<and> transient s = transient t \<and> al_sets (al s) = al_sets (al t)
     \<and> refund s = refund t \<and> logs s = logs t"

lemma same_overlay_refl [simp]: "same_overlay s s"
  by (simp add: same_overlay_def)

lemma same_overlay_trans: "same_overlay s t \<Longrightarrow> same_overlay t u \<Longrightarrow> same_overlay s u"
  by (simp add: same_overlay_def)

lemma al_sets_upd [simp]:
  "al_sets (m(a := x)) = (al_sets m)(a := map_option (\<lambda>x. case x of None \<Rightarrow> {} | Some ks \<Rightarrow> ks) x)"
  by (auto simp: al_sets_def)

lemma al_sets_remove:
  "map_option (\<lambda>x. case x of None \<Rightarrow> {} | Some ks \<Rightarrow> ks) (map_option (map_option (\<lambda>m. m - {k})) (m a))
     = map_option (\<lambda>ks. ks - {k}) (al_sets m a)"
  by (cases "m a") (auto simp: al_sets_def split: option.splits)

lemma undo_same: "same_overlay s t \<Longrightarrow> same_overlay (undo e s) (undo e t)"
  by (cases e) (simp_all add: same_overlay_def al_sets_remove)

lemma fold_undo_same: "same_overlay s t \<Longrightarrow> same_overlay (fold undo es s) (fold undo es t)"
  by (induction es arbitrary: s t) (simp_all add: undo_same)

lemma fold_undo_journal [simp]: "journal (fold undo es s) = journal s"
proof (induction es arbitrary: s)
  case (Cons e es)
  then show ?case by (cases e) simp_all
qed simp

text \<open>\<open>undoes s t\<close>: the journal of \<open>t\<close> extends that of \<open>s\<close> by entries that lead back to \<open>s\<close>.\<close>

definition undoes :: "('v, 'l) stateDB \<Rightarrow> ('v, 'l) stateDB \<Rightarrow> bool" where
  "undoes s t \<longleftrightarrow> (\<exists>es. journal t = journal s @ es \<and> same_overlay (fold undo (rev es) t) s)"

lemma undoes_refl [simp]: "undoes s s"
  unfolding undoes_def by (rule exI [of _ "[]"]) simp

lemma undoes_trans:
  assumes "undoes s t" and "undoes t u"
  shows "undoes s u"
proof -
  from assms obtain es fs where e: "journal t = journal s @ es" "same_overlay (fold undo (rev es) t) s"
    and f: "journal u = journal t @ fs" "same_overlay (fold undo (rev fs) u) t"
    by (auto simp: undoes_def)
  from same_overlay_trans [OF fold_undo_same [OF f(2)] e(2)] e(1) f(1) show ?thesis
    unfolding undoes_def by (intro exI [of _ "es @ fs"]) simp
qed

lemma undoes_entry: "journal t = journal s @ [e] \<Longrightarrow> same_overlay (undo e t) s \<Longrightarrow> undoes s t"
  unfolding undoes_def by (rule exI [of _ "[e]"]) simp

lemma undoes_quiet: "journal t = journal s \<Longrightarrow> same_overlay t s \<Longrightarrow> undoes s t"
  unfolding undoes_def by (rule exI [of _ "[]"]) simp

lemma undoes_revert:
  assumes "undoes s t" and n: "Snapshot s \<le> n"
  shows "undoes s (RevertToSnapshot t n)"
proof -
  from assms obtain es where e: "journal t = journal s @ es" "same_overlay (fold undo (rev es) t) s"
    by (auto simp: undoes_def)
  define k where "k = n - length (journal s)"
  with e n have d: "drop n (journal t) = drop k es" "take n (journal t) = journal s @ take k es"
    by (simp_all add: Snapshot_def)
  have "same_overlay (RevertToSnapshot t n) (fold undo (rev (drop k es)) t)"
    by (simp add: RevertToSnapshot_def d same_overlay_def)
  then have "same_overlay (fold undo (rev (take k es)) (RevertToSnapshot t n)) (fold undo (rev es) t)"
    using fold_undo_same [of _ _ "rev (take k es)"] append_take_drop_id [of k es]
    by (metis (no_types, lifting) fold_append comp_apply rev_append)
  from same_overlay_trans [OF this e(2)] show ?thesis
    unfolding undoes_def by (intro exI [of _ "take k es"]) (simp add: RevertToSnapshot_def d)
qed

lemma undoes_exact:
  assumes "undoes s t"
  shows "same_overlay (RevertToSnapshot t (Snapshot s)) s"
    and "journal (RevertToSnapshot t (Snapshot s)) = journal s"
proof -
  from assms obtain es where "journal t = journal s @ es" "same_overlay (fold undo (rev es) t) s"
    by (auto simp: undoes_def)
  then show "same_overlay (RevertToSnapshot t (Snapshot s)) s"
      "journal (RevertToSnapshot t (Snapshot s)) = journal s"
    by (simp_all add: RevertToSnapshot_def Snapshot_def same_overlay_def)
qed

subsection \<open>Every operation can be undone\<close>

lemma quiet_fields:
  "journal (sd_fail s err) = journal s" "same_overlay (sd_fail s err) s"
  "same_overlay (s\<lparr>sd_view := v\<rparr>) s" "same_overlay (sd_fail (s\<lparr>sd_view := v\<rparr>) err) s"
  by (simp_all add: sd_fail_def same_overlay_def)

lemma quiet_reads:
  "sd_account V s a = (s', r) \<Longrightarrow> journal s' = journal s \<and> same_overlay s' s"
  "sd_balance V s a = (s', b) \<Longrightarrow> journal s' = journal s \<and> same_overlay s' s"
  "sd_slot V s a k = (s', x) \<Longrightarrow> journal s' = journal s \<and> same_overlay s' s"
  by (auto simp: sd_account_def sd_balance_def sd_slot_def quiet_fields split: prod.splits sum.splits option.splits)

lemma undoes_fail: "undoes s t \<Longrightarrow> undoes s (sd_fail t err)"
  by (erule undoes_trans, rule undoes_quiet) (simp_all add: quiet_fields)

lemma undoes_setBalance: "undoes s (sd_setBalance s a b)"
  by (rule undoes_entry [of _ _ "jBalance a (balances s a)"]) (simp_all add: sd_setBalance_def log_entry_def same_overlay_def)

lemma undoes_balances:
  "undoes s (AddBalance V s a x)" "undoes s (SubBalance V s a x)"
  unfolding AddBalance_def SubBalance_def
  by (auto split: prod.split dest!: quiet_reads(2) intro: undoes_trans [OF undoes_quiet undoes_setBalance])

lemma undoes_nonce: "undoes s (SetNonce s a n)"
  by (rule undoes_entry [of _ _ "jNonce a (nonces s a)"]) (simp_all add: SetNonce_def log_entry_def same_overlay_def)

lemma undoes_code:
  "codes s a = None \<Longrightarrow> codeHashes s a = None \<Longrightarrow> undoes s (SetCode kc s a c)"
  by (rule undoes_entry [of _ _ "jCode a"]) (auto simp: SetCode_def log_entry_def same_overlay_def)

lemma undoes_state: "undoes s (SetState s a k v)"
  by (rule undoes_entry [of _ _ "jStorage a (normSlot k) (slots s (a, normSlot k))"]) (simp_all add: SetState_def Let_def log_entry_def same_overlay_def)

lemma undoes_transient: "undoes s (SetTransientState s a k v)"
  by (rule undoes_entry [of _ _ "jTransient a k (transient s (a, k))"]) (simp_all add: SetTransientState_def log_entry_def same_overlay_def)

lemma undoes_create: "undoes s (CreateAccount s a)"
proof (cases "a \<in> created s")
  case False
  then show ?thesis
    by (intro undoes_entry [of _ _ "jCreated a"]) (auto simp: CreateAccount_def log_entry_def same_overlay_def)
qed (simp add: CreateAccount_def)

lemma undoes_destruct: "undoes s (SelfDestruct s a)" "undoes s (Selfdestruct6780 s a)"
proof -
  have "undoes s (if a \<in> destructed s then s
      else (log_entry (jDestruct a) s)\<lparr>destructed := insert a (destructed s)\<rparr>)"
  proof (cases "a \<in> destructed s")
    case False
    then show ?thesis
      by (intro undoes_entry [of _ _ "jDestruct a"]) (auto simp: log_entry_def same_overlay_def)
  qed simp
  from undoes_trans [OF this undoes_setBalance] show "undoes s (SelfDestruct s a)" by (simp add: SelfDestruct_def)
  then show "undoes s (Selfdestruct6780 s a)" by (simp add: Selfdestruct6780_def)
qed

lemma undoes_refund: "undoes s (AddRefund s g)" "undoes s (SubRefund s g)"
proof -
  have *: "undoes s (log_entry (jRefund (refund s)) s\<lparr>refund := r\<rparr>)" "undoes s (log_entry (jRefund (refund s)) s)" for r
    by (rule undoes_entry [of _ _ "jRefund (refund s)"]; simp add: log_entry_def same_overlay_def)+
  then show "undoes s (AddRefund s g)" by (simp add: AddRefund_def)
  show "undoes s (SubRefund s g)" unfolding SubRefund_def Let_def using * by (auto intro: undoes_fail)
qed

lemma undoes_log: "undoes s (AddLog s l)"
  by (rule undoes_entry [of _ _ "jLog"]) (simp_all add: AddLog_def log_entry_def same_overlay_def)

lemma undoes_address: "undoes s (AddAddressToAccessList s a)"
proof (cases "al s a")
  case None
  then show ?thesis
    by (intro undoes_entry [of _ _ "jALAddr a"])
      (auto simp: AddAddressToAccessList_def log_entry_def same_overlay_def al_sets_def)
qed (simp add: AddAddressToAccessList_def)

lemma undoes_slot: "undoes s (AddSlotToAccessList s a k)"
proof -
  have slot: "undoes t ((log_entry (jALSlot a k) t)\<lparr>al := (al t)(a \<mapsto> Some (insert k m))\<rparr>)"
    if "al t a = Some (Some m)" "k \<notin> m" for t :: "('a, 'b) stateDB" and m
    using that by (intro undoes_entry [of _ _ "jALSlot a k"])
      (auto simp: log_entry_def same_overlay_def al_sets_def)
  show ?thesis
  proof (cases "al s a")
    case None
    let ?t = "(log_entry (jALAddr a) s)\<lparr>al := (al s)(a \<mapsto> Some {})\<rparr>"
    from None have "undoes s ?t"
      by (intro undoes_entry [of _ _ "jALAddr a"]) (auto simp: log_entry_def same_overlay_def al_sets_def)
    from undoes_trans [OF this slot [of ?t "{}"]] None show ?thesis
      by (simp add: AddSlotToAccessList_def)
  next
    case (Some x)
    show ?thesis
    proof (cases x)
      case None
      let ?t = "s\<lparr>al := (al s)(a \<mapsto> Some {})\<rparr>"
      from None Some have "undoes s ?t"
        by (intro undoes_quiet) (auto simp: same_overlay_def al_sets_def)
      from undoes_trans [OF this slot [of ?t "{}"]] None Some show ?thesis
        by (simp add: AddSlotToAccessList_def)
    next
      case (Some m)
      with \<open>al s a = Some x\<close> slot [of s m] show ?thesis by (simp add: AddSlotToAccessList_def)
    qed
  qed
qed

subsection \<open>Runs of a call\<close>

text \<open>What a call does to its state database, reads included.\<close>

datatype 'l sd_cmd =
    CAddBalance address u256
  | CSubBalance address u256
  | CSetNonce address u64
  | CSetCode address bytes
  | CSetState address hash hash
  | CSetTransient address hash hash
  | CCreate address
  | CSelfDestruct address
  | CSelfdestruct6780 address
  | CAddRefund u64
  | CSubRefund u64
  | CAddLog 'l
  | CAddAddress address
  | CAddSlot address hash
  | CRevert nat
  | CGetBalance address
  | CGetNonce address
  | CGetCode address
  | CGetState address hash
  | CGetCommitted address hash
  | CExist address
  | CEmpty address

fun sd_do :: "'v view_ops \<Rightarrow> (bytes \<Rightarrow> hash) \<Rightarrow> 'l sd_cmd \<Rightarrow> ('v, 'l) stateDB \<Rightarrow> ('v, 'l) stateDB" where
  "sd_do V kc (CAddBalance a x) s = AddBalance V s a x"
| "sd_do V kc (CSubBalance a x) s = SubBalance V s a x"
| "sd_do V kc (CSetNonce a n) s = SetNonce s a n"
| "sd_do V kc (CSetCode a c) s = SetCode kc s a c"
| "sd_do V kc (CSetState a k v) s = SetState s a k v"
| "sd_do V kc (CSetTransient a k v) s = SetTransientState s a k v"
| "sd_do V kc (CCreate a) s = CreateAccount s a"
| "sd_do V kc (CSelfDestruct a) s = SelfDestruct s a"
| "sd_do V kc (CSelfdestruct6780 a) s = Selfdestruct6780 s a"
| "sd_do V kc (CAddRefund g) s = AddRefund s g"
| "sd_do V kc (CSubRefund g) s = SubRefund s g"
| "sd_do V kc (CAddLog l) s = AddLog s l"
| "sd_do V kc (CAddAddress a) s = AddAddressToAccessList s a"
| "sd_do V kc (CAddSlot a k) s = AddSlotToAccessList s a k"
| "sd_do V kc (CRevert n) s = RevertToSnapshot s n"
| "sd_do V kc (CGetBalance a) s = fst (sd_balance V s a)"
| "sd_do V kc (CGetNonce a) s = fst (GetNonce V s a)"
| "sd_do V kc (CGetCode a) s = fst (sd_GetCode V kc s a)"
| "sd_do V kc (CGetState a k) s = fst (GetState V s a k)"
| "sd_do V kc (CGetCommitted a k) s = fst (GetCommittedState V s a k)"
| "sd_do V kc (CExist a) s = fst (Exist V s a)"
| "sd_do V kc (CEmpty a) s = fst (Empty V kc s a)"

text \<open>
  The discipline of the machine since a snapshot \<open>n\<close>: it reverts to snapshots taken after it, and it
  deposits code at an address that has none in the overlay.
\<close>

fun cmd_ok :: "nat \<Rightarrow> 'l sd_cmd \<Rightarrow> ('v, 'l) stateDB \<Rightarrow> bool" where
  "cmd_ok n (CSetCode a c) s \<longleftrightarrow> codes s a = None \<and> codeHashes s a = None"
| "cmd_ok n (CRevert m) s \<longleftrightarrow> n \<le> m"
| "cmd_ok n _ s \<longleftrightarrow> True"

fun cmds_ok :: "'v view_ops \<Rightarrow> (bytes \<Rightarrow> hash) \<Rightarrow> nat \<Rightarrow> 'l sd_cmd list \<Rightarrow> ('v, 'l) stateDB \<Rightarrow> bool" where
  "cmds_ok V kc n [] s \<longleftrightarrow> True"
| "cmds_ok V kc n (c # cs) s \<longleftrightarrow> cmd_ok n c s \<and> cmds_ok V kc n cs (sd_do V kc c s)"

lemma quiet_trans:
  "journal t = journal s \<and> same_overlay t s \<Longrightarrow> journal u = journal t \<and> same_overlay u t \<Longrightarrow>
     journal u = journal s \<and> same_overlay u s"
  using same_overlay_trans by metis

lemma quiet_GetNonce: "GetNonce V s a = (s', r) \<Longrightarrow> journal s' = journal s \<and> same_overlay s' s"
  by (auto simp: GetNonce_def split: option.splits prod.splits dest!: quiet_reads(1))

lemma quiet_GetCodeHash: "GetCodeHash V kc s a = (s', r) \<Longrightarrow> journal s' = journal s \<and> same_overlay s' s"
  by (auto simp: GetCodeHash_def split: option.splits prod.splits if_splits dest!: quiet_reads(1))

lemma quiet_GetCode:
  assumes "sd_GetCode V kc s a = (s', r)"
  shows "journal s' = journal s \<and> same_overlay s' s"
proof (cases "codes s a")
  case None
  obtain t h where t: "GetCodeHash V kc s a = (t, h)" by fastforce
  have "journal s' = journal t \<and> same_overlay s' t"
    using assms None t by (auto simp: sd_GetCode_def quiet_fields split: if_splits prod.splits sum.splits)
  with quiet_GetCodeHash [OF t] show ?thesis by (rule quiet_trans)
qed (use assms in \<open>simp add: sd_GetCode_def\<close>)

lemma quiet_Empty:
  assumes "Empty V kc s a = (s', r)"
  shows "journal s' = journal s \<and> same_overlay s' s"
proof -
  obtain t n where t: "GetNonce V s a = (t, n)" by fastforce
  obtain u b where u: "sd_balance V t a = (u, b)" by fastforce
  obtain v h where v: "GetCodeHash V kc u a = (v, h)" by fastforce
  note q = quiet_GetNonce [OF t] quiet_reads(2) [OF u] quiet_GetCodeHash [OF v]
  note q2 = quiet_trans [OF q(1,2)]
  from assms q q2 quiet_trans [OF q2 q(3)] show ?thesis
    by (auto simp: Empty_def t u v split: if_splits)
qed

lemmas quiet_gets = quiet_GetNonce quiet_GetCode quiet_Empty quiet_reads

lemma undoes_do:
  assumes "cmd_ok (Snapshot s) c t" and "undoes s t"
  shows "undoes s (sd_do V kc c t)"
proof -
  have q: "undoes s t'" if "journal t' = journal t \<and> same_overlay t' t" for t'
    using that undoes_trans [OF assms(2) undoes_quiet] by blast
  show ?thesis
  proof (cases c)
    case (CRevert m)
    with assms undoes_revert show ?thesis by simp
  next
    case (CGetBalance a)
    then show ?thesis by (auto intro!: q simp: quiet_reads(2) [OF surjective_pairing])
  next
    case (CGetNonce a)
    then show ?thesis by (auto intro!: q simp: quiet_GetNonce [OF surjective_pairing])
  next
    case (CGetCode a)
    then show ?thesis by (auto intro!: q simp: quiet_GetCode [OF surjective_pairing])
  next
    case (CEmpty a)
    then show ?thesis by (auto intro!: q simp: quiet_Empty [OF surjective_pairing])
  next
    case (CGetState a k)
    then show ?thesis
      by (auto intro!: q simp: GetState_def quiet_reads(3) [OF surjective_pairing] split: option.split)
  next
    case (CGetCommitted a k)
    then show ?thesis
      by (auto intro!: q simp: GetCommittedState_def quiet_reads(3) [OF surjective_pairing] split: option.split)
  next
    case (CExist a)
    then show ?thesis
      by (auto intro!: q simp: Exist_def split: prod.split dest: quiet_reads(1))
  qed (use assms(1) in \<open>simp_all add: undoes_trans [OF assms(2)] undoes_balances undoes_nonce undoes_code
      undoes_state undoes_transient undoes_create undoes_destruct undoes_refund undoes_log undoes_address
      undoes_slot\<close>)
qed

lemma undoes_run:
  assumes "cmds_ok V kc (Snapshot s) cs t" and "undoes s t"
  shows "undoes s (fold (sd_do V kc) cs t)"
  using assms by (induction cs arbitrary: t) (auto intro: undoes_do)

subsection \<open>Reads over a world\<close>

locale view_contract =
  fixes V :: "'v view_ops" and kc :: "bytes \<Rightarrow> hash" and w :: world and ok :: "'v \<Rightarrow> bool"
  assumes view_Account: "ok v \<Longrightarrow> vw_Account V v a = (v', r) \<Longrightarrow> ok v' \<and> r = Inr (acct_res (w_acct w a))"
    and view_Balance: "ok v \<Longrightarrow> vw_Balance V v a = (v', r') \<Longrightarrow>
      ok v' \<and> r' = Inr (Balance (fst (acct_res (w_acct w a))))"
    and view_Slot: "ok v \<Longrightarrow> vw_Slot V v a s = (v', x) \<Longrightarrow> ok v' \<and> x = Inr (w_slot w a s)"
    and view_Code: "ok v \<Longrightarrow> vw_Code V v h = (v', c) \<Longrightarrow> ok v' \<and> code_answer kc h c"
begin

lemma account_ok:
  assumes "ok (sd_view s)" and "sd_account V s a = (s', r)"
  shows "ok (sd_view s') \<and> readErr s' = readErr s \<and> r = acct_res (w_acct w a)"
  using assms view_Account [of "sd_view s" a]
  by (auto simp: sd_account_def split: prod.splits sum.splits)

lemma balance_ok:
  assumes "ok (sd_view s)" and "sd_balance V s a = (s', b)"
  shows "ok (sd_view s') \<and> readErr s' = readErr s
    \<and> b = (case balances s a of Some x \<Rightarrow> x | None \<Rightarrow> Balance (fst (acct_res (w_acct w a))))"
  using assms view_Balance [of "sd_view s" a]
  by (auto simp: sd_balance_def split: prod.splits sum.splits option.splits)

lemma slot_ok:
  assumes "ok (sd_view s)" and "sd_slot V s a k = (s', x)"
  shows "ok (sd_view s') \<and> readErr s' = readErr s \<and> x = w_slot w a k"
  using assms view_Slot [of "sd_view s" a k]
  by (auto simp: sd_slot_def split: prod.splits sum.splits)

lemma GetState_ok:
  assumes "ok (sd_view s)" and "GetState V s a k = (s', x)"
  shows "ok (sd_view s') \<and> readErr s' = readErr s
    \<and> x = (case slots s (a, normSlot k) of Some v \<Rightarrow> v | None \<Rightarrow> w_slot w a (normSlot k))"
  using assms slot_ok [OF assms(1), of a "normSlot k"] by (auto simp: GetState_def split: option.splits)

lemma GetCommittedState_ok:
  assumes "ok (sd_view s)" and "GetCommittedState V s a k = (s', x)"
  shows "ok (sd_view s') \<and> readErr s' = readErr s
    \<and> x = (case ovSlots s (a, normSlot k) of Some v \<Rightarrow> v | None \<Rightarrow> w_slot w a (normSlot k))"
  using assms slot_ok [OF assms(1), of a "normSlot k"] by (auto simp: GetCommittedState_def split: option.splits)

lemma GetNonce_ok:
  assumes "ok (sd_view s)" and "GetNonce V s a = (s', n)"
  shows "ok (sd_view s') \<and> readErr s' = readErr s
    \<and> n = (case nonces s a of Some x \<Rightarrow> x | None \<Rightarrow> Nonce (fst (acct_res (w_acct w a))))"
  using assms account_ok [OF assms(1), of a] by (auto simp: GetNonce_def split: option.splits prod.splits)

lemma GetCodeHash_ok:
  assumes "ok (sd_view s)" and "GetCodeHash V kc s a = (s', h)"
  shows "ok (sd_view s') \<and> readErr s' = readErr s
    \<and> h = (case codeHashes s a of Some x \<Rightarrow> x
           | None \<Rightarrow> (case w_acct w a of None \<Rightarrow> 0 | Some acc \<Rightarrow> if CodeHash acc = 0 then kc [] else CodeHash acc))"
  using assms account_ok [OF assms(1), of a]
  by (auto simp: GetCodeHash_def acct_res_def split: option.splits prod.splits if_splits)

text \<open>
  Code that is read is code of the account: what the overlay deposited, or bytes whose hash is the
  account's code hash. When the store has none the call is failed.
\<close>

lemma GetCode_ok:
  assumes v: "ok (sd_view s)" and e: "readErr s = None" and r: "sd_GetCode V kc s a = (s', c)"
  shows "ok (sd_view s')" and "readErr s' = None \<Longrightarrow> codes s a = None \<Longrightarrow>
    (let h = snd (GetCodeHash V kc s a) in if h = 0 then c = [] else kc c = h)"
    and "readErr s' \<noteq> None \<Longrightarrow> readErr s' = Some ErrNotFound"
proof -
  obtain t h where t: "GetCodeHash V kc s a = (t, h)" by fastforce
  note gh = GetCodeHash_ok [OF v t]
  have code: "ok v' \<and> code_answer kc h x" if "vw_Code V (sd_view t) h = (v', x)" for v' x
    using view_Code that gh by blast
  show "ok (sd_view s')"
    using r v gh code t by (auto simp: sd_GetCode_def sd_fail_def split: option.splits if_splits prod.splits sum.splits)
  show "(let h = snd (GetCodeHash V kc s a) in if h = 0 then c = [] else kc c = h)"
    if "readErr s' = None" "codes s a = None"
    using that r e gh code t
    by (auto simp: sd_GetCode_def sd_fail_def code_answer_def split: if_splits prod.splits sum.splits)
  show "readErr s' = Some ErrNotFound" if "readErr s' \<noteq> None"
    using that r e gh code t
    by (auto simp: sd_GetCode_def sd_fail_def code_answer_def split: option.splits if_splits prod.splits sum.splits)
qed

end

text \<open>The views of the engine keep the contract while a batch holds the read lock.\<close>

definition engine_view_ok ::
  "(bytes \<Rightarrow> hash) \<Rightarrow> ('e \<Rightarrow> bytes \<rightharpoonup> bytes) \<Rightarrow> u64 \<Rightarrow> batch list \<Rightarrow> world \<Rightarrow> 'e shared \<times> view \<Rightarrow> bool" where
  "engine_view_ok kc kv S p w x \<longleftrightarrow>
     (case x of ((d, st), v) \<Rightarrow>
        config_ok kc kv S (d, st, p) \<and> config_world kc kv (d, st, p) = w
        \<and> v_sb v < length (buffers st) \<and> v_balances v = Map.empty \<and> v_slots v = Map.empty)"

sublocale healthy_lmdb \<subseteq> simview: view_contract "engine_view L kc" kc w "engine_view_ok kc kv S p w" for kc S p w
proof
  fix v v' :: "'e shared \<times> view" and a s h r r' x c
  obtain d st vw where v: "v = ((d, st), vw)" by (metis prod.collapse)
  obtain d' st' vw' where v': "v' = ((d', st'), vw')" by (metis prod.collapse)
  assume ok: "engine_view_ok kc kv S p w v"
  then have ok': "config_ok kc kv S (d, st, p)" and sb: "v_sb vw < length (buffers st)"
    and w: "config_world kc kv (d, st, p) = w" and e: "v_balances vw = Map.empty" "v_slots vw = Map.empty"
    by (simp_all add: engine_view_ok_def v)
  note rd = View_reads [OF ok' sb]
  have keep: "engine_view_ok kc kv S p w ((d', st'), vw)" if "same_tip kc kv S (d, st, p) (d', st', p)"
    using that sb w e by (simp add: engine_view_ok_def same_tip_def)
  show "engine_view_ok kc kv S p w v' \<and> r = Inr (acct_res (w_acct w a))"
    if "vw_Account (engine_view L kc) v a = (v', r)"
    using that rd(1) keep w by (auto simp: engine_view_def v v' split: prod.splits)
  show "engine_view_ok kc kv S p w v' \<and> r' = Inr (Balance (fst (acct_res (w_acct w a))))"
    if "vw_Balance (engine_view L kc) v a = (v', r')"
    using that rd(2) keep w e by (auto simp: engine_view_def v v' split: prod.splits)
  show "engine_view_ok kc kv S p w v' \<and> x = Inr (w_slot w a s)"
    if "vw_Slot (engine_view L kc) v a s = (v', x)"
    using that rd(3) keep w e by (auto simp: engine_view_def v v' split: prod.splits)
  show "engine_view_ok kc kv S p w v' \<and> code_answer kc h c"
    if "vw_Code (engine_view L kc) v h = (v', c)"
    using that rd(4) keep by (auto simp: engine_view_def v v' split: prod.splits)
qed

context healthy_lmdb
begin

lemma engine_view_contract: "view_contract (engine_view L kc) kc w (engine_view_ok kc kv S p w)"
  by (rule simview.view_contract_axioms)

end

end
