(* ===== verification/Sim.thy ===== *)
theory Sim
  imports SimState
begin

text \<open>
  The executor of package \<^verbatim>\<open>sim\<close> (\<^verbatim>\<open>src/sim/sim.go\<close>). The virtual machine and the chain rules are
  libraries outside the repository: a record of three functions. The machine is rebuilt when the tip
  moves and after a failed read; \<open>Execute_eq\<close> shows that this reuse cannot be seen: a long-lived
  executor answers as a new one. The contract objects kept per sender, which only carry a cache of the
  machine, are part of that parameter.
\<close>

record ('v, 'l) evm_api =
  rules_of :: "u64 \<Rightarrow> u64 \<Rightarrow> bool \<times> bool"
  precompiles_of :: "bool \<times> bool \<Rightarrow> address list"
  evm_call :: "u64 \<times> u64 \<Rightarrow> address \<Rightarrow> address \<Rightarrow> bytes \<Rightarrow> u64 \<Rightarrow> u256 \<Rightarrow> ('v, 'l) stateDB
     \<Rightarrow> ('v, 'l) stateDB \<times> bytes \<times> u64 \<times> error option"

record call =
  From :: address
  To :: address
  Input :: bytes
  Gas :: u64
  Value :: "u256 option"
  BalanceOverrides :: "(address \<times> u256) list"
  StorageOverrides :: "(address \<times> (hash \<times> hash) list) list"
  AccessList :: "(address \<times> hash list) list"

record 'l result =
  ReturnData :: bytes
  GasUsed :: u64
  Logs :: "'l list"
  Err :: "error option"

text \<open>The environment is the height and time the machine was built for, \<open>None\<close> when there is none.\<close>

record ('v, 'l) executor =
  sdb :: "('v, 'l) stateDB"
  envTip :: hash
  evm_env :: "(u64 \<times> u64) option"

definition DefaultGasCap :: u64 where
  "DefaultGasCap = 50000000"

definition blackholeAddr :: address where
  "blackholeAddr = push_bit 152 1"

definition sim_New :: "'v \<Rightarrow> ('v, 'l) executor" where
  "sim_New v = \<lparr>sdb = newStateDB v, envTip = 0, evm_env = None\<rparr>"

definition rebuildEnv :: "('v, 'l) executor \<Rightarrow> hash \<Rightarrow> u64 \<Rightarrow> u64 \<Rightarrow> ('v, 'l) executor" where
  "rebuildEnv e t num time = e\<lparr>evm_env := Some (num, time), envTip := t\<rparr>"

definition failed :: "error \<Rightarrow> 'l result" where
  "failed err = \<lparr>ReturnData = [], GasUsed = 0, Logs = [], Err = Some err\<rparr>"

text \<open>One call on a machine for the environment \<open>nt\<close>: the state database after it, and the result.\<close>

definition run_call ::
  "('v, 'l) evm_api \<Rightarrow> u64 \<times> u64 \<Rightarrow> ('v, 'l) stateDB \<Rightarrow> call \<Rightarrow> 'v \<Rightarrow> ('v, 'l) stateDB \<times> 'l result" where
  "run_call A nt s cl v =
     (let rules = rules_of A (fst nt) (snd nt);
          s1 = sd_reset s v (BalanceOverrides cl) (StorageOverrides cl) (Some None);
          s2 = Prepare s1 (fst rules) (snd rules) (From cl) blackholeAddr (Some (To cl))
                 (precompiles_of A rules) (AccessList cl);
          gas = (if Gas cl = 0 then DefaultGasCap else Gas cl);
          val = (case Value cl of None \<Rightarrow> 0 | Some x \<Rightarrow> x)
      in case evm_call A nt (From cl) (To cl) (Input cl) gas val s2 of
           (s3, ret, left, err) \<Rightarrow>
             (s3, case readErr s3 of
                    Some rerr \<Rightarrow> failed rerr
                  | None \<Rightarrow> \<lparr>ReturnData = ret, GasUsed = gas - left, Logs = logs s3, Err = err\<rparr>))"

text \<open>\<open>None\<close> is a call that is not a \<^verbatim>\<open>*Call\<close>.\<close>

definition sim_Execute ::
  "('v, 'l) evm_api \<Rightarrow> 'v view_ops \<Rightarrow> ('v, 'l) executor \<Rightarrow> call option \<Rightarrow> 'v
     \<Rightarrow> ('v, 'l) executor \<times> 'l result" where
  "sim_Execute A V e c v =
     (case c of
        None \<Rightarrow> (e, failed ErrBadCall)
      | Some cl \<Rightarrow>
          (case vw_TipInfo V v of
             (t, num, time) \<Rightarrow>
               (if num = 0 then (e, failed ErrNoTip)
                else
                  let e1 = (if evm_env e = None \<or> envTip e \<noteq> t then rebuildEnv e t num time else e)
                  in case run_call A (the (evm_env e1)) (sdb e1) cl v of
                       (s3, res) \<Rightarrow>
                         (if readErr s3 \<noteq> None then (e1\<lparr>sdb := s3, envTip := 0, evm_env := None\<rparr>, res)
                          else (e1\<lparr>sdb := s3\<rparr>, res)))))"

text \<open>The machine an executor holds is the one for its tip; \<open>info\<close> is the height and time of a block.\<close>

definition env_ok :: "(hash \<Rightarrow> u64 \<times> u64) \<Rightarrow> ('v, 'l) executor \<Rightarrow> bool" where
  "env_ok info e \<longleftrightarrow> (case evm_env e of None \<Rightarrow> True | Some nt \<Rightarrow> nt = info (envTip e))"

lemma env_ok_New [simp]: "env_ok info (sim_New v)"
  by (simp add: env_ok_def sim_New_def)

lemma run_call_fresh: "run_call A nt s cl v = run_call A nt s' cl v"
  by (simp add: run_call_def sd_reset_def)

lemma Execute_env:
  assumes "env_ok info e" and "info t = (num, time)"
    and "e1 = (if evm_env e = None \<or> envTip e \<noteq> t then rebuildEnv e t num time else e)"
  shows "evm_env e1 = Some (num, time)" and "envTip e1 = t"
  using assms by (auto simp: env_ok_def rebuildEnv_def)

lemma Execute_eq:
  assumes "env_ok info e" and "vw_TipInfo V v = (t, info t)"
  shows "snd (sim_Execute A V e c v) =
      (case c of
         None \<Rightarrow> failed ErrBadCall
       | Some cl \<Rightarrow> if fst (info t) = 0 then failed ErrNoTip else snd (run_call A (info t) (newStateDB v) cl v))
    \<and> env_ok info (fst (sim_Execute A V e c v))"
proof (cases c)
  case None
  with assms(1) show ?thesis by (simp add: sim_Execute_def)
next
  case (Some cl)
  obtain num time where it: "info t = (num, time)" by (cases "info t")
  define e1 where "e1 = (if evm_env e = None \<or> envTip e \<noteq> t then rebuildEnv e t num time else e)"
  note env1 = Execute_env [OF assms(1) it e1_def]
  obtain s3 res where r: "run_call A (num, time) (newStateDB v) cl v = (s3, res)" by fastforce
  have "sim_Execute A V e c v = (if num = 0 then (e, failed ErrNoTip)
      else if readErr s3 \<noteq> None then (e1\<lparr>sdb := s3, envTip := 0, evm_env := None\<rparr>, res) else (e1\<lparr>sdb := s3\<rparr>, res))"
    using r run_call_fresh [of A "(num, time)" "sdb e1" cl v "newStateDB v"]
    by (simp add: sim_Execute_def Some assms(2) it env1 flip: e1_def)
  moreover have "env_ok info (e1\<lparr>sdb := s3\<rparr>)" using env1 it by (simp add: env_ok_def)
  moreover have "env_ok info (e1\<lparr>sdb := s3, envTip := 0, evm_env := None\<rparr>)" by (simp add: env_ok_def)
  ultimately show ?thesis using Some it r assms(1) by simp
qed

text \<open>
  A read that failed: the result is that error alone, and the machine is given up (its cancellation is
  sticky).
\<close>

lemma run_call_failed:
  assumes "run_call A nt s cl v = (s3, res)" and "readErr s3 = Some err"
  shows "res = failed err"
  using assms by (auto simp: run_call_def Let_def split: prod.splits)

end
