(* ===== verification/TipProperties.thy ===== *)
theory TipProperties
  imports Sim Examples
begin

text \<open>
  What a process that serves the tip promises: reads through the in-memory state, batches of calls and
  single simulated calls.
\<close>

subsection \<open>A state to apply the properties to\<close>

definition ex_st :: mem_state where
  "ex_st = \<lparr>base = NewMap, layers = [], buffers = [], finalized = 100, tip = 10, tipBlock = 100, tipTime = 0,
     pinsMerged = 0\<rparr>"

text \<open>Two executors that each read one slot of the account that is called for.\<close>

definition ex_reader :: "address \<Rightarrow> (error + hash) prog" where
  "ex_reader a = GetSlt a 1 Return"

definition ex_eng :: "(address, error + hash) engine" where
  "ex_eng = snd (engine_New ex_st [ex_reader, ex_reader])"

definition ex_st2 :: mem_state where
  "ex_st2 = fst (engine_New ex_st [ex_reader, ex_reader])"

definition ex_st3 :: mem_state where
  "ex_st3 = ApplyBlock ex_st2 ex_b1"

lemma ex_db_world: "db_world ex_kc map_of ex_db = ex_w0"
  by (simp add: db_world_def ex_world)

lemma ex_code_rows: "code_rows_ok ex_kc (map_of (env ex_db))"
  by (simp add: code_rows_ok_def ex_rows)

lemma ex_st2_eq: "ex_st2 = ex_st\<lparr>buffers := [NewSideBuffer, NewSideBuffer]\<rparr>"
  by (simp add: ex_st2_def engine_New_def Register_def ex_st_def)

lemma ex_config: "config_ok ex_kc map_of 100 (ex_db, ex_st2, [])"
proof -
  have "mem_inv ex_kc map_of ex_db ex_st2 [] ex_w0"
    by (simp add: mem_inv_def ex_st2_eq ex_st_def ex_db_world)
  moreover have "code_inv ex_kc map_of ex_db ex_st2"
    using ex_code_rows by (simp add: code_inv_def ex_st2_eq ex_st_def NewMap_def NewSideBuffer_def)
  ultimately show ?thesis using ex_serving unfolding config_ok_def prod.case by blast
qed

lemma ex_step1: "mem_step alist_lmdb ex_kc map_of (ex_db, ex_st2, []) (MApply ex_b1) (ex_db, ex_st3, [])"
  unfolding ex_st3_def by (rule mem_step.Apply)

lemma ex_config3:
  "config_ok ex_kc map_of 100 (ex_db, ex_st3, [])" "config_world ex_kc map_of (ex_db, ex_st3, []) = ex_w1"
  using alist.mem_step_ok [OF ex_config ex_step1]
  by (simp_all add: config_world_def tip_world_def ex_st2_eq ex_st_def ex_db_world)

lemma ex_pool: "pool_ok 2 {ex_reader} (pool ex_eng)" "length (pool ex_eng) = 2" "length (buffers ex_st3) = 2"
  using pool_ok_New [of ex_st "[ex_reader, ex_reader]" ex_st2 ex_eng]
  by (simp_all add: ex_st2_def ex_eng_def ex_st_def ex_st3_def ApplyBlock_def push_layer_def lockAndDrain_def
      numeral_2_eq_2)


section \<open>The in-memory state\<close>



text \<open>
  \<^verbatim>\<open>Finalize\<close> takes exactly the oldest unfinalized block, by height and hash; anything else is refused
  with the layers and the tip as they were.
\<close>

theorem mem_Finalize_oldest:
  "case mem_Finalize s block h of (s', err) \<Rightarrow>
     (err = None \<longleftrightarrow> (\<exists>l ls. layers s = l # ls \<and> Block (l_batch l) = block \<and> Hash (l_batch l) = h))
     \<and> layers s' = (if err = None then tl (layers s) else layers s)
     \<and> finalized s' = (if err = None then block else finalized s)
     \<and> tipBlock s' = tipBlock s \<and> tipTime s' = tipTime s"
  by (auto simp: mem_Finalize_def Let_def lockAndDrain_def split: list.splits)

text \<open>
  C13. Merging a side buffer does not depend on the order in which Go's \<^verbatim>\<open>range\<close> visits its maps.
\<close>

theorem drain_any_order:
  assumes "map_of (sb_accounts sb) = map_of (sb_accounts sb')" and "map_of (sb_slots sb) = map_of (sb_slots sb')"
    and "map_of (sb_code sb) = map_of (sb_code sb')"
  shows "drain_buffer sb m = drain_buffer sb' m"
proof -
  have "pin_slots (sb_slots sb) = pin_slots (sb_slots sb')" by (simp add: pin_slots_def fun_eq_iff assms(2))
  then show ?thesis by (intro mem_map.equality ext) (simp_all add: drain_lookup assms split: option.split)
qed

theorem drain_any_order_witness:
  "drain_buffer (NewSideBuffer\<lparr>sb_code := [(1, [2]), (3, [4])]\<rparr>) NewMap
     = drain_buffer (NewSideBuffer\<lparr>sb_code := [(3, [4]), (1, [2])]\<rparr>) NewMap"
  by (rule drain_any_order) (auto simp: fun_eq_iff)

text \<open>
  C14. Code deployed by an unfinalized block cannot be read: the tip world has the account with its code
  hash, but the layers do not keep code, so that the read falls through to the store, which does not
  have it before the block is finalized.
\<close>

theorem unfinalized_code:
  assumes "healthy_lmdb L kv" and "kv (env d) (key_bytes (KCode h)) = None" and "code (base (lockAndDrain s)) h = None"
    and "Ops b = [OpCode h c, OpAccount a acc]" and "CodeHash acc = h"
  shows "w_acct (tip_world kc kv d (ApplyBlock s b)) a = Some acc
    \<and> snd (mem_Code L d (ApplyBlock s b) (CodeHash acc) NewSideBuffer) = Inl ErrNotFound"
  using assms(2-5) healthy_lmdb.GetCode_eq [OF assms(1), of d h]
  by (simp add: tip_world_def ApplyBlock_def push_layer_def apply_batch_def mem_Code_def NewSideBuffer_def)

theorem unfinalized_code_witness:
  "snd (mem_Code alist_lmdb ex_db (ApplyBlock ex_st2 \<lparr>Block = 101, Hash = 11, Parent = 10, Time = 1000,
     Ops = [OpCode 3 [96], OpAccount 9 (ex_acct 1)]\<rparr>) 3 NewSideBuffer) = Inl ErrNotFound"
  using unfinalized_code [OF alist.healthy_lmdb_axioms, of ex_db 3 ex_st2 "\<lparr>Block = 101, Hash = 11, Parent = 10,
     Time = 1000, Ops = [OpCode 3 [96], OpAccount 9 (ex_acct 1)]\<rparr>" "[96]" 9 "ex_acct 1" ex_kc]
  by (simp add: ex_rows lockAndDrain_def ex_st2_eq ex_st_def drain_buffer_def NewSideBuffer_def NewMap_def ex_acct_def)

section \<open>Batches\<close>

lemma layers_Reset_nil: "layers (mem_PreferenceReset st []) = []"
  by (simp add: mem_PreferenceReset_def)


lemma ex_reader_outcome: "outcome kc w ti Map.empty Map.empty (ex_reader a) r \<longleftrightarrow> r = Inr (w_slot w a 1)"
  by (auto simp: ex_reader_def outcome_simps)

lemma ex_run: "\<exists>cfg' b. batch_runs alist_lmdb ex_kc map_of ((ex_db, ex_st3, []), start_batch ex_eng [7]) (cfg', b)
    \<and> batch_done b"
  by (rule batch_can_finish) (use ex_pool(2) in \<open>auto simp: start_batch_def batch_workers_def\<close>)


text \<open>
  During a batch no two goroutines have the same side buffer, so that the plain maps of the read phase
  are never written by two of them.
\<close>

theorem batch_buffers_exclusive:
  assumes "healthy_lmdb L kv" and "config_ok kc kv S cfg" and "pool_ok (length (buffers (fst (snd cfg)))) xs (pool e)"
    and "batch_runs L kc kv (cfg, start_batch e calls) (cfg', b)"
  shows "distinct (map (\<lambda>t. v_sb (w_view (fst (snd t)))) (running b))"
  using healthy_lmdb.batch_exclusive [OF assms] .

theorem batch_buffers_exclusive_witness:
  "\<exists>b. batch_step alist_lmdb ex_kc map_of ((ex_db, ex_st3, []), start_batch ex_eng [7, 8]) ((ex_db, ex_st3, []), b)
    \<and> running b \<noteq> [] \<and> distinct (map (\<lambda>t. v_sb (w_view (fst (snd t)))) (running b))"
proof -
  have t: "todo (start_batch ex_eng [7, 8]) = (0, 7) # [(1, 8)]" by (simp add: start_batch_def)
  obtain w ws where f: "free (start_batch ex_eng [7, 8]) = w # ws"
    using ex_pool(2) by (cases "pool ex_eng") (simp_all add: start_batch_def)
  note st = batch_step.Spawn [OF t f, of alist_lmdb ex_kc map_of "(ex_db, ex_st3, [])"]
  let ?b = "(start_batch ex_eng [7, 8])\<lparr>todo := [(1, 8)], free := ws,
    running := running (start_batch ex_eng [7, 8]) @ [(0, w\<lparr>w_view := view_reset (w_view w)\<rparr>, ex w 7)]\<rparr>"
  have "batch_runs alist_lmdb ex_kc map_of ((ex_db, ex_st3, []), start_batch ex_eng [7, 8]) ((ex_db, ex_st3, []), ?b)"
    using st by (rule r_into_rtranclp)
  from batch_buffers_exclusive [OF alist.healthy_lmdb_axioms ex_config3(1) _ this, of "{ex_reader}"] ex_pool st
  show ?thesis by (intro exI [of _ ?b]) simp
qed

text \<open>
  C16. A batch cannot get stuck: with at least one worker, from every state a batch can reach there are
  steps that finish it, and \<^verbatim>\<open>Execute\<close> returns its results if no write comes before it looks at the tip.
\<close>

theorem batch_finishes:
  assumes "healthy_lmdb L kv" and "config_ok kc kv S cfg" and "pool_ok (length (buffers (fst (snd cfg)))) xs (pool e)"
    and "pool e \<noteq> []" and "batch_runs L kc kv (cfg, start_batch e calls) (cfg', b)"
  shows "\<exists>cfg'' b'. batch_runs L kc kv (cfg', b) (cfg'', b') \<and> batch_done b'
    \<and> execute L kc kv G calls (cfg, e) (cfg'', e\<lparr>pool := free b'\<rparr>) (results b')"
proof -
  from healthy_lmdb.batch_workers_count [OF assms(1-3,5)] assms(4) have "batch_workers b \<noteq> []" by auto
  from batch_can_finish [OF this, of L kc kv cfg'] obtain cfg'' b' where
    r: "batch_runs L kc kv (cfg', b) (cfg'', b')" "batch_done b'" by blast
  have r': "batch_runs L kc kv (cfg, start_batch e calls) (cfg'', b')" using assms(5) r(1) by (rule rtranclp_trans)
  from healthy_lmdb.batch_results [OF assms(1-3) r' r(2)] have "config_tip cfg'' = config_tip cfg"
    by (cases cfg, cases cfg'') (auto simp: same_tip_def TipInfo_def)
  with r r' show ?thesis using execute.Fresh [OF r' r(2) writer_run.Refl] by blast
qed

theorem batch_finishes_witness:
  "\<exists>cfg'' b'. batch_runs alist_lmdb ex_kc map_of ((ex_db, ex_st3, []), start_batch ex_eng [7, 8, 9]) (cfg'', b')
    \<and> batch_done b'
    \<and> execute alist_lmdb ex_kc map_of (\<lambda>_ _. True) [7, 8, 9] ((ex_db, ex_st3, []), ex_eng)
        (cfg'', ex_eng\<lparr>pool := free b'\<rparr>) (results b')"
  using batch_finishes [OF alist.healthy_lmdb_axioms ex_config3(1) _ _ rtranclp.rtrancl_refl, of "{ex_reader}" ex_eng]
    ex_pool by force

text \<open>
  C17. Stale batches are run again: when every change of the tip goes with a change of its hash, what
  \<^verbatim>\<open>Execute\<close> returns are outcomes of the calls in the tip world at the time it returns.
\<close>

theorem Execute_current:
  assumes "healthy_lmdb L kv" and "execute L kc kv (names_tip kc kv post) calls (cfg, e) (cfg', e') res"
    and "config_ok kc kv S cfg" and "tip_named kc kv post cfg"
    and "pool_ok (length (buffers (fst (snd cfg)))) xs (pool e)"
  shows "\<exists>ti. fst ti = config_tip cfg' \<and>
    (\<forall>i < length calls. \<exists>r. res i = Some r \<and> answered kc (config_world kc kv cfg') ti xs calls i r)"
  using healthy_lmdb.execute_current [OF assms] by blast

theorem Execute_current_witness:
  "\<exists>cfg' e' res. execute alist_lmdb ex_kc map_of (names_tip ex_kc map_of (\<lambda>_. ex_w1)) [7]
      ((ex_db, ex_st3, []), ex_eng) (cfg', e') res \<and> res 0 = Some (Inr (w_slot (config_world ex_kc map_of cfg') 7 1))"
proof -
  from ex_run obtain cfg' b where r: "batch_runs alist_lmdb ex_kc map_of ((ex_db, ex_st3, []), start_batch ex_eng [7]) (cfg', b)"
    "batch_done b" by blast
  from alist.batch_results [OF ex_config3(1) _ r, of "{ex_reader}"] ex_pool
  have "config_tip cfg' = config_tip (ex_db, ex_st3, [])" by (auto simp: same_tip_def TipInfo_def)
  note ex = execute.Fresh [OF r writer_run.Refl this]
  have "tip_named ex_kc map_of (\<lambda>_. ex_w1) (ex_db, ex_st3, [])"
    using ex_config3(2) by (simp add: tip_named_def ex_st3_def ApplyBlock_def push_layer_def)
  from Execute_current [OF alist.healthy_lmdb_axioms ex ex_config3(1) this, of "{ex_reader}"] ex_pool
  have "results b 0 = Some (Inr (w_slot (config_world ex_kc map_of cfg') 7 1))"
    by (auto simp: answered_def ex_reader_outcome)
  with ex show ?thesis by blast
qed

text \<open>
  C18. A reset to the empty chain goes unnoticed: it leaves the tip hash, height and time of the block it
  abandons, while the tip world becomes that of the store. A batch that ran before it is returned by
  \<^verbatim>\<open>Execute\<close> as current.
\<close>

theorem empty_reset_unnoticed:
  assumes "batch_runs L kc kv (cfg, start_batch e calls) ((d, st, []), b)" and "batch_done b"
    and "tip st = config_tip cfg"
  shows "execute L kc kv (\<lambda>_ _. True) calls (cfg, e) ((d, mem_PreferenceReset st [], []), e\<lparr>pool := free b\<rparr>) (results b)
    \<and> TipInfo (mem_PreferenceReset st []) = TipInfo st
    \<and> config_world kc kv (d, mem_PreferenceReset st [], []) = db_world kc kv d"
proof -
  have t: "TipInfo (mem_PreferenceReset st []) = TipInfo st" by (simp add: mem_PreferenceReset_def TipInfo_def lockAndDrain_def)
  have "mem_step L kc kv (d, st, []) (MReset []) (d, mem_PreferenceReset st [], [])"
    by (rule mem_step.Reset) simp
  then have "writer_run L kc kv (\<lambda>_ _. True) (d, st, []) (d, mem_PreferenceReset st [], [])"
    by (intro writer_run.Step [OF writer_run.Refl]) simp_all
  from execute.Fresh [OF assms(1,2) this] t assms(3) show ?thesis
    by (simp add: TipInfo_def config_world_def tip_world_def layers_Reset_nil)
qed

lemma ex_layer_hit:
  "mem_Slot alist_lmdb ex_kc ex_db ex_st3 7 1 (buffers ex_st3 ! 0) = (ex_db, buffers ex_st3 ! 0, Inr 42)"
proof -
  have "layers ex_st3 = map newLayer [ex_b1]"
    by (simp add: ex_st3_def ApplyBlock_def push_layer_def ex_st2_eq ex_st_def)
  then have "layers_slot (rev (layers ex_st3)) (7, 1) = Some 42"
    using layers_lookup(2) [of "[ex_b1]" 7 1] by (simp add: ex_batches)
  then show ?thesis by (simp add: mem_Slot_def)
qed

lemma ex_one_call:
  "\<exists>b. batch_runs alist_lmdb ex_kc map_of ((ex_db, ex_st3, []), start_batch ex_eng [7]) ((ex_db, ex_st3, []), b)
    \<and> batch_done b \<and> results b 0 = Some (Inr 42)"
proof -
  define w :: "(address, error + hash) worker" where "w = \<lparr>ex = ex_reader, w_view = newView 0\<rparr>"
  obtain ws where p: "pool ex_eng = w # ws"
    by (simp add: ex_eng_def engine_New_def Register_def ex_st_def w_def)
  let ?c = "(ex_db, ex_st3, [])" and ?b0 = "start_batch ex_eng [7]"
  let ?b1 = "?b0\<lparr>todo := [], free := ws, running := [(0, w, ex_reader 7)]\<rparr>"
  let ?b2 = "?b1\<lparr>running := [(0, w, Return (Inr 42))]\<rparr>"
  let ?b3 = "?b2\<lparr>running := [], results := [0 \<mapsto> Inr 42], free := ws @ [w]\<rparr>"
  have "view_reset (newView 0) = newView 0" by (simp add: view_reset_def newView_def)
  then have s1: "batch_step alist_lmdb ex_kc map_of (?c, ?b0) (?c, ?b1)"
    using batch_step.Spawn [of ?b0 0 7 "[]" w ws alist_lmdb ex_kc map_of ?c] p by (simp add: start_batch_def w_def)
  have "prog_step alist_lmdb ex_kc (ex_db, ex_st3) (w_view w) (ex_reader 7) = ((ex_db, ex_st3), w_view w, Return (Inr 42))"
    using ex_layer_hit by (simp add: w_def newView_def ex_reader_def View_Slot_def)
  then have s2: "batch_step alist_lmdb ex_kc map_of (?c, ?b1) (?c, ?b2)"
    using batch_step.Exec [of 0 ?b1 0 w "ex_reader 7" alist_lmdb ex_kc ex_db ex_st3 ex_db ex_st3 "w_view w"
        "Return (Inr 42)" map_of "[]"] by simp
  have s3: "batch_step alist_lmdb ex_kc map_of (?c, ?b2) (?c, ?b3)"
    using batch_step.Done [of ?b2 "[]" 0 w "Inr 42" "[]" alist_lmdb ex_kc map_of ?c] by (simp add: start_batch_def)
  have "batch_runs alist_lmdb ex_kc map_of (?c, ?b0) (?c, ?b3)"
    using s1 s2 s3 by (meson converse_rtranclp_into_rtranclp rtranclp.rtrancl_refl)
  then show ?thesis by (intro exI [of _ ?b3]) (simp add: batch_done_def)
qed

theorem empty_reset_unnoticed_witness:
  "\<exists>e' res. execute alist_lmdb ex_kc map_of (\<lambda>_ _. True) [7] ((ex_db, ex_st3, []), ex_eng)
      ((ex_db, mem_PreferenceReset ex_st3 [], []), e') res
    \<and> res 0 = Some (Inr 42) \<and> w_slot (config_world ex_kc map_of (ex_db, mem_PreferenceReset ex_st3 [], [])) 7 1 = 0"
proof -
  from ex_one_call obtain b where r: "batch_runs alist_lmdb ex_kc map_of ((ex_db, ex_st3, []), start_batch ex_eng [7])
      ((ex_db, ex_st3, []), b)" "batch_done b" "results b 0 = Some (Inr 42)" by blast
  from empty_reset_unnoticed [OF r(1,2)] r(3) show ?thesis by (auto simp: ex_db_world ex_w0_def)
qed

section \<open>Simulated calls\<close>


text \<open>
  C19. Reverting is exact: whatever a call does after a snapshot, with nested snapshots and reverts,
  failed reads and all, reverting to the snapshot restores everything the call can see of the overlay, and
  the journal; as long as code is deposited at addresses without code in the overlay.
\<close>

theorem revert_exact:
  assumes "cmds_ok V kc (Snapshot s) cs s"
  shows "same_overlay (RevertToSnapshot (fold (sd_do V kc) cs s) (Snapshot s)) s
    \<and> journal (RevertToSnapshot (fold (sd_do V kc) cs s) (Snapshot s)) = journal s"
  using undoes_exact [OF undoes_run [OF assms undoes_refl]] by blast

text \<open>A view on which every read fails.\<close>

definition ex_view :: "unit view_ops" where
  "ex_view = \<lparr>vw_Account = (\<lambda>v a. (v, Inl ErrNotFound)), vw_Balance = (\<lambda>v a. (v, Inl ErrNotFound)),
     vw_Slot = (\<lambda>v a s. (v, Inl ErrNotFound)), vw_Code = (\<lambda>v h. (v, Inl ErrNotFound)),
     vw_TipInfo = (\<lambda>v. (0, 1, 1))\<rparr>"



theorem revert_exact_witness:
  "same_overlay (RevertToSnapshot (fold (sd_do ex_view ex_kc)
      [CSetState 7 1 5, CAddBalance 7 9, CSetState 7 1 6, CRevert 1, CCreate 8, CSetCode 8 [96], CAddSlot 8 3]
      (newStateDB () :: (unit, nat) stateDB)) 0) (newStateDB ())"
  using revert_exact [of ex_view ex_kc "newStateDB () :: (unit, nat) stateDB"
      "[CSetState 7 1 5, CAddBalance 7 9, CSetState 7 1 6, CRevert 1, CCreate 8, CSetCode 8 [96], CAddSlot 8 3]"]
  by (simp add: Snapshot_def newStateDB_def RevertToSnapshot_def SetState_def AddBalance_def sd_balance_def ex_view_def
      sd_setBalance_def log_entry_def sd_fail_def CreateAccount_def Let_def)

text \<open>
  C20. Without that proviso it is not: a second deposit of code at an address is undone by deleting both,
  the code that was there at the snapshot included.
\<close>

theorem revert_drops_code:
  "codes (SetCode kc s a c) a = Some c
   \<and> codes (RevertToSnapshot (SetCode kc (SetCode kc s a c) a c') (Snapshot (SetCode kc s a c))) a = None"
  by (simp add: SetCode_def RevertToSnapshot_def Snapshot_def log_entry_def)





end
