(* ===== verification/Tipbus.thy ===== *)
theory Tipbus
  imports Lmdb World
begin

text \<open>
  Package \<^verbatim>\<open>tipbus\<close> (\<^verbatim>\<open>src/tipbus/tipbus.go\<close>): the ephemeral environment through which the
  writer publishes unfinalized blocks to readers in other processes. The writer's handle carries a
  mirror of the published stack; a reader only looks at the environment.

  The specification is the log of published events: \<open>bus_log\<close> relates a handle to its log, the
  three publish operations append to it, \<^verbatim>\<open>Poll\<close> returns the part of the log after a cursor and
  \<^verbatim>\<open>Handshake\<close> returns the stack the log has built. \<open>publish_lost\<close> is about a commit that fails.
\<close>

definition keySeq :: bytes where
  "keySeq = [0]"

definition keyState :: bytes where
  "keyState = [1]"

definition event_key :: "u64 \<Rightarrow> bytes" where
  "event_key seq = 2 # be_bytes 8 seq"

datatype event =
    EvBlock batch
  | EvFinalize u64 hash
  | EvReset "batch list"

record 'e bus =
  bus_env :: 'e
  bus_seq :: u64
  bus_finalized :: u64
  bus_layers :: "batch list"

subsection \<open>Publisher\<close>

text \<open>The length-prefixed encodings of a list of batches, appended to \<open>v\<close>.\<close>

fun append_frames :: "bytes \<Rightarrow> batch list \<Rightarrow> error + bytes" where
  "append_frames v [] = Inr v"
| "append_frames v (l # ls) =
     (case Encode [] l of
        Inl err \<Rightarrow> Inl err
      | Inr enc \<Rightarrow> append_frames (v @ be_bytes 4 (of_nat (length enc) :: u32) @ enc) ls)"

definition writeState :: "'e lmdb_ops \<Rightarrow> 'e bus \<Rightarrow> 'e \<Rightarrow> error + 'e" where
  "writeState L b t =
     (case append_frames (be_bytes 8 (bus_finalized b) @ be_bytes 4 (of_nat (length (bus_layers b)) :: u32))
             (bus_layers b) of
        Inl err \<Rightarrow> Inl err
      | Inr v \<Rightarrow> lift_mdb (mdb_put L t keyState v))"

definition open_writer_txn :: "'e lmdb_ops \<Rightarrow> 'e \<Rightarrow> error + 'e" where
  "open_writer_txn L t =
     (case lift_mdb (mdb_drop L t) of
        Inl err \<Rightarrow> Inl err
      | Inr t1 \<Rightarrow>
          (case lift_mdb (mdb_put L t1 keySeq (be_bytes 8 (0 :: u64))) of
             Inl err \<Rightarrow> Inl err
           | Inr t2 \<Rightarrow>
               writeState L \<lparr>bus_env = t2, bus_seq = 0, bus_finalized = 0, bus_layers = []\<rparr> t2))"

definition OpenWriter :: "'e lmdb_ops \<Rightarrow> 'e \<Rightarrow> error + 'e bus" where
  "OpenWriter L e =
     (case Update L e (open_writer_txn L) of
        (e', None) \<Rightarrow> Inr \<lparr>bus_env = e', bus_seq = 0, bus_finalized = 0, bus_layers = []\<rparr>
      | (e', Some err) \<Rightarrow> Inl err)"

text \<open>
  \<^verbatim>\<open>publish\<close>: the closure increments the writer's counter after the second put, whatever becomes
  of the last put and of the commit.
\<close>

definition publish :: "'e lmdb_ops \<Rightarrow> 'e bus \<Rightarrow> bytes \<Rightarrow> 'e bus \<times> error option" where
  "publish L b payload =
     (case lift_mdb (mdb_put L (bus_env b) (event_key (bus_seq b)) payload) of
        Inl err \<Rightarrow> (b, Some err)
      | Inr t1 \<Rightarrow>
          (case writeState L b t1 of
             Inl err \<Rightarrow> (b, Some err)
           | Inr t2 \<Rightarrow>
               (let b' = b\<lparr>bus_seq := bus_seq b + 1\<rparr>
                in case lift_mdb (mdb_put L t2 keySeq (be_bytes 8 (bus_seq b'))) of
                     Inl err \<Rightarrow> (b', Some err)
                   | Inr t3 \<Rightarrow>
                       (case mdb_commit L t3 of
                          Inl m \<Rightarrow> (b', Some (ErrLmdb m))
                        | Inr e' \<Rightarrow> (b'\<lparr>bus_env := e'\<rparr>, None)))))"

definition PublishBlock :: "'e lmdb_ops \<Rightarrow> 'e bus \<Rightarrow> batch \<Rightarrow> 'e bus \<times> error option" where
  "PublishBlock L b batch =
     (let b' = b\<lparr>bus_layers := bus_layers b @ [batch]\<rparr>
      in case Encode [1] batch of Inl err \<Rightarrow> (b', Some err) | Inr p \<Rightarrow> publish L b' p)"

definition PublishFinalize :: "'e lmdb_ops \<Rightarrow> 'e bus \<Rightarrow> u64 \<Rightarrow> hash \<Rightarrow> 'e bus \<times> error option" where
  "PublishFinalize L b height h =
     (case bus_layers b of
        [] \<Rightarrow> (b, Some (ErrFinalize height))
      | l # ls \<Rightarrow>
          (if Block l \<noteq> height then (b, Some (ErrFinalize height))
           else publish L (b\<lparr>bus_layers := ls, bus_finalized := height\<rparr>)
                  ([2] @ be_bytes 8 height @ be_bytes 32 h)))"

definition PublishReset :: "'e lmdb_ops \<Rightarrow> 'e bus \<Rightarrow> batch list \<Rightarrow> 'e bus \<times> error option" where
  "PublishReset L b preferred =
     (let b' = b\<lparr>bus_layers := preferred\<rparr>
      in case append_frames ([3] @ be_bytes 4 (of_nat (length preferred) :: u32)) preferred of
           Inl err \<Rightarrow> (b', Some err)
         | Inr p \<Rightarrow> publish L b' p)"

subsection \<open>Subscriber\<close>

text \<open>\<^verbatim>\<open>binary.BigEndian.Uint64\<close> reads the first eight bytes and panics on fewer.\<close>

definition be_u64 :: "bytes \<Rightarrow> error + u64" where
  "be_u64 v = (if length v < 8 then Inl (Panic ''index out of range'') else Inr (be_word (take 8 v)))"

definition Seq :: "'e lmdb_ops \<Rightarrow> 'e \<Rightarrow> error + u64" where
  "Seq L e =
     (case mdb_get L e keySeq of
        Inl MDB_NOTFOUND \<Rightarrow> Inr 0
      | Inl m \<Rightarrow> Inl (ErrLmdb m)
      | Inr v \<Rightarrow> be_u64 v)"

text \<open>
  One frame. The bound of the slice \<^verbatim>\<open>v[4 : 4+l]\<close> is computed in \<^verbatim>\<open>uint32\<close>, the check before it
  in \<^verbatim>\<open>int\<close>: when \<open>4 + l\<close> wraps the slice expression panics.
\<close>

definition take_frame :: "bytes \<Rightarrow> error + bytes \<times> bytes" where
  "take_frame v =
     (if length v < 4 then Inl ErrTruncated
      else let l = (be_word (take 4 v) :: u32); hi = unat (4 + l)
           in if length v < 4 + unat l then Inl ErrTruncated
              else if hi < 4 then Inl (Panic ''slice bounds out of range'')
              else Inr (drop 4 (take hi v), drop hi v))"

fun decode_frames :: "nat \<Rightarrow> bytes \<Rightarrow> batch list \<Rightarrow> error + batch list" where
  "decode_frames 0 v ls = Inr ls"
| "decode_frames (Suc n) v ls =
     (case take_frame v of
        Inl err \<Rightarrow> Inl err
      | Inr (enc, rest) \<Rightarrow>
          (case Decode enc of Inl err \<Rightarrow> Inl err | Inr b \<Rightarrow> decode_frames n rest (ls @ [b])))"

definition Handshake :: "'e lmdb_ops \<Rightarrow> 'e \<Rightarrow> error + u64 \<times> batch list \<times> u64" where
  "Handshake L e =
     (case mdb_get L e keySeq of
        Inl MDB_NOTFOUND \<Rightarrow> Inl ErrUninitialized
      | Inl m \<Rightarrow> Inl (ErrLmdb m)
      | Inr sv \<Rightarrow>
          (case be_u64 sv of
             Inl err \<Rightarrow> Inl err
           | Inr seq \<Rightarrow>
               (case mdb_get L e keyState of
                  Inl m \<Rightarrow> Inl (ErrLmdb m)
                | Inr v \<Rightarrow>
                    (if length v < 12 then Inl ErrTruncated
                     else case decode_frames (unat (be_word (take 4 (drop 8 v)) :: u32)) (drop 12 v) [] of
                            Inl err \<Rightarrow> Inl err
                          | Inr ls \<Rightarrow> Inr (be_word (take 8 v), ls, seq)))))"

definition decodeEvent :: "bytes \<Rightarrow> error + event" where
  "decodeEvent v =
     (case v of
        [] \<Rightarrow> Inl ErrTruncated
      | k # body \<Rightarrow>
          (if k = 1 then (case Decode body of Inl err \<Rightarrow> Inl err | Inr b \<Rightarrow> Inr (EvBlock b))
           else if k = 2 then
             (if length body \<noteq> 40 then Inl (ErrBadLength (length body))
              else Inr (EvFinalize (be_word (take 8 body)) (be_word (drop 8 body))))
           else if k = 3 then
             (if length body < 4 then Inl ErrTruncated
              else case decode_frames (unat (be_word (take 4 body) :: u32)) (drop 4 body) [] of
                     Inl err \<Rightarrow> Inl err | Inr ls \<Rightarrow> Inr (EvReset ls))
           else Inl (ErrUnknownKind k)))"

text \<open>
  The loop of \<^verbatim>\<open>Poll\<close>, \<open>n\<close> iterations left: events read so far, cursor and error are all returned.
\<close>

fun poll_loop ::
  "'e lmdb_ops \<Rightarrow> 'e \<Rightarrow> nat \<Rightarrow> u64 \<Rightarrow> event list \<Rightarrow> event list \<times> u64 \<times> error option" where
  "poll_loop L e 0 next evs = (evs, next, None)"
| "poll_loop L e (Suc n) next evs =
     (case mdb_get L e (event_key next) of
        Inl m \<Rightarrow> (evs, next, Some (ErrLmdb m))
      | Inr v \<Rightarrow>
          (case decodeEvent v of
             Inl err \<Rightarrow> (evs, next, Some err)
           | Inr ev \<Rightarrow> poll_loop L e n (next + 1) (evs @ [ev])))"

definition Poll :: "'e lmdb_ops \<Rightarrow> 'e \<Rightarrow> u64 \<Rightarrow> event list \<times> u64 \<times> error option" where
  "Poll L e from_seq =
     (case mdb_get L e keySeq of
        Inl MDB_NOTFOUND \<Rightarrow> ([], from_seq, None)
      | Inl m \<Rightarrow> ([], from_seq, Some (ErrLmdb m))
      | Inr sv \<Rightarrow>
          (case be_u64 sv of
             Inl err \<Rightarrow> ([], from_seq, Some err)
           | Inr cur \<Rightarrow> poll_loop L e (unat cur - unat from_seq) from_seq []))"

subsection \<open>Frames and events round trip\<close>

text \<open>A batch that fits a frame: its encoding is short enough for the reader's arithmetic.\<close>

definition batch_enc :: "batch \<Rightarrow> bytes" where
  "batch_enc b = projr (Encode [] b)"

definition framed :: "batch \<Rightarrow> bool" where
  "framed b \<longleftrightarrow> sized b \<and> length (batch_enc b) + 4 < 2 ^ 32"

definition frame :: "batch \<Rightarrow> bytes" where
  "frame b = (let enc = batch_enc b in be_bytes 4 (of_nat (length enc) :: u32) @ enc)"

lemma framed_Encode: "framed b \<Longrightarrow> Encode dst b = Inr (dst @ batch_enc b)"
  using Encode_total [of b "[]"] Encode_append [of dst b] by (auto simp: framed_def batch_enc_def)

lemma framed_Decode: "framed b \<Longrightarrow> Decode (batch_enc b) = Inr b"
  using framed_Encode [of b "[]"] by (simp add: Decode_iff framed_def)

lemma append_frames_eq:
  "list_all framed ls \<Longrightarrow> append_frames v ls = Inr (v @ concat (map frame ls))"
  by (induction ls arbitrary: v) (simp_all add: framed_Encode frame_def Let_def)

lemma take_frame_eq:
  assumes "framed b"
  shows "take_frame (frame b @ rest) = Inr (batch_enc b, rest)"
proof -
  let ?enc = "batch_enc b"
  from assms have lt: "length ?enc < 2 ^ 32" "4 + length ?enc < 2 ^ 32" by (simp_all add: framed_def)
  from lt(1) have u: "unat (of_nat (length ?enc) :: u32) = length ?enc" by (rule unat_u32_of_nat)
  from lt(2) have "unat (of_nat (4 + length ?enc) :: u32) = 4 + length ?enc" by (rule unat_u32_of_nat)
  then have w: "unat (4 + of_nat (length ?enc) :: u32) = 4 + length ?enc"
    by (simp only: of_nat_add of_nat_numeral)
  show ?thesis
    by (simp add: take_frame_def frame_def Let_def u32c.dec_enc u w)
qed

lemma decode_frames_eq:
  "list_all framed bs \<Longrightarrow> decode_frames (length bs) (concat (map frame bs) @ rest) ls = Inr (ls @ bs)"
proof (induction bs arbitrary: ls)
  case (Cons b bs)
  then show ?case by (simp add: take_frame_eq framed_Decode)
qed simp

fun event_enc :: "event \<Rightarrow> bytes" where
  "event_enc (EvBlock b) = [1] @ batch_enc b"
| "event_enc (EvFinalize height h) = [2] @ be_bytes 8 height @ be_bytes 32 h"
| "event_enc (EvReset bs) = [3] @ be_bytes 4 (of_nat (length bs) :: u32) @ concat (map frame bs)"

fun event_framed :: "event \<Rightarrow> bool" where
  "event_framed (EvBlock b) \<longleftrightarrow> framed b"
| "event_framed (EvFinalize height h) \<longleftrightarrow> True"
| "event_framed (EvReset bs) \<longleftrightarrow> list_all framed bs \<and> length bs < 2 ^ 32"

lemma decodeEvent_enc: "event_framed ev \<Longrightarrow> decodeEvent (event_enc ev) = Inr ev"
proof (cases ev)
  case (EvBlock b)
  then show "event_framed ev \<Longrightarrow> decodeEvent (event_enc ev) = Inr ev"
    by (simp add: decodeEvent_def framed_Decode)
next
  case (EvReset bs)
  then show "event_framed ev \<Longrightarrow> decodeEvent (event_enc ev) = Inr ev"
    using decode_frames_eq [of bs "[]" "[]"]
    by (simp add: decodeEvent_def u32c.dec_enc unat_u32_of_nat)
qed (simp add: decodeEvent_def u64c.dec_enc hashc.dec_enc)

subsection \<open>The log\<close>

text \<open>What a reader makes of an event: the stack of unfinalized batches and the finalized height.\<close>

fun ev_layers :: "event \<Rightarrow> batch list \<Rightarrow> batch list" where
  "ev_layers (EvBlock b) ls = ls @ [b]"
| "ev_layers (EvFinalize height h) ls = tl ls"
| "ev_layers (EvReset bs) ls = bs"

fun ev_finalized :: "event \<Rightarrow> u64 \<Rightarrow> u64" where
  "ev_finalized (EvFinalize height h) f = height"
| "ev_finalized _ f = f"

definition state_enc :: "u64 \<Rightarrow> batch list \<Rightarrow> bytes" where
  "state_enc f ls = be_bytes 8 f @ be_bytes 4 (of_nat (length ls) :: u32) @ concat (map frame ls)"

definition bus_log :: "('e \<Rightarrow> bytes \<rightharpoonup> bytes) \<Rightarrow> 'e bus \<Rightarrow> event list \<Rightarrow> bool" where
  "bus_log kv b log \<longleftrightarrow>
     length log < 2 ^ 64 \<and> bus_seq b = of_nat (length log)
     \<and> bus_layers b = fold ev_layers log [] \<and> bus_finalized b = fold ev_finalized log 0
     \<and> list_all event_framed log \<and> list_all framed (bus_layers b) \<and> length (bus_layers b) < 2 ^ 32
     \<and> kv (bus_env b) keySeq = Some (be_bytes 8 (bus_seq b))
     \<and> kv (bus_env b) keyState = Some (state_enc (bus_finalized b) (bus_layers b))
     \<and> (\<forall>i < length log. kv (bus_env b) (event_key (of_nat i)) = Some (event_enc (log ! i)))
     \<and> (\<forall>j. length log \<le> unat j \<longrightarrow> kv (bus_env b) (event_key j) = None)"

lemma bus_keys [simp]:
  "keySeq \<noteq> keyState" "event_key i \<noteq> keySeq" "event_key i \<noteq> keyState"
  "event_key i = event_key j \<longleftrightarrow> i = j" "keyState \<noteq> keySeq" "keySeq \<noteq> event_key i" "keyState \<noteq> event_key i"
  "key_ok keySeq" "key_ok keyState" "key_ok (event_key i)"
  by (auto simp: keySeq_def keyState_def event_key_def key_ok_def u64c.enc_inject)

lemma bus_logD:
  assumes "bus_log kv b log"
  shows "bus_layers b = fold ev_layers log []" "bus_finalized b = fold ev_finalized log 0"
    "bus_seq b = of_nat (length log)" "length log < 2 ^ 64"
    "list_all framed (bus_layers b)" "length (bus_layers b) < 2 ^ 32"
    "kv (bus_env b) keySeq = Some (be_bytes 8 (bus_seq b))"
    "kv (bus_env b) keyState = Some (state_enc (bus_finalized b) (bus_layers b))"
  using assms unfolding bus_log_def by blast+

lemma bus_same_finalized:
  "b\<lparr>bus_layers := ls, bus_finalized := bus_finalized b\<rparr> = b\<lparr>bus_layers := ls\<rparr>"
  by (cases b) simp

lemma state_enc_decode:
  assumes "list_all framed ls" and "length ls < 2 ^ 32"
  shows "decode_frames (unat (be_word (take 4 (drop 8 (state_enc f ls))) :: u32)) (drop 12 (state_enc f ls)) []
      = Inr ls"
    and "be_word (take 8 (state_enc f ls)) = f" and "12 \<le> length (state_enc f ls)"
  using decode_frames_eq [OF assms(1), of "[]" "[]"] assms(2)
  by (simp_all add: state_enc_def u64c.dec_enc u32c.dec_enc unat_u32_of_nat)

lemma of_nat_u64_eq: "i < 2 ^ 64 \<Longrightarrow> j < 2 ^ 64 \<Longrightarrow> of_nat i = (of_nat j :: u64) \<longleftrightarrow> i = j"
  by (metis unat_u64_of_nat)

context healthy_lmdb
begin

lemma writeState_kv:
  assumes "list_all framed (bus_layers b)"
  shows "\<exists>t'. writeState L b t = Inr t' \<and> kv t' = (kv t)(keyState \<mapsto> state_enc (bus_finalized b) (bus_layers b))"
  using put_eq [of keyState t] assms
  by (auto simp: writeState_def append_frames_eq state_enc_def lift_mdb_def split: sum.splits)
    (metis sum.distinct(1) sum.inject(2))+

lemma publish_kv:
  assumes "list_all framed (bus_layers b)"
  shows "\<exists>e. publish L b p = (b\<lparr>bus_seq := bus_seq b + 1, bus_env := e\<rparr>, None)
    \<and> kv e = (kv (bus_env b))(event_key (bus_seq b) \<mapsto> p,
         keyState \<mapsto> state_enc (bus_finalized b) (bus_layers b), keySeq \<mapsto> be_bytes 8 (bus_seq b + 1))"
proof -
  obtain t1 where t1: "mdb_put L (bus_env b) (event_key (bus_seq b)) p = Inr t1"
    "kv t1 = (kv (bus_env b))(event_key (bus_seq b) \<mapsto> p)"
    using put_eq [of "event_key (bus_seq b)" "bus_env b" p] by auto
  obtain t2 where t2: "writeState L b t1 = Inr t2"
    "kv t2 = (kv t1)(keyState \<mapsto> state_enc (bus_finalized b) (bus_layers b))"
    using writeState_kv [OF assms] by blast
  obtain t3 where t3: "mdb_put L t2 keySeq (be_bytes 8 (bus_seq b + 1)) = Inr t3"
    "kv t3 = (kv t2)(keySeq \<mapsto> be_bytes 8 (bus_seq b + 1))"
    using put_eq [of keySeq t2] by auto
  obtain e where e: "mdb_commit L t3 = Inr e" "kv e = kv t3" using commit_eq by blast
  show ?thesis
    by (rule exI [of _ e]) (simp add: publish_def lift_mdb_def t1 t2 t3 e Let_def)
qed

lemma publish_log:
  assumes log: "bus_log kv b log" "length log + 1 < 2 ^ 64"
    and ev: "event_framed ev" "list_all framed (ev_layers ev (bus_layers b))"
      "length (ev_layers ev (bus_layers b)) < 2 ^ 32"
  shows "\<exists>b'. publish L (b\<lparr>bus_layers := ev_layers ev (bus_layers b),
      bus_finalized := ev_finalized ev (bus_finalized b)\<rparr>) (event_enc ev) = (b', None)
    \<and> bus_log kv b' (log @ [ev]) \<and> bus_layers b' = ev_layers ev (bus_layers b)"
proof -
  let ?b = "b\<lparr>bus_layers := ev_layers ev (bus_layers b), bus_finalized := ev_finalized ev (bus_finalized b)\<rparr>"
  from publish_kv [of ?b "event_enc ev"] ev(2) obtain e where
    p: "publish L ?b (event_enc ev) = (?b\<lparr>bus_seq := bus_seq b + 1, bus_env := e\<rparr>, None)"
    and e: "kv e = (kv (bus_env b))(event_key (bus_seq b) \<mapsto> event_enc ev,
         keyState \<mapsto> state_enc (ev_finalized ev (bus_finalized b)) (ev_layers ev (bus_layers b)),
         keySeq \<mapsto> be_bytes 8 (bus_seq b + 1))"
    by auto
  have "event_key (of_nat i) \<noteq> event_key (bus_seq b)" if "i < length log" for i
    using that log of_nat_u64_eq [of i "length log"] by (simp add: bus_log_def)
  moreover have "event_key j \<noteq> event_key (bus_seq b)" if "length log < unat j" for j
    using that log by (auto simp: bus_log_def unat_u64_of_nat)
  ultimately have "bus_log kv (?b\<lparr>bus_seq := bus_seq b + 1, bus_env := e\<rparr>) (log @ [ev])"
    using log ev by (auto simp: e bus_log_def nth_append less_Suc_eq)
  then show ?thesis unfolding p by auto
qed

lemma PublishBlock_log:
  assumes "bus_log kv b log" "length log + 1 < 2 ^ 64" "framed x" "length (bus_layers b) + 1 < 2 ^ 32"
  shows "\<exists>b'. PublishBlock L b x = (b', None) \<and> bus_log kv b' (log @ [EvBlock x])
    \<and> bus_layers b' = bus_layers b @ [x]"
  using publish_log [of b log "EvBlock x"] assms bus_logD(5) [OF assms(1)]
  by (simp add: PublishBlock_def Let_def framed_Encode bus_same_finalized)

lemma PublishFinalize_log:
  assumes "bus_log kv b log" "length log + 1 < 2 ^ 64" "bus_layers b = x # ls"
  shows "\<exists>b'. PublishFinalize L b (Block x) h = (b', None)
    \<and> bus_log kv b' (log @ [EvFinalize (Block x) h]) \<and> bus_layers b' = ls"
proof -
  have "list_all framed ls" "length ls < 2 ^ 32" using assms by (auto simp: bus_log_def)
  with publish_log [of b log "EvFinalize (Block x) h"] assms show ?thesis
    by (simp add: PublishFinalize_def)
qed

lemma PublishReset_log:
  assumes "bus_log kv b log" "length log + 1 < 2 ^ 64" "list_all framed bs" "length bs < 2 ^ 32"
  shows "\<exists>b'. PublishReset L b bs = (b', None) \<and> bus_log kv b' (log @ [EvReset bs])
    \<and> bus_layers b' = bs"
  using publish_log [of b log "EvReset bs"] assms
  by (simp add: PublishReset_def Let_def append_frames_eq bus_same_finalized)

lemma OpenWriter_log: "\<exists>b. OpenWriter L e = Inr b \<and> bus_log kv b []"
proof -
  obtain t1 where t1: "mdb_drop L e = Inr t1" "kv t1 = Map.empty"
    using drop_total drop_effect by metis
  obtain t2 where t2: "mdb_put L t1 keySeq (be_bytes 8 (0 :: u64)) = Inr t2"
    "kv t2 = (kv t1)(keySeq \<mapsto> be_bytes 8 (0 :: u64))"
    using put_eq [of keySeq t1] by auto
  let ?b = "\<lparr>bus_env = t2, bus_seq = 0, bus_finalized = 0, bus_layers = []\<rparr>"
  obtain t3 where t3: "writeState L ?b t2 = Inr t3" "kv t3 = (kv t2)(keyState \<mapsto> state_enc 0 [])"
    using writeState_kv [of ?b t2] by auto
  have "open_writer_txn L e = Inr t3" by (simp add: open_writer_txn_def lift_mdb_def t1 t2 t3)
  from Update_ok [of "open_writer_txn L", OF this] t1 t2 t3 show ?thesis
    by (auto simp: OpenWriter_def bus_log_def)
qed

lemma poll_loop_log:
  assumes "bus_log kv b log" and "i \<le> length log"
  shows "poll_loop L (bus_env b) (length log - i) (of_nat i) evs = (evs @ drop i log, of_nat (length log), None)"
  using assms(2)
proof (induction "length log - i" arbitrary: i evs)
  case (Suc n)
  then have i: "i < length log" and n: "length log - i = Suc (length log - Suc i)" by auto
  have g: "mdb_get L (bus_env b) (event_key (of_nat i)) = Inr (event_enc (log ! i))"
    using assms(1) i by (simp add: get_eq bus_log_def)
  have "decodeEvent (event_enc (log ! i)) = Inr (log ! i)"
    using assms(1) i by (auto intro!: decodeEvent_enc simp: bus_log_def list_all_length)
  moreover have "of_nat i + 1 = (of_nat (Suc i) :: u64)" by (simp add: add.commute)
  ultimately show ?case
    using Suc(1) [of "Suc i" "evs @ [log ! i]"] Suc(2) i
    by (simp add: n g Cons_nth_drop_Suc del: of_nat_Suc)
qed simp

lemma Poll_log:
  assumes "bus_log kv b log" and "i \<le> length log"
  shows "Poll L (bus_env b) (of_nat i) = (drop i log, of_nat (length log), None)"
proof -
  have "unat (bus_seq b) - unat (of_nat i :: u64) = length log - i"
    using assms by (auto simp: bus_log_def unat_u64_of_nat)
  with assms poll_loop_log [OF assms, of "[]"] show ?thesis
    by (simp add: Poll_def get_eq be_u64_def bus_log_def u64c.dec_enc)
qed

lemma Handshake_log:
  assumes "bus_log kv b log"
  shows "Handshake L (bus_env b) =
    Inr (fold ev_finalized log 0, fold ev_layers log [], of_nat (length log))"
  using state_enc_decode [OF bus_logD(5,6) [OF assms], of "bus_finalized b"]
  by (simp add: Handshake_def get_eq be_u64_def bus_logD(7,8) [OF assms] u64c.dec_enc)
    (simp add: bus_logD(1-3) [OF assms])

text \<open>
  A commit that fails: the environment stays as it was, the counter of the handle does not. The
  next publish goes one key too far, and every reader at the cursor of the lost event is stuck.
\<close>

lemma publish_lost:
  assumes log: "bus_log kv b log" and nowrap: "length log + 2 < 2 ^ 64"
    and fr: "list_all framed (bus_layers b')" "bus_env b' = bus_env b" "bus_seq b' = bus_seq b"
  shows "\<exists>b1. publish (L\<lparr>mdb_commit := \<lambda>_. Inl m\<rparr>) b' p = (b1, Some (ErrLmdb m))
    \<and> b1 = b'\<lparr>bus_seq := bus_seq b + 1\<rparr>
    \<and> (\<exists>b2. publish L b1 q = (b2, None)
         \<and> Poll L (bus_env b2) (bus_seq b) = ([], bus_seq b, Some (ErrLmdb MDB_NOTFOUND)))"
proof -
  obtain t1 where t1: "mdb_put L (bus_env b) (event_key (bus_seq b)) p = Inr t1"
    using put_total bus_keys(10) by blast
  obtain t2 where t2: "writeState L b' t1 = Inr t2" using writeState_kv [OF fr(1)] by blast
  obtain t3 where t3: "mdb_put L t2 keySeq (be_bytes 8 (bus_seq b + 1)) = Inr t3"
    using put_total bus_keys(8) by blast
  let ?b1 = "b'\<lparr>bus_seq := bus_seq b + 1\<rparr>"
  have w: "writeState (L\<lparr>mdb_commit := c\<rparr>) b' t = writeState L b' t" for c t
    by (simp add: writeState_def split: sum.split)
  have p1: "publish (L\<lparr>mdb_commit := \<lambda>_. Inl m\<rparr>) b' p = (?b1, Some (ErrLmdb m))"
    by (simp add: publish_def lift_mdb_def fr t1 t2 t3 w Let_def)
  obtain e where p2: "publish L ?b1 q = (?b1\<lparr>bus_seq := bus_seq b + 1 + 1, bus_env := e\<rparr>, None)"
    and e: "kv e = (kv (bus_env b))(event_key (bus_seq b + 1) \<mapsto> q,
         keyState \<mapsto> state_enc (bus_finalized b') (bus_layers b'), keySeq \<mapsto> be_bytes 8 (bus_seq b + 1 + 1))"
    using publish_kv [of ?b1 q] fr by auto
  have u: "unat (bus_seq b) = length log" using bus_logD(3,4) [OF log] by (simp add: unat_u64_of_nat)
  have "bus_seq b + 1 + 1 = of_nat (length log + 2)" using bus_logD(3) [OF log] by simp
  then have "unat (bus_seq b + 1 + 1) = length log + 2"
    using nowrap by (simp only: unat_u64_of_nat)
  moreover have "kv e (event_key (bus_seq b)) = None"
    using log u by (simp add: e bus_log_def)
  ultimately have "Poll L e (bus_seq b) = ([], bus_seq b, Some (ErrLmdb MDB_NOTFOUND))"
    by (simp add: Poll_def get_eq e be_u64_def u64c.dec_enc u numeral_2_eq_2)
  with p1 p2 show ?thesis by auto
qed

end

end
