(* ===== verification/NodeSink.thy ===== *)
theory NodeSink
  imports MemSystem Tipbus
begin

text \<open>
  Package \<^verbatim>\<open>node\<close>, the writer process (\<^verbatim>\<open>src/node/sink.go\<close>), and the interface
  \<^verbatim>\<open>capture.Sink\<close> it implements. The interface is the record \<open>sink_ops\<close>, its contract the locale
  \<open>sink_contract\<close>: a sink holds a finalized world and an unfinalized chain, and its three operations
  extend the chain, replace it, or move its oldest block into the finalized world. The
  interpretation at the end shows that the composite of store, in-memory state and bus meets the
  contract.
\<close>

subsection \<open>The interface\<close>

record 's sink_ops =
  snk_Block :: "'s \<Rightarrow> batch \<Rightarrow> 's \<times> error option"
  snk_Finalize :: "'s \<Rightarrow> u64 \<Rightarrow> hash \<Rightarrow> 's \<times> error option"
  snk_PreferenceReset :: "'s \<Rightarrow> batch list \<Rightarrow> 's \<times> error option"

text \<open>
  \<open>extends s bs\<close>: \<open>bs\<close> may stand as the unfinalized chain on top of what \<open>s\<close> has finalized;
  \<open>room s\<close>: how many more events the sink can publish.
\<close>

locale sink_contract =
  fixes K :: "'s sink_ops" and valid :: "'s \<Rightarrow> bool" and chain :: "'s \<Rightarrow> batch list"
    and fin :: "'s \<Rightarrow> world" and room :: "'s \<Rightarrow> nat" and extends :: "'s \<Rightarrow> batch list \<Rightarrow> bool"
  assumes valid_chain: "valid s \<Longrightarrow> extends s (chain s)"
    and block: "valid s \<Longrightarrow> 0 < room s \<Longrightarrow> extends s (chain s @ [b]) \<Longrightarrow>
      \<exists>s'. snk_Block K s b = (s', None) \<and> valid s' \<and> chain s' = chain s @ [b] \<and> fin s' = fin s
        \<and> room s' = room s - 1 \<and> extends s' = extends s"
    and reset: "valid s \<Longrightarrow> 0 < room s \<Longrightarrow> extends s bs \<Longrightarrow>
      \<exists>s'. snk_PreferenceReset K s bs = (s', None) \<and> valid s' \<and> chain s' = bs \<and> fin s' = fin s
        \<and> room s' = room s - 1 \<and> extends s' = extends s"
    and finalize: "valid s \<Longrightarrow> 0 < room s \<Longrightarrow> chain s = b # bs \<Longrightarrow>
      \<exists>s'. snk_Finalize K s (Block b) (Hash b) = (s', None) \<and> valid s' \<and> chain s' = bs
        \<and> fin s' = apply_batch b (fin s) \<and> room s' = room s - 1
        \<and> (\<forall>cs. extends s (b # cs) \<longrightarrow> extends s' cs)"

subsection \<open>The composite sink\<close>

record 'e sink =
  s_db :: "'e db"
  s_st :: mem_state
  s_bus :: "'e bus"
  s_pending :: "hash \<rightharpoonup> batch"

definition NewSink :: "'e db \<Rightarrow> mem_state \<Rightarrow> 'e bus \<Rightarrow> 'e sink" where
  "NewSink d st bus = \<lparr>s_db = d, s_st = st, s_bus = bus, s_pending = Map.empty\<rparr>"

definition add_pending :: "batch \<Rightarrow> (hash \<rightharpoonup> batch) \<Rightarrow> (hash \<rightharpoonup> batch)" where
  "add_pending b p = p(Hash b \<mapsto> b)"

definition sink_Block :: "'e lmdb_ops \<Rightarrow> 'e sink \<Rightarrow> batch \<Rightarrow> 'e sink \<times> error option" where
  "sink_Block L s b =
     (case PublishBlock L (s_bus s) b of
        (bus, err) \<Rightarrow>
          (s\<lparr>s_pending := add_pending b (s_pending s), s_st := ApplyBlock (s_st s) b, s_bus := bus\<rparr>, err))"

definition sink_Finalize :: "'e lmdb_ops \<Rightarrow> 'e sink \<Rightarrow> u64 \<Rightarrow> hash \<Rightarrow> 'e sink \<times> error option" where
  "sink_Finalize L s block h =
     (case s_pending s h of
        None \<Rightarrow> (s, Some (ErrUnknownBlock h))
      | Some b \<Rightarrow>
          (if Block b \<noteq> block then (s, Some (ErrHeight block (Block b)))
           else case WriteBlock L (s_db s) b of
             (d1, Some err) \<Rightarrow> (s\<lparr>s_db := d1\<rparr>, Some err)
           | (d1, None) \<Rightarrow>
               (case mem_Finalize (s_st s) block h of
                  (st1, Some err) \<Rightarrow> (s\<lparr>s_db := d1, s_st := st1\<rparr>, Some err)
                | (st1, None) \<Rightarrow>
                    (case SetFinalized L d1 block of
                       (d2, Some err) \<Rightarrow> (s\<lparr>s_db := d2, s_st := st1\<rparr>, Some err)
                     | (d2, None) \<Rightarrow>
                         (let pend = (\<lambda>k. case s_pending s k of
                                            None \<Rightarrow> None
                                          | Some p \<Rightarrow> if Block p \<le> block then None else Some p)
                          in case PublishFinalize L (s_bus s) block h of
                               (bus, err) \<Rightarrow>
                                 (s\<lparr>s_db := d2, s_st := st1, s_pending := pend, s_bus := bus\<rparr>, err))))))"

definition sink_PreferenceReset :: "'e lmdb_ops \<Rightarrow> 'e sink \<Rightarrow> batch list \<Rightarrow> 'e sink \<times> error option" where
  "sink_PreferenceReset L s preferred =
     (case PublishReset L (s_bus s) preferred of
        (bus, err) \<Rightarrow>
          (s\<lparr>s_pending := fold add_pending preferred Map.empty,
             s_st := mem_PreferenceReset (s_st s) preferred, s_bus := bus\<rparr>, err))"

definition sink_ops :: "'e lmdb_ops \<Rightarrow> 'e sink sink_ops" where
  "sink_ops L = \<lparr>snk_Block = sink_Block L, snk_Finalize = sink_Finalize L,
     snk_PreferenceReset = sink_PreferenceReset L\<rparr>"

definition WriteFinal :: "'e lmdb_ops \<Rightarrow> 'e db \<Rightarrow> batch \<Rightarrow> 'e db \<times> error option" where
  "WriteFinal L d b =
     (case WriteBlock L d b of
        (d1, Some err) \<Rightarrow> (d1, Some err)
      | (d1, None) \<Rightarrow> SetFinalized L d1 (Block b))"

subsection \<open>The invariant of the composite\<close>

text \<open>A chain that may follow the contents \<open>m\<close> of a store whose current world is \<open>w\<close>.\<close>

definition chain_ok :: "(bytes \<rightharpoonup> bytes) \<Rightarrow> world \<Rightarrow> batch list \<Rightarrow> bool" where
  "chain_ok m w bs \<longleftrightarrow>
     appendable m bs \<and> list_all framed bs \<and> length bs < 2 ^ 32 \<and> distinct (map Hash bs)
     \<and> list_all no_orphans (worlds bs w)"

definition sink_fin :: "(bytes \<Rightarrow> hash) \<Rightarrow> ('e \<Rightarrow> bytes \<rightharpoonup> bytes) \<Rightarrow> 'e sink \<Rightarrow> world" where
  "sink_fin kc kv s = db_world kc kv (s_db s)"

definition sink_chain :: "'e sink \<Rightarrow> batch list" where
  "sink_chain s = map l_batch (layers (s_st s))"

definition sink_room :: "'e sink \<Rightarrow> nat" where
  "sink_room s = 2 ^ 64 - 1 - unat (bus_seq (s_bus s))"

definition sink_extends ::
  "(bytes \<Rightarrow> hash) \<Rightarrow> ('e \<Rightarrow> bytes \<rightharpoonup> bytes) \<Rightarrow> 'e sink \<Rightarrow> batch list \<Rightarrow> bool" where
  "sink_extends kc kv s bs = chain_ok (kv (env (s_db s))) (sink_fin kc kv s) bs"

definition sink_valid ::
  "(bytes \<Rightarrow> hash) \<Rightarrow> ('e \<Rightarrow> bytes \<rightharpoonup> bytes) \<Rightarrow> u64 \<Rightarrow> 'e sink \<Rightarrow> bool" where
  "sink_valid kc kv S s \<longleftrightarrow>
     serving kv S (s_db s)
     \<and> mem_inv kc kv (s_db s) (s_st s) [] (sink_fin kc kv s)
     \<and> (\<exists>log. bus_log kv (s_bus s) log)
     \<and> bus_layers (s_bus s) = sink_chain s
     \<and> sink_extends kc kv s (sink_chain s)
     \<and> (\<forall>b \<in> set (sink_chain s). s_pending s (Hash b) = Some b)"

subsection \<open>Meta rows do not matter to readers\<close>

lemma meta_upd_rows:
  "(m(key_bytes (KMeta t) \<mapsto> v)) (key_bytes r) = (if r = KMeta t then Some v else m (key_bytes r))"
  by simp

lemma last_write_meta:
  "last_write (m(key_bytes (KMeta t) \<mapsto> v)) (KAccount a) at = last_write m (KAccount a) at"
  "last_write (m(key_bytes (KMeta t) \<mapsto> v)) (KSlot a s) at = last_write m (KSlot a s) at"
  "last_write (m(key_bytes (KMeta t) \<mapsto> v)) (KDestruct a) at = last_write m (KDestruct a) at"
  by (rule last_write_cong; simp)+

lemma world_at_meta: "world_at kc (m(key_bytes (KMeta t) \<mapsto> v)) at = world_at kc m at"
  by (rule world_eqI) (simp_all add: acct_at_def slot_at_def last_write_meta cong: option.case_cong)

lemma meta_layout:
  "fresh (m(key_bytes (KMeta t) \<mapsto> v)) blk = fresh m blk"
  "no_edge (m(key_bytes (KMeta t) \<mapsto> v)) = no_edge m"
  "appendable (m(key_bytes (KMeta t) \<mapsto> v)) bs = appendable m bs"
  by (simp_all add: fresh_def no_edge_def appendable_def)

lemma chain_ok_Cons:
  assumes "chain_ok m w (b # bs)"
  shows "chain_ok (block_map b m) (apply_batch b w) bs" and "contract b" and "fresh m (Block b)"
    and "no_orphans (apply_batch b w)" and "\<forall>c \<in> set bs. Block b < Block c"
  using assms worlds_ends(1) [of "apply_batch b w" bs]
  by (auto simp: chain_ok_def list_all_iff elim!: appendable_ConsE)

lemma pending_other: "k \<notin> Hash ` set bs \<Longrightarrow> fold add_pending bs p k = p k"
  by (induction bs arbitrary: p) (auto simp: add_pending_def)

lemma pending_fold: "distinct (map Hash bs) \<Longrightarrow> b \<in> set bs \<Longrightarrow> fold add_pending bs p (Hash b) = Some b"
  by (induction bs arbitrary: p) (auto simp: pending_other, simp add: add_pending_def)

context healthy_lmdb
begin

lemma SetFinalized_ok:
  assumes "serving kv S d"
  shows "\<exists>d'. SetFinalized L d h = (d', None) \<and> serving kv S d'
    \<and> kv (env d') = (kv (env d))(key_bytes (KMeta 3) \<mapsto> be_bytes 8 h)"
proof -
  from putMeta_kv [of d 3 "be_bytes 8 h"] obtain e where
    "putMeta L d (key_bytes (KMeta 3)) (be_bytes 8 h) = (d\<lparr>env := e\<rparr>, None)"
    and e: "kv e = (kv (env d))(key_bytes (KMeta 3) \<mapsto> be_bytes 8 h)" by blast
  moreover have "serving kv S (d\<lparr>env := e\<rparr>)"
    using assms
    by (auto simp: serving_def db_ok_def complete_def e meta_layout key_simps intro: wf_rows_upd)
  ultimately show ?thesis
    by (simp add: SetFinalized_def key_simps)
qed

lemma bus_room:
  assumes "bus_log kv (s_bus s) log"
  shows "sink_room s = 2 ^ 64 - 1 - length log"
    and "0 < sink_room s \<Longrightarrow> length log + 1 < 2 ^ 64"
    and "bus_log kv (s_bus s') (log @ [ev]) \<Longrightarrow> sink_room s' = sink_room s - 1"
proof -
  have r: "sink_room t = 2 ^ 64 - 1 - length l" if "bus_log kv (s_bus t) l" for t l
    using bus_logD(3,4) [OF that] by (simp add: sink_room_def unat_u64_of_nat)
  from r [OF assms] show "sink_room s = 2 ^ 64 - 1 - length log" .
  then show "0 < sink_room s \<Longrightarrow> length log + 1 < 2 ^ 64" by simp
  show "bus_log kv (s_bus s') (log @ [ev]) \<Longrightarrow> sink_room s' = sink_room s - 1"
    using r [OF assms] r [of s' "log @ [ev]"] by simp
qed

lemma sink_fields:
  "s_db s' = s_db s \<Longrightarrow> sink_fin kc kv s' = sink_fin kc kv s \<and> sink_extends kc kv s' = sink_extends kc kv s"
  by (simp add: sink_fin_def sink_extends_def fun_eq_iff)

lemma sink_Block_ok:
  assumes v: "sink_valid kc kv S s" and r: "0 < sink_room s" and x: "sink_extends kc kv s (sink_chain s @ [b])"
  shows "\<exists>s'. sink_Block L s b = (s', None) \<and> sink_valid kc kv S s' \<and> sink_chain s' = sink_chain s @ [b]
    \<and> sink_fin kc kv s' = sink_fin kc kv s \<and> sink_room s' = sink_room s - 1
    \<and> sink_extends kc kv s' = sink_extends kc kv s"
proof -
  from v obtain log where log: "bus_log kv (s_bus s) log" by (auto simp: sink_valid_def)
  from x v have fr: "framed b" "length (bus_layers (s_bus s)) + 1 < 2 ^ 32" "\<forall>y \<in> set (sink_chain s). Hash y \<noteq> Hash b"
    by (auto simp: sink_extends_def chain_ok_def sink_valid_def) (metis imageI)
  from PublishBlock_log [OF log bus_room(2) [OF log r] fr(1,2)] obtain bus where
    bus: "PublishBlock L (s_bus s) b = (bus, None)"
      "bus_log kv bus (log @ [EvBlock b])" "bus_layers bus = bus_layers (s_bus s) @ [b]" by blast
  define s' where "s' = s\<lparr>s_pending := add_pending b (s_pending s), s_st := ApplyBlock (s_st s) b, s_bus := bus\<rparr>"
  have sel: "s_db s' = s_db s" "s_bus s' = bus" "s_st s' = ApplyBlock (s_st s) b"
    "s_pending s' = add_pending b (s_pending s)"
    by (simp_all add: s'_def)
  have c: "sink_chain s' = sink_chain s @ [b]"
    by (simp add: sink_chain_def sel ApplyBlock_def push_layer_def)
  have "\<forall>y \<in> set (sink_chain s'). s_pending s' (Hash y) = Some y"
    using v fr(3) by (auto simp: c sel add_pending_def sink_valid_def)
  moreover from v have "mem_inv kc kv (s_db s) (ApplyBlock (s_st s) b) [] (sink_fin kc kv s)"
    by (intro mem_inv_ApplyBlock) (simp add: sink_valid_def)
  ultimately have "sink_valid kc kv S s'"
    using v x bus sink_fields [OF sel(1), of kc] by (auto simp: sink_valid_def c sel)
  with c sink_fields [OF sel(1)] bus_room(3) [OF log, of s'] bus(2) show ?thesis
    by (auto simp: sink_Block_def bus(1) sel simp flip: s'_def)
qed

lemma sink_Reset_ok:
  assumes v: "sink_valid kc kv S s" and r: "0 < sink_room s" and x: "sink_extends kc kv s bs"
  shows "\<exists>s'. sink_PreferenceReset L s bs = (s', None) \<and> sink_valid kc kv S s' \<and> sink_chain s' = bs
    \<and> sink_fin kc kv s' = sink_fin kc kv s \<and> sink_room s' = sink_room s - 1
    \<and> sink_extends kc kv s' = sink_extends kc kv s"
proof -
  from v obtain log where log: "bus_log kv (s_bus s) log" by (auto simp: sink_valid_def)
  from x have fr: "list_all framed bs" "length bs < 2 ^ 32" "distinct (map Hash bs)"
    by (auto simp: sink_extends_def chain_ok_def)
  from PublishReset_log [OF log bus_room(2) [OF log r] fr(1,2)] obtain bus where
    bus: "PublishReset L (s_bus s) bs = (bus, None)"
      "bus_log kv bus (log @ [EvReset bs])" "bus_layers bus = bs" by blast
  define s' where "s' = s\<lparr>s_pending := fold add_pending bs Map.empty,
      s_st := mem_PreferenceReset (s_st s) bs, s_bus := bus\<rparr>"
  have sel: "s_db s' = s_db s" "s_bus s' = bus" "s_st s' = mem_PreferenceReset (s_st s) bs"
    "s_pending s' = fold add_pending bs Map.empty"
    by (simp_all add: s'_def)
  have c: "sink_chain s' = bs"
    by (simp add: sink_chain_def sel mem_PreferenceReset_def fold_push_layers comp_def)
  have "\<forall>y \<in> set (sink_chain s'). s_pending s' (Hash y) = Some y"
    using pending_fold [OF fr(3)] by (simp add: c sel)
  moreover from v have "mem_inv kc kv (s_db s) (mem_PreferenceReset (s_st s) bs) [] (sink_fin kc kv s)"
    by (intro mem_inv_Reset(1) [of _ _ _ _ _ _ _ bs]) (simp_all add: sink_valid_def)
  ultimately have "sink_valid kc kv S s'"
    using v x bus sink_fields [OF sel(1), of kc] by (auto simp: sink_valid_def c sel)
  with c sink_fields [OF sel(1)] bus_room(3) [OF log, of s'] bus(2) show ?thesis
    by (auto simp: sink_PreferenceReset_def bus(1) sel simp flip: s'_def)
qed

text \<open>The store part of \<^verbatim>\<open>Finalize\<close>: block rows first, then the base map, then the watermark.\<close>

lemma finalize_store:
  assumes v: "sink_valid kc kv S s" and ch: "sink_chain s = b # bs"
  shows "\<exists>d1 st1 d2. WriteBlock L (s_db s) b = (d1, None) \<and> mem_Finalize (s_st s) (Block b) (Hash b) = (st1, None)
    \<and> SetFinalized L d1 (Block b) = (d2, None) \<and> serving kv S d2
    \<and> db_world kc kv d2 = apply_batch b (sink_fin kc kv s)
    \<and> mem_inv kc kv d2 st1 [] (db_world kc kv d2) \<and> map l_batch (layers st1) = bs
    \<and> kv (env d2) = (block_map b (kv (env (s_db s))))(key_bytes (KMeta 3) \<mapsto> be_bytes 8 (Block b))"
proof -
  from v ch have sv: "serving kv S (s_db s)" and inv: "mem_inv kc kv (s_db s) (s_st s) [] (sink_fin kc kv s)"
    and x: "chain_ok (kv (env (s_db s))) (sink_fin kc kv s) (b # bs)"
    by (simp_all add: sink_valid_def sink_extends_def)
  note cb = chain_ok_Cons [OF x]
  from inv ch obtain ls where ls: "layers (s_st s) = map newLayer (b # bs)"
    by (auto simp: mem_inv_def sink_chain_def comp_def)
  from WriteBlock_ok [of S "s_db s" b] sv cb(2) obtain d1 where d1: "WriteBlock L (s_db s) b = (d1, None)"
    "kv (env d1) = block_map b (kv (env (s_db s)))"
    by (auto simp: serving_def contract_def)
  note w = commit_world(1) [OF sv cb(2,3) d1(1)] commit_world(2) [OF sv cb(2,3) d1(1), of kc]
  have "mem_inv kc kv d1 (s_st s) [b] (sink_fin kc kv s)"
    using mem_inv_commit(1) [OF inv, of b bs d1] ls w(2) cb(4) by (simp add: sink_fin_def)
  from mem_inv_Finalize [OF this] obtain st1 where st1: "mem_Finalize (s_st s) (Block b) (Hash b) = (st1, None)"
    "mem_inv kc kv d1 st1 [] (apply_batch b (sink_fin kc kv s))" by blast
  from st1(1) ls have l: "layers st1 = map newLayer bs" by (auto simp: mem_Finalize_def Let_def)
  from SetFinalized_ok [OF w(1), of "Block b"] obtain d2 where d2: "SetFinalized L d1 (Block b) = (d2, None)"
    "serving kv S d2" "kv (env d2) = (kv (env d1))(key_bytes (KMeta 3) \<mapsto> be_bytes 8 (Block b))" by blast
  have db: "db_world kc kv d2 = db_world kc kv d1" by (simp add: db_world_def d2(3) world_at_meta)
  with st1(2) have "mem_inv kc kv d2 st1 [] (apply_batch b (sink_fin kc kv s))" by (simp add: mem_inv_def)
  with d1 st1(1) d2 db w(2) l show ?thesis by (simp add: sink_fin_def comp_def)
qed

lemma sink_Finalize_ok:
  assumes v: "sink_valid kc kv S s" and r: "0 < sink_room s" and ch: "sink_chain s = b # bs"
  shows "\<exists>s'. sink_Finalize L s (Block b) (Hash b) = (s', None) \<and> sink_valid kc kv S s' \<and> sink_chain s' = bs
    \<and> sink_fin kc kv s' = apply_batch b (sink_fin kc kv s) \<and> sink_room s' = sink_room s - 1
    \<and> (\<forall>cs. sink_extends kc kv s (b # cs) \<longrightarrow> sink_extends kc kv s' cs)"
proof -
  from v obtain log where log: "bus_log kv (s_bus s) log" by (auto simp: sink_valid_def)
  from v ch have bl: "bus_layers (s_bus s) = b # bs" and pe: "s_pending s (Hash b) = Some b"
    and pbs: "\<forall>c \<in> set bs. s_pending s (Hash c) = Some c"
    and x: "chain_ok (kv (env (s_db s))) (sink_fin kc kv s) (b # bs)"
    by (simp_all add: sink_valid_def sink_extends_def)
  from PublishFinalize_log [OF log bus_room(2) [OF log r] bl] obtain bus where
    bus: "PublishFinalize L (s_bus s) (Block b) (Hash b) = (bus, None)"
      "bus_log kv bus (log @ [EvFinalize (Block b) (Hash b)])" "bus_layers bus = bs" by blast
  from finalize_store [OF v ch] obtain d1 st1 d2 where
    d: "WriteBlock L (s_db s) b = (d1, None)" "mem_Finalize (s_st s) (Block b) (Hash b) = (st1, None)"
      "SetFinalized L d1 (Block b) = (d2, None)" "serving kv S d2"
      "db_world kc kv d2 = apply_batch b (sink_fin kc kv s)"
      "mem_inv kc kv d2 st1 [] (db_world kc kv d2)" "map l_batch (layers st1) = bs"
      "kv (env d2) = (block_map b (kv (env (s_db s))))(key_bytes (KMeta 3) \<mapsto> be_bytes 8 (Block b))"
    by blast
  define pend where "pend = (\<lambda>k. case s_pending s k of None \<Rightarrow> None
      | Some p \<Rightarrow> if Block p \<le> Block b then None else Some p)"
  define s' where "s' = s\<lparr>s_db := d2, s_st := st1, s_pending := pend, s_bus := bus\<rparr>"
  have sel: "s_db s' = d2" "s_bus s' = bus" "s_st s' = st1" "s_pending s' = pend" by (simp_all add: s'_def)
  have f: "sink_Finalize L s (Block b) (Hash b) = (s', None)"
    by (simp add: sink_Finalize_def pe d(1-3) bus(1) s'_def pend_def)
  have ext: "sink_extends kc kv s' cs" if "sink_extends kc kv s (b # cs)" for cs
    using chain_ok_Cons(1) [OF that [unfolded sink_extends_def]]
    by (simp add: sink_extends_def sel sink_fin_def d(5,8) chain_ok_def meta_layout)
  have "\<forall>c \<in> set bs. pend (Hash c) = Some c"
    using chain_ok_Cons(5) [OF x] pbs by (auto simp: pend_def simp flip: not_le)
  then have "sink_valid kc kv S s'"
    using d bus ext [of bs] v ch by (auto simp: sink_valid_def sink_chain_def sel sink_fin_def)
  with f ext bus_room(3) [OF log, of s'] bus(2) d(5,7) show ?thesis
    by (auto simp: sel sink_chain_def sink_fin_def)
qed

end

subsection \<open>The composite meets the contract\<close>

sublocale healthy_lmdb \<subseteq> nodesink:
  sink_contract "sink_ops L" "sink_valid kc kv S" sink_chain "sink_fin kc kv" sink_room "sink_extends kc kv"
  for kc S
proof unfold_locales
  show "\<And>s. sink_valid kc kv S s \<Longrightarrow> sink_extends kc kv s (sink_chain s)"
    by (simp add: sink_valid_def)
qed (unfold sink_ops_def sink_ops.simps, erule (2) sink_Block_ok, erule (2) sink_Reset_ok, erule (2) sink_Finalize_ok)

end
