(* ===== verification/Tracker.thy ===== *)
theory Tracker
  imports NodeSink
begin

text \<open>
  Package \<^verbatim>\<open>node\<close>, the tracker (\<^verbatim>\<open>src/node/tracker.go\<close>): it turns verified blocks, head changes
  and acceptances of the consensus engine into calls of a \<^verbatim>\<open>capture.Sink\<close>. The sink is any
  implementation of the interface \<open>sink_ops\<close>; what the tracker guarantees is proved once, in the
  locale \<open>sink_contract\<close>: the published chain is always the path of verified blocks from the
  finalized block to the preferred head. \<^verbatim>\<open>chainTo\<close> walks parent hashes and may loop on a
  cyclic table, so it is a partial function; \<open>chainTo_returns\<close> shows that it returns when parents
  are lower than their children.
\<close>

record 's tracker =
  t_sink :: 's
  table :: "hash \<rightharpoonup> batch"
  stack :: "batch list"
  finalizedHeight :: u64
  finalizedHash :: hash

definition NewTracker :: "'s \<Rightarrow> u64 \<Rightarrow> hash \<Rightarrow> 's tracker" where
  "NewTracker s height h =
     \<lparr>t_sink = s, table = Map.empty, stack = [], finalizedHeight = height, finalizedHash = h\<rparr>"

definition Verified :: "'s tracker \<Rightarrow> batch \<Rightarrow> 's tracker" where
  "Verified t b =
     (if Block b \<le> finalizedHeight t then t else t\<lparr>table := (table t)(Hash b \<mapsto> b)\<rparr>)"

partial_function (option) chain_loop ::
  "(hash \<rightharpoonup> batch) \<Rightarrow> hash \<Rightarrow> hash \<Rightarrow> batch list \<Rightarrow> (error + batch list) option" where
  "chain_loop tbl fh h acc =
     (if h = fh then Some (Inr acc)
      else case tbl h of
             None \<Rightarrow> Some (Inl (ErrUnknownBlock h))
           | Some b \<Rightarrow> chain_loop tbl fh (Parent b) (acc @ [b]))"

definition chainTo :: "'s tracker \<Rightarrow> hash \<Rightarrow> (error + batch list) option" where
  "chainTo t h = map_option (map_sum id rev) (chain_loop (table t) (finalizedHash t) h [])"

definition sameChain :: "batch list \<Rightarrow> batch list \<Rightarrow> bool" where
  "sameChain a b \<longleftrightarrow> length a = length b \<and> list_all (\<lambda>(x, y). Hash x = Hash y) (zip a b)"

definition Head :: "'s sink_ops \<Rightarrow> 's tracker \<Rightarrow> hash \<Rightarrow> ('s tracker \<times> error option) option" where
  "Head K t h =
     (case chainTo t h of
        None \<Rightarrow> None
      | Some (Inl err) \<Rightarrow> Some (t, Some err)
      | Some (Inr chain) \<Rightarrow>
          Some (if sameChain chain (stack t) then (t, None)
                else if length chain = length (stack t) + 1
                        \<and> sameChain (take (length (stack t)) chain) (stack t)
                then (case snk_Block K (t_sink t) (last chain) of
                        (s', err) \<Rightarrow> (t\<lparr>stack := chain, t_sink := s'\<rparr>, err))
                else (case snk_PreferenceReset K (t_sink t) chain of
                        (s', err) \<Rightarrow> (t\<lparr>stack := chain, t_sink := s'\<rparr>, err))))"

text \<open>The first half of \<^verbatim>\<open>Accepted\<close>: make the accepted block the oldest published one.\<close>

definition accept_reset ::
  "'s sink_ops \<Rightarrow> 's tracker \<Rightarrow> u64 \<Rightarrow> hash \<Rightarrow> 's tracker \<times> error option" where
  "accept_reset K t block h =
     (if stack t = [] \<or> Hash (hd (stack t)) \<noteq> h then
        (case table t h of
           None \<Rightarrow> (t, Some (ErrUnknownBlock h))
         | Some b \<Rightarrow>
             (if Parent b \<noteq> finalizedHash t then (t, Some (ErrNotExtending block))
              else case snk_PreferenceReset K (t_sink t) [b] of
                     (s', err) \<Rightarrow> (t\<lparr>stack := [b], t_sink := s'\<rparr>, err)))
      else (t, None))"

definition Accepted :: "'s sink_ops \<Rightarrow> 's tracker \<Rightarrow> u64 \<Rightarrow> hash \<Rightarrow> 's tracker \<times> error option" where
  "Accepted K t block h =
     (case accept_reset K t block h of
        (t1, Some err) \<Rightarrow> (t1, Some err)
      | (t1, None) \<Rightarrow>
          (case snk_Finalize K (t_sink t1) block h of
             (s', Some err) \<Rightarrow> (t1\<lparr>t_sink := s'\<rparr>, Some err)
           | (s', None) \<Rightarrow>
               (t1\<lparr>t_sink := s', stack := tl (stack t1), finalizedHeight := block, finalizedHash := h,
                   table := (\<lambda>k. case table t1 k of
                                   None \<Rightarrow> None
                                 | Some b \<Rightarrow> if Block b \<le> block then None else Some b)\<rparr>, None)))"

subsection \<open>Chains of parents\<close>

fun linked :: "hash \<Rightarrow> batch list \<Rightarrow> bool" where
  "linked h [] \<longleftrightarrow> True"
| "linked h (b # bs) \<longleftrightarrow> Parent b = h \<and> linked (Hash b) bs"

definition tip_hash :: "hash \<Rightarrow> batch list \<Rightarrow> hash" where
  "tip_hash h bs = (if bs = [] then h else Hash (last bs))"

lemma tip_hash_simps [simp]: "tip_hash h [] = h" "tip_hash h (bs @ [b]) = Hash b"
  by (simp_all add: tip_hash_def)

lemma linked_snoc: "linked h (bs @ [b]) \<longleftrightarrow> linked h bs \<and> Parent b = tip_hash h bs"
proof (induction bs arbitrary: h)
  case (Cons x bs)
  then show ?case by (cases bs rule: rev_cases) (auto simp: tip_hash_def)
qed simp

text \<open>A table of verified blocks: keyed by hash, parents below their children.\<close>

definition table_ok :: "(hash \<rightharpoonup> batch) \<Rightarrow> bool" where
  "table_ok tbl \<longleftrightarrow>
     (\<forall>h b. tbl h = Some b \<longrightarrow> Hash b = h)
     \<and> (\<forall>b p. tbl (Hash b) = Some b \<longrightarrow> tbl (Parent b) = Some p \<longrightarrow> Block p < Block b)"

definition recorded :: "(hash \<rightharpoonup> batch) \<Rightarrow> batch list \<Rightarrow> bool" where
  "recorded tbl bs \<longleftrightarrow> (\<forall>b \<in> set bs. tbl (Hash b) = Some b)"

lemma table_ok_hash: "table_ok tbl \<Longrightarrow> tbl h = Some b \<Longrightarrow> Hash b = h"
  by (simp add: table_ok_def)

lemma table_ok_parent:
  "table_ok tbl \<Longrightarrow> tbl h = Some b \<Longrightarrow> tbl (Parent b) = Some p \<Longrightarrow> Block p < Block b"
  unfolding table_ok_def by metis

text \<open>\<open>acc\<close> is a walk down from \<open>h0\<close>, newest first, and \<open>h\<close> is where it goes on.\<close>

lemma chain_loop_returns:
  assumes "table_ok tbl" and "recorded tbl acc" and "linked h (rev acc)" and "tip_hash h (rev acc) = h0"
  shows "\<exists>r. chain_loop tbl fh h acc = Some r \<and>
    (case r of
       Inl err \<Rightarrow> \<exists>k. err = ErrUnknownBlock k \<and> tbl k = None
     | Inr out \<Rightarrow> recorded tbl out \<and> linked fh (rev out) \<and> tip_hash fh (rev out) = h0)"
  using assms(2-4)
proof (induction "case tbl h of None \<Rightarrow> 0 | Some b \<Rightarrow> Suc (unat (Block b))" arbitrary: h acc rule: less_induct)
  case less
  show ?case
  proof (cases "h = fh \<or> tbl h = None")
    case True
    with less.prems show ?thesis by (auto simp: chain_loop.simps [of tbl fh h])
  next
    case False
    then obtain b where b: "tbl h = Some b" by auto
    have hb: "Hash b = h" using assms(1) b by (rule table_ok_hash)
    have "(case tbl (Parent b) of None \<Rightarrow> 0 | Some p \<Rightarrow> Suc (unat (Block p))) < Suc (unat (Block b))"
      using table_ok_parent [OF assms(1) b] by (auto simp: word_less_nat_alt split: option.splits)
    moreover have "recorded tbl (acc @ [b])" using less.prems(1) b hb by (auto simp: recorded_def)
    moreover have "linked (Parent b) (rev (acc @ [b]))" using less.prems(2) hb by simp
    moreover have "tip_hash (Parent b) (rev (acc @ [b])) = h0"
      using less.prems(3) hb by (auto simp: tip_hash_def)
    ultimately have "\<exists>r. chain_loop tbl fh (Parent b) (acc @ [b]) = Some r \<and>
      (case r of
         Inl err \<Rightarrow> \<exists>k. err = ErrUnknownBlock k \<and> tbl k = None
       | Inr out \<Rightarrow> recorded tbl out \<and> linked fh (rev out) \<and> tip_hash fh (rev out) = h0)"
      by (intro less.hyps) (simp_all add: b)
    with False b show ?thesis by (simp add: chain_loop.simps [of tbl fh h])
  qed
qed

lemma chainTo_returns:
  assumes "table_ok (table t)"
  shows "\<exists>r. chainTo t h = Some r \<and>
    (case r of
       Inl err \<Rightarrow> \<exists>k. err = ErrUnknownBlock k \<and> table t k = None
     | Inr bs \<Rightarrow> recorded (table t) bs \<and> linked (finalizedHash t) bs \<and> tip_hash (finalizedHash t) bs = h)"
proof -
  from chain_loop_returns [OF assms, of "[]" h h "finalizedHash t"] obtain r where
    r: "chain_loop (table t) (finalizedHash t) h [] = Some r"
      "case r of Inl err \<Rightarrow> \<exists>k. err = ErrUnknownBlock k \<and> table t k = None
       | Inr out \<Rightarrow> recorded (table t) out \<and> linked (finalizedHash t) (rev out)
           \<and> tip_hash (finalizedHash t) (rev out) = h"
    by (auto simp: recorded_def)
  then show ?thesis
    by (cases r) (auto simp: chainTo_def recorded_def)
qed

lemma linked_heights:
  assumes "table_ok tbl"
  shows "recorded tbl (b # bs) \<Longrightarrow> linked (Hash b) bs \<Longrightarrow> c \<in> set bs \<Longrightarrow> Block b < Block c"
proof (induction bs arbitrary: b)
  case (Cons x bs)
  have "tbl (Hash b) = Some b" "tbl (Hash x) = Some x" "Parent x = Hash b"
    using Cons.prems by (auto simp: recorded_def)
  with table_ok_parent [OF assms] have "Block b < Block x" by metis
  moreover have "Block x < Block c" if "c \<in> set bs"
    using Cons that by (auto simp: recorded_def)
  ultimately show ?case using Cons.prems(3) by auto
qed simp

text \<open>Recorded chains are determined by their hashes.\<close>

lemma sameChain_eq:
  assumes "recorded tbl a" and "recorded tbl b"
  shows "sameChain a b \<longleftrightarrow> a = b"
proof
  assume "sameChain a b"
  with assms show "a = b"
    by (intro nth_equalityI) (auto simp: sameChain_def recorded_def list_all_length, metis nth_mem option.inject)
qed (auto simp: sameChain_def list_all_length)

subsection \<open>The invariant of the tracker\<close>

text \<open>
  The stack is what the sink has, it is a path from the finalized block, and every path of verified
  blocks from the finalized block may be published (\<open>extends\<close>): this is what the consensus engine
  guarantees of the blocks it verifies.
\<close>

definition tracker_inv ::
  "('s \<Rightarrow> bool) \<Rightarrow> ('s \<Rightarrow> batch list) \<Rightarrow> ('s \<Rightarrow> batch list \<Rightarrow> bool) \<Rightarrow> 's tracker \<Rightarrow> bool" where
  "tracker_inv valid chain extends t \<longleftrightarrow>
     valid (t_sink t) \<and> chain (t_sink t) = stack t
     \<and> table_ok (table t) \<and> recorded (table t) (stack t) \<and> linked (finalizedHash t) (stack t)
     \<and> (\<forall>bs. recorded (table t) bs \<longrightarrow> linked (finalizedHash t) bs \<longrightarrow> extends (t_sink t) bs)"

definition verifiable :: "('s \<Rightarrow> batch list \<Rightarrow> bool) \<Rightarrow> 's tracker \<Rightarrow> batch \<Rightarrow> bool" where
  "verifiable extends t b \<longleftrightarrow>
     table_ok ((table t)(Hash b \<mapsto> b)) \<and> table t (Hash b) \<in> {None, Some b}
     \<and> (\<forall>bs. recorded ((table t)(Hash b \<mapsto> b)) bs \<longrightarrow> linked (finalizedHash t) bs \<longrightarrow> extends (t_sink t) bs)"

lemma Verified_inv:
  assumes "tracker_inv valid chain extends t" and "verifiable extends t b"
  shows "tracker_inv valid chain extends (Verified t b)"
proof (cases "Block b \<le> finalizedHeight t")
  case True
  with assms(1) show ?thesis by (simp add: Verified_def)
next
  case False
  have "recorded ((table t)(Hash b \<mapsto> b)) (stack t)"
    unfolding recorded_def
  proof
    fix x assume "x \<in> set (stack t)"
    with assms(1) have "table t (Hash x) = Some x" by (simp add: tracker_inv_def recorded_def)
    moreover from assms(2) have "table t (Hash b) \<in> {None, Some b}" by (simp add: verifiable_def)
    ultimately show "((table t)(Hash b \<mapsto> b)) (Hash x) = Some x" by (cases "Hash x = Hash b") auto
  qed
  with False assms show ?thesis unfolding tracker_inv_def Verified_def verifiable_def by simp
qed

lemma NewTracker_inv:
  assumes "valid s" and "chain s = []" and "extends s []"
  shows "tracker_inv valid chain extends (NewTracker s height h)"
proof -
  have "recorded Map.empty bs \<Longrightarrow> bs = []" for bs by (cases bs) (auto simp: recorded_def)
  with assms show ?thesis
    by (auto simp: tracker_inv_def NewTracker_def table_ok_def recorded_def)
qed

text \<open>Runs of the tracker, with the blocks accepted on the way.\<close>

inductive tracker_run ::
  "'s sink_ops \<Rightarrow> ('s \<Rightarrow> batch list \<Rightarrow> bool) \<Rightarrow> ('s \<Rightarrow> nat) \<Rightarrow> 's tracker \<Rightarrow> batch list \<Rightarrow> 's tracker \<Rightarrow> bool"
  for K extends room where
  Start: "tracker_run K extends room t [] t"
| Verify: "tracker_run K extends room t acc t1 \<Longrightarrow> verifiable extends t1 b \<Longrightarrow>
    tracker_run K extends room t acc (Verified t1 b)"
| Prefer: "tracker_run K extends room t acc t1 \<Longrightarrow> 0 < room (t_sink t1) \<Longrightarrow> Head K t1 h = Some (t2, r) \<Longrightarrow>
    tracker_run K extends room t acc t2"
| Accept: "tracker_run K extends room t acc t1 \<Longrightarrow> 1 < room (t_sink t1) \<Longrightarrow> table t1 h = Some b \<Longrightarrow>
    Parent b = finalizedHash t1 \<Longrightarrow> Accepted K t1 (Block b) h = (t2, r) \<Longrightarrow>
    tracker_run K extends room t (acc @ [b]) t2"

lemma Verified_sink [simp]: "t_sink (Verified t b) = t_sink t"
  by (simp add: Verified_def)

lemma take_Suc_last: "length xs = Suc n \<Longrightarrow> xs = take n xs @ [last xs]"
  by (metis append_butlast_last_id butlast_conv_take diff_Suc_1 length_0_conv nat.distinct(1))

context sink_contract
begin

lemma Head_ok:
  assumes inv: "tracker_inv valid chain extends t" and room: "0 < room (t_sink t)"
  shows "\<exists>t' r. Head K t h = Some (t', r) \<and> tracker_inv valid chain extends t' \<and> fin (t_sink t') = fin (t_sink t)
    \<and> (case r of None \<Rightarrow> tip_hash (finalizedHash t') (stack t') = h | Some err \<Rightarrow> t' = t)
    \<and> finalizedHash t' = finalizedHash t \<and> table t' = table t"
proof -
  from inv have tb: "table_ok (table t)" and v: "valid (t_sink t)" "chain (t_sink t) = stack t"
    and st: "recorded (table t) (stack t)"
    by (simp_all add: tracker_inv_def)
  from chainTo_returns [OF tb, of h] obtain r where c: "chainTo t h = Some r"
    and r: "case r of Inl err \<Rightarrow> \<exists>k. err = ErrUnknownBlock k \<and> table t k = None
       | Inr bs \<Rightarrow> recorded (table t) bs \<and> linked (finalizedHash t) bs \<and> tip_hash (finalizedHash t) bs = h"
    by blast
  show ?thesis
  proof (cases r)
    case (Inl err)
    with inv c show ?thesis by (simp add: Head_def)
  next
    case (Inr bs)
    with r have bs: "recorded (table t) bs" "linked (finalizedHash t) bs" "tip_hash (finalizedHash t) bs = h"
      by simp_all
    with inv have x: "extends (t_sink t) bs" by (simp add: tracker_inv_def)
    have rt: "recorded (table t) (take n bs)" for n using bs(1) by (auto simp: recorded_def dest: in_set_takeD)
    note same = sameChain_eq [OF bs(1) st] sameChain_eq [OF rt st] sameChain_eq [OF st st]
    have pub: "tracker_inv valid chain extends (t\<lparr>stack := bs, t_sink := s'\<rparr>)"
      if "valid s'" "chain s' = bs" "extends s' = extends (t_sink t)" for s'
      using inv bs that by (simp add: tracker_inv_def)
    show ?thesis
    proof (cases "bs = stack t")
      case True
      with inv bs c Inr same show ?thesis by (simp add: Head_def)
    next
      case new: False
      show ?thesis
      proof (cases "length bs = length (stack t) + 1 \<and> take (length (stack t)) bs = stack t")
        case True
        then have "chain (t_sink t) @ [last bs] = bs" using v take_Suc_last [of bs "length (stack t)"] by simp
        with block [OF v(1) room, of "last bs"] x obtain s' where
          "snk_Block K (t_sink t) (last bs) = (s', None)" "valid s'" "chain s' = bs"
          "fin s' = fin (t_sink t)" "extends s' = extends (t_sink t)" by auto
        with pub [of s'] True new c Inr bs(3) show ?thesis by (simp add: Head_def same)
      next
        case False
        from reset [OF v(1) room x] obtain s' where
          "snk_PreferenceReset K (t_sink t) bs = (s', None)" "valid s'" "chain s' = bs"
          "fin s' = fin (t_sink t)" "extends s' = extends (t_sink t)" by auto
        moreover have "Head K t h = Some (t\<lparr>stack := bs, t_sink := s'\<rparr>, None)"
          using False new c Inr calculation(1) by (auto simp: Head_def same)
        ultimately show ?thesis using pub [of s'] bs(3) by simp
      qed
    qed
  qed
qed

lemma accept_reset_ok:
  assumes inv: "tracker_inv valid chain extends t" and room: "0 < room (t_sink t)"
    and b: "table t h = Some b" "Parent b = finalizedHash t"
  shows "\<exists>t'. accept_reset K t block h = (t', None) \<and> tracker_inv valid chain extends t'
    \<and> (\<exists>bs. stack t' = b # bs) \<and> table t' = table t \<and> finalizedHash t' = finalizedHash t
    \<and> fin (t_sink t') = fin (t_sink t) \<and> room (t_sink t) - 1 \<le> room (t_sink t')"
proof -
  from inv have tb: "table_ok (table t)" and v: "valid (t_sink t)" "recorded (table t) (stack t)"
    by (simp_all add: tracker_inv_def)
  have hb: "Hash b = h" using tb b(1) by (rule table_ok_hash)
  show ?thesis
  proof (cases "stack t = [] \<or> Hash (hd (stack t)) \<noteq> h")
    case True
    have rec: "recorded (table t) [b]" "linked (finalizedHash t) [b]" using b hb by (simp_all add: recorded_def)
    with inv have "extends (t_sink t) [b]" unfolding tracker_inv_def by blast
    from reset [OF v(1) room this] obtain s' where s': "snk_PreferenceReset K (t_sink t) [b] = (s', None)"
      "valid s'" "chain s' = [b]" "fin s' = fin (t_sink t)" "room s' = room (t_sink t) - 1"
      "extends s' = extends (t_sink t)" by blast
    have "tracker_inv valid chain extends (t\<lparr>stack := [b], t_sink := s'\<rparr>)"
      using inv rec s' unfolding tracker_inv_def by simp
    with True b s' show ?thesis by (simp add: accept_reset_def)
  next
    case False
    then obtain x bs where st: "stack t = x # bs" "Hash x = h" by (cases "stack t") auto
    with v(2) b have "x = b" by (simp add: recorded_def)
    with False inv st show ?thesis by (simp add: accept_reset_def)
  qed
qed

lemma Accepted_ok:
  assumes inv: "tracker_inv valid chain extends t" and room: "1 < room (t_sink t)"
    and b: "table t h = Some b" "Parent b = finalizedHash t"
  shows "\<exists>t'. Accepted K t (Block b) h = (t', None) \<and> tracker_inv valid chain extends t'
    \<and> finalizedHash t' = h \<and> finalizedHeight t' = Block b
    \<and> fin (t_sink t') = apply_batch b (fin (t_sink t))"
proof -
  from room have "0 < room (t_sink t)" by simp
  from accept_reset_ok [OF inv this b, of "Block b"] obtain t1 bs where
    t1: "accept_reset K t (Block b) h = (t1, None)" "tracker_inv valid chain extends t1"
      "stack t1 = b # bs" "table t1 = table t" "finalizedHash t1 = finalizedHash t"
      "fin (t_sink t1) = fin (t_sink t)" "0 < room (t_sink t1)"
    using room by force
  from t1(2,3) have v: "valid (t_sink t1)" "chain (t_sink t1) = b # bs" and tb: "table_ok (table t1)"
    and st: "recorded (table t1) (b # bs)" "linked (Hash b) bs"
    by (simp_all add: tracker_inv_def)
  have hb: "Hash b = h" using table_ok_hash [OF tb] b(1) t1(4) by simp
  from finalize [OF v(1) t1(7) v(2)] hb obtain s' where
    s': "snk_Finalize K (t_sink t1) (Block b) h = (s', None)" "valid s'" "chain s' = bs"
      "fin s' = apply_batch b (fin (t_sink t1))" "\<And>cs. extends (t_sink t1) (b # cs) \<Longrightarrow> extends s' cs"
    by blast
  let ?tbl = "\<lambda>k. case table t1 k of None \<Rightarrow> None | Some c \<Rightarrow> if Block c \<le> Block b then None else Some c"
  have sub: "?tbl k = Some c \<Longrightarrow> table t1 k = Some c" for k c by (auto split: option.splits if_splits)
  have rec: "recorded ?tbl cs \<Longrightarrow> recorded (table t1) cs" for cs unfolding recorded_def using sub by blast
  have "table_ok ?tbl" using tb sub unfolding table_ok_def by blast
  moreover have "recorded ?tbl bs"
    using st(1) linked_heights [OF tb st] by (auto simp: recorded_def simp flip: not_less)
  moreover have "extends s' cs" if "recorded ?tbl cs" "linked h cs" for cs
  proof (rule s'(5))
    have "recorded (table t1) (b # cs)" "linked (finalizedHash t1) (b # cs)"
      using rec [OF that(1)] that(2) st(1) b(2) hb t1(5) by (auto simp: recorded_def)
    with t1(2) show "extends (t_sink t1) (b # cs)" unfolding tracker_inv_def by blast
  qed
  ultimately have "tracker_inv valid chain extends
      (t1\<lparr>t_sink := s', stack := bs, finalizedHeight := Block b, finalizedHash := h, table := ?tbl\<rparr>)"
    using s'(2,3) st(2) hb unfolding tracker_inv_def by simp
  with t1 s' show ?thesis by (simp add: Accepted_def)
qed

lemma tracker_run_ok:
  assumes "tracker_run K extends room t acc t'" and "tracker_inv valid chain extends t"
  shows "tracker_inv valid chain extends t' \<and> fin (t_sink t') = apply_chain acc (fin (t_sink t))"
  using assms
proof (induction rule: tracker_run.induct)
  case (Verify t acc t1 b)
  then show ?case by (simp add: Verified_inv)
next
  case (Prefer t acc t1 h t2 r)
  with Head_ok [of t1 h] show ?case by auto
next
  case (Accept t acc t1 h b t2 r)
  with Accepted_ok [of t1 h b] show ?case by auto
qed simp

end

subsection \<open>The tracker over the node's sink\<close>

context healthy_lmdb
begin

lemma node_sink_contract:
  "sink_contract (NodeSink.sink_ops L) (sink_valid kc kv S) sink_chain (sink_fin kc kv) sink_room (sink_extends kc kv)"
  by (rule nodesink.sink_contract_axioms)

lemmas tracker_store_run = sink_contract.tracker_run_ok [OF node_sink_contract]

end

end
