(* ===== verification/Replay.thy ===== *)
theory Replay
  imports Mem
begin

text \<open>
  Package \<^verbatim>\<open>replay\<close> (\<^verbatim>\<open>src/replay/replay.go\<close>): a session walks history block by block over a
  lazily pinned map. The specification is the world the store denotes at the height of the session:
  reads return it, and \<^verbatim>\<open>Next\<close> moves to the world of the next block by applying the diff row
  to what is pinned. The theorems also cover a writer that commits while the session runs.
\<close>

record session =
  rp_m :: mem_map
  rp_block :: u64

definition replay_Open :: "'e lmdb_ops \<Rightarrow> 'e db \<Rightarrow> u64 \<Rightarrow> 'e db \<times> (error + session)" where
  "replay_Open L d startBlock =
     (case Genesis L d of
        (d', Inl err) \<Rightarrow> (d', Inl err)
      | (d', Inr (s, ok)) \<Rightarrow>
          (if \<not> ok then (d', Inl ErrNoGenesis)
           else if startBlock < s then (d', Inl ErrBelowGenesis)
           else (d', Inr \<lparr>rp_m = NewMap, rp_block = startBlock\<rparr>)))"

definition Next :: "'e lmdb_ops \<Rightarrow> 'e db \<Rightarrow> session \<Rightarrow> session \<times> (error + batch option)" where
  "Next L d s =
     (case GetDiff L d (rp_block s + 1) of
        Inl ErrNotFound \<Rightarrow> (s, Inr None)
      | Inl err \<Rightarrow> (s, Inl err)
      | Inr diff \<Rightarrow> (s\<lparr>rp_m := Apply (rp_m s) diff, rp_block := Block diff\<rparr>, Inr (Some diff)))"

definition replay_Account ::
  "'e lmdb_ops \<Rightarrow> (bytes \<Rightarrow> hash) \<Rightarrow> 'e db \<Rightarrow> session \<Rightarrow> address
     \<Rightarrow> 'e db \<times> session \<times> (error + account \<times> bool)" where
  "replay_Account L kc d s addr =
     (case accounts (rp_m s) addr of
        Some a \<Rightarrow> (d, s, Inr (ToSchema a, Exists a))
      | None \<Rightarrow>
          (case GetAccount L kc d addr (rp_block s) of
             (d', Inl err) \<Rightarrow> (d', s, Inl err)
           | (d', Inr (acct, ex)) \<Rightarrow>
               (d', s\<lparr>rp_m := fst (PinAccount (rp_m s) addr acct ex)\<rparr>, Inr (acct, ex))))"

text \<open>The part of \<^verbatim>\<open>Slot\<close> after the account is known: read the store and pin.\<close>

definition replay_fetch ::
  "'e lmdb_ops \<Rightarrow> (bytes \<Rightarrow> hash) \<Rightarrow> 'e db \<Rightarrow> session \<Rightarrow> address \<Rightarrow> hash
     \<Rightarrow> 'e db \<times> session \<times> (error + hash)" where
  "replay_fetch L kc d s addr slot =
     (case GetSlot L kc d addr slot (rp_block s) of
        (d', Inl err) \<Rightarrow> (d', s, Inl err)
      | (d', Inr v) \<Rightarrow>
          (case PinSlot (rp_m s) addr slot v of
             Inl err \<Rightarrow> (d', s, Inl err)
           | Inr m \<Rightarrow> (d', s\<lparr>rp_m := m\<rparr>, Inr v)))"

definition replay_Slot ::
  "'e lmdb_ops \<Rightarrow> (bytes \<Rightarrow> hash) \<Rightarrow> 'e db \<Rightarrow> session \<Rightarrow> address \<Rightarrow> hash
     \<Rightarrow> 'e db \<times> session \<times> (error + hash)" where
  "replay_Slot L kc d s addr slot =
     (case accounts (rp_m s) addr of
        Some a \<Rightarrow>
          (if \<not> Exists a then (d, s, Inr 0)
           else case Storage a slot of
                  Some v \<Rightarrow> (d, s, Inr v)
                | None \<Rightarrow> replay_fetch L kc d s addr slot)
      | None \<Rightarrow>
          (case replay_Account L kc d s addr of
             (d1, s1, Inl err) \<Rightarrow> (d1, s1, Inl err)
           | (d1, s1, Inr _) \<Rightarrow> replay_fetch L kc d1 s1 addr slot))"

definition replay_Code ::
  "'e lmdb_ops \<Rightarrow> 'e db \<Rightarrow> session \<Rightarrow> hash \<Rightarrow> session \<times> (error + bytes)" where
  "replay_Code L d s h =
     (case code (rp_m s) h of
        Some c \<Rightarrow> (s, Inr c)
      | None \<Rightarrow>
          (case GetCode L d h of
             Inl err \<Rightarrow> (s, Inl err)
           | Inr c \<Rightarrow> (s\<lparr>rp_m := PinCode (rp_m s) h c\<rparr>, Inr c)))"

subsection \<open>The invariant of a session\<close>

definition session_ok ::
  "(bytes \<Rightarrow> hash) \<Rightarrow> ('e \<Rightarrow> bytes \<rightharpoonup> bytes) \<Rightarrow> u64 \<Rightarrow> 'e db \<Rightarrow> session \<Rightarrow> bool" where
  "session_ok kc kv S d s \<longleftrightarrow>
     serving kv S d \<and> S \<le> rp_block s \<and> map_ok [world_at kc (kv (env d)) (rp_block s)] (rp_m s)
     \<and> no_orphans (world_at kc (kv (env d)) (rp_block s))"

text \<open>
  The rows of a store follow the blocks \<open>bs\<close> from height \<open>p\<close> on: each has a diff row that decodes to
  it and leads from the world before it to the world at it, and there is no diff row after the last.
\<close>

fun follows :: "(bytes \<Rightarrow> hash) \<Rightarrow> (bytes \<rightharpoonup> bytes) \<Rightarrow> u64 \<Rightarrow> batch list \<Rightarrow> bool" where
  "follows kc m p [] \<longleftrightarrow> m (key_bytes (KDiff (p + 1))) = None"
| "follows kc m p (b # bs) \<longleftrightarrow>
     p < Latest \<and> Block b = p + 1
     \<and> (case m (key_bytes (KDiff (p + 1))) of None \<Rightarrow> False | Some v \<Rightarrow> Decode v = Inr b)
     \<and> world_at kc m (p + 1) = apply_batch b (world_at kc m p) \<and> no_orphans (world_at kc m (p + 1))
     \<and> follows kc m (p + 1) bs"

text \<open>Blocks at the heights after \<open>p\<close>, without a gap.\<close>

fun consecutive :: "u64 \<Rightarrow> batch list \<Rightarrow> bool" where
  "consecutive p [] \<longleftrightarrow> p < Latest"
| "consecutive p (b # bs) \<longleftrightarrow> p < Latest \<and> Block b = p + 1 \<and> consecutive (p + 1) bs"

text \<open>The loop of a caller: \<^verbatim>\<open>Next\<close> until it has no diff, with the diffs and the session at the end.\<close>

inductive replayed :: "'e lmdb_ops \<Rightarrow> 'e db \<Rightarrow> session \<Rightarrow> batch list \<Rightarrow> session \<Rightarrow> bool" for L d where
  Stop: "Next L d s = (s, Inr None) \<Longrightarrow> replayed L d s [] s"
| More: "Next L d s = (s1, Inr (Some b)) \<Longrightarrow> replayed L d s1 bs s2 \<Longrightarrow> replayed L d s (b # bs) s2"

lemma pin_one [simp]:
  "acct_pin [w] a r \<longleftrightarrow> r = acct_res (w_acct w a)" "slot_pin [w] a s v \<longleftrightarrow> v = w_slot w a s"
  by (simp_all add: acct_pin_def slot_pin_def)

lemma map_ok_PinAccount:
  assumes "map_ok ws m" and "acct_pin ws a (acct, ex)"
  shows "map_ok ws (fst (PinAccount m a acct ex))"
  using assms acct_pin_entry [of ws a "(acct, ex)"]
  by (auto simp: map_ok_def PinAccount_def pin_entry_def Let_def split: option.splits)

lemma map_ok_PinSlot:
  assumes "map_ok ws m" and "slot_pin ws a k v" and "PinSlot m a k v = Inr m'"
  shows "map_ok ws m'"
  using assms by (auto simp: map_ok_def PinSlot_def split: option.splits if_splits)

lemma PinAccount_known: "\<exists>y. accounts (fst (PinAccount m a acct ex)) a = Some y"
  by (auto simp: PinAccount_def Let_def split: option.splits)

subsection \<open>Diff rows of a history\<close>

lemma last_write_pred:
  assumes "m (key_bytes (f blk)) = None" and "0 < blk"
  shows "last_write m f (blk - 1) = last_write m f blk"
proof -
  have "{b. b \<le> blk - 1 \<and> m (key_bytes (f b)) \<noteq> None} = {b. b \<le> blk \<and> m (key_bytes (f b)) \<noteq> None}"
    using assms(1) by (auto simp: u64_le_minus_one [OF assms(2)] less_le)
  then show ?thesis by (simp add: last_write_def)
qed

lemma world_at_pred:
  assumes "fresh m blk" and "0 < blk"
  shows "world_at kc m (blk - 1) = world_at kc m blk"
  by (rule world_eqI)
    (simp_all add: acct_at_def slot_at_def last_write_pred freshD [OF assms(1) order.refl] assms(2)
      cong: option.case_cong)

lemma consecutive_above: "consecutive p bs \<Longrightarrow> list_all (\<lambda>b. p < Block b) bs"
proof (induction bs arbitrary: p)
  case (Cons b bs)
  then have "p < p + 1" using u64_succ [of p] by (simp add: Latest_def word_less_nat_alt)
  with Cons show ?case by (auto simp: list_all_iff intro: less_trans)
qed simp

lemma diff_rows:
  "block_map b m (key_bytes (KDiff n)) = (if n = Block b then Some (projr (Encode [] b)) else m (key_bytes (KDiff n)))"
  if "sized b"
  using Encode_total [OF that] by (auto simp: block_map_def put_row_def put_ops_base)

lemma history_diff_below:
  "list_all (\<lambda>b. n < Block b) bs \<Longrightarrow> list_all sized bs \<Longrightarrow>
     history_map bs m (key_bytes (KDiff n)) = m (key_bytes (KDiff n))"
  by (induction bs arbitrary: m) (auto simp: diff_rows)

lemma history_world_below:
  assumes "appendable m bs" and "list_all (\<lambda>b. at < Block b) bs"
  shows "world_at kc (history_map bs m) at = world_at kc m at"
proof -
  from assms(2) have "filter (\<lambda>b. Block b \<le> at) bs = []" by (auto simp: filter_empty_conv list_all_iff)
  with world_history [OF assms(1), of kc at] show ?thesis by simp
qed

lemma follows_history:
  "appendable m bs \<Longrightarrow> consecutive p bs \<Longrightarrow> (\<And>n. p < n \<Longrightarrow> m (key_bytes (KDiff n)) = None) \<Longrightarrow>
   list_all no_orphans (worlds bs (world_at kc m p)) \<Longrightarrow> follows kc (history_map bs m) p bs"
proof (induction bs arbitrary: m p)
  case Nil
  then have "p < p + 1" using u64_succ [of p] by (simp add: Latest_def word_less_nat_alt)
  with Nil show ?case by simp
next
  case (Cons b bs)
  then have p: "p < Latest" "Block b = p + 1" "consecutive (p + 1) bs" by simp_all
  then have lt: "p < p + 1" "0 < p + 1"
    using u64_succ [of p] by (simp_all add: Latest_def word_less_nat_alt)
  from Cons.prems(1) have c: "contract b" "fresh m (p + 1)" "appendable (block_map b m) bs"
    by (auto elim!: appendable_ConsE simp: p(2))
  note ab = consecutive_above [OF p(3)]
  have ab': "list_all (\<lambda>b. p < Block b) bs" using ab lt(1) by (auto simp: list_all_iff)
  have sz: "sized b" "list_all sized bs"
    using c(1,3) contract_sized(1) by (auto simp: appendable_def list_all_iff)
  have wp: "world_at kc m (p + 1) = world_at kc m p" using world_at_pred [OF c(2) lt(2), of kc] by simp
  have w: "world_at kc (block_map b m) (p + 1) = apply_batch b (world_at kc m p)"
    "world_at kc (block_map b m) p = world_at kc m p"
    using world_block_map [of m b kc] c p(2) lt(1) wp by (simp_all add: contract_def)
  have "follows kc (history_map bs (block_map b m)) (p + 1) bs"
    using Cons.IH [OF c(3) p(3)] Cons.prems(3,4) lt(1) w(1) p(2) sz(1)
    by (simp add: diff_rows)
  moreover have "Decode (projr (Encode [] b)) = Inr b"
    using Encode_total [OF sz(1), of "[]"] sz(1) by (auto simp: Decode_iff)
  moreover have "no_orphans (apply_batch b (world_at kc m p))"
    using Cons.prems(4) worlds_ends(1) [of "apply_batch b (world_at kc m p)" bs] by (simp add: list_all_iff)
  ultimately show ?case
    using p w history_diff_below [OF ab sz(2)] history_world_below [OF c(3) ab] history_world_below [OF c(3) ab']
    by (simp add: diff_rows [OF sz(1)])
qed

context healthy_lmdb
begin

lemma replay_Open_ok:
  assumes "serving kv S d" and "S \<le> b" and "no_orphans (world_at kc (kv (env d)) b)"
  shows "\<exists>d' s. replay_Open L d b = (d', Inr s) \<and> rp_block s = b \<and> session_ok kc kv S d' s \<and> env d' = env d"
proof -
  from assms have "db_ok kv S d" "\<not> b < S" by (auto simp: serving_def not_less)
  with assms show ?thesis
    by (auto simp: replay_Open_def Genesis_def getMetaU64_def get_eq db_ok_def u64c.dec_enc session_ok_def
        serving_def complete_def)
qed

lemma replay_Account_ok:
  assumes ok: "session_ok kc kv S d s"
  shows "\<exists>d' s'. replay_Account L kc d s a =
      (d', s', Inr (acct_res (w_acct (world_at kc (kv (env d)) (rp_block s)) a)))
    \<and> session_ok kc kv S d' s' \<and> env d' = env d \<and> rp_block s' = rp_block s \<and> accounts (rp_m s') a \<noteq> None"
proof (cases "accounts (rp_m s) a")
  case (Some e)
  from ok Some have "entry_res e = acct_res (acct_at kc (kv (env d)) (rp_block s) a)"
    by (auto simp: session_ok_def map_ok_def)
  with ok Some show ?thesis by (simp add: replay_Account_def entry_res_def)
next
  case None
  let ?r = "acct_res (acct_at kc (kv (env d)) (rp_block s) a)"
  from ok have "db_ok kv S d" "S \<le> rp_block s" "complete kv d" by (simp_all add: session_ok_def serving_def)
  with GetAccount_eq [of S d "rp_block s" kc a] obtain d' where
    g: "GetAccount L kc d a (rp_block s) = (d', Inr ?r)" "env d' = env d" "db_ok kv S d'" by auto
  have "session_ok kc kv S d' (s\<lparr>rp_m := fst (PinAccount (rp_m s) a (fst ?r) (snd ?r))\<rparr>)"
    using ok g map_ok_PinAccount [of "[world_at kc (kv (env d)) (rp_block s)]" "rp_m s" a "fst ?r" "snd ?r"]
    by (simp add: session_ok_def serving_def complete_def)
  with None g show ?thesis
    by (auto simp: replay_Account_def PinAccount_known split: prod.split)
qed

lemma replay_fetch_ok:
  assumes ok: "session_ok kc kv S d s" and known: "accounts (rp_m s) a = Some e"
  shows "\<exists>d' s'. replay_fetch L kc d s a k =
      (d', s', Inr (w_slot (world_at kc (kv (env d)) (rp_block s)) a k))
    \<and> session_ok kc kv S d' s' \<and> env d' = env d \<and> rp_block s' = rp_block s"
proof -
  let ?v = "slot_at kc (kv (env d)) (rp_block s) a k"
  from ok have "db_ok kv S d" "S \<le> rp_block s" "no_edge (kv (env d))" "complete kv d"
    by (simp_all add: session_ok_def serving_def)
  from GetSlot_no_edge [OF this, of kc a k] obtain d' where
    g: "GetSlot L kc d a k (rp_block s) = (d', Inr ?v)" "env d' = env d" "db_ok kv S d'" by auto
  obtain m' where m': "PinSlot (rp_m s) a k ?v = Inr m'" using known by (simp add: PinSlot_def)
  have "session_ok kc kv S d' (s\<lparr>rp_m := m'\<rparr>)"
    using ok g map_ok_PinSlot [OF _ _ m', of "[world_at kc (kv (env d)) (rp_block s)]"]
    by (simp add: session_ok_def serving_def complete_def)
  with g m' show ?thesis by (simp add: replay_fetch_def)
qed

lemma replay_Slot_ok:
  assumes ok: "session_ok kc kv S d s"
  shows "\<exists>d' s'. replay_Slot L kc d s a k =
      (d', s', Inr (w_slot (world_at kc (kv (env d)) (rp_block s)) a k))
    \<and> session_ok kc kv S d' s' \<and> env d' = env d \<and> rp_block s' = rp_block s"
proof (cases "accounts (rp_m s) a")
  case None
  from replay_Account_ok [OF ok, of a] obtain d1 s1 e where
    r: "replay_Account L kc d s a = (d1, s1, Inr (acct_res (w_acct (world_at kc (kv (env d)) (rp_block s)) a)))"
    "session_ok kc kv S d1 s1" "env d1 = env d" "rp_block s1 = rp_block s" "accounts (rp_m s1) a = Some e"
    by blast
  from replay_fetch_ok [OF r(2,5), of k] None r show ?thesis by (auto simp: replay_Slot_def)
next
  case (Some e)
  let ?w = "world_at kc (kv (env d)) (rp_block s)"
  from ok Some have e: "entry_res e = acct_res (w_acct ?w a)"
    "\<And>v. Storage e k = Some v \<Longrightarrow> v = w_slot ?w a k" and orph: "no_orphans ?w"
    by (auto simp: session_ok_def map_ok_def)
  show ?thesis
  proof (cases "Exists e")
    case False
    with e(1) have "w_acct ?w a = None" by (cases "w_acct ?w a") (simp_all add: entry_res_def)
    with no_orphansD [OF orph] have "w_slot ?w a k = 0" by simp
    with False Some ok show ?thesis by (simp add: replay_Slot_def)
  next
    case True
    with e(2) Some ok replay_fetch_ok [OF ok Some, of k] show ?thesis
      by (cases "Storage e k") (auto simp: replay_Slot_def)
  qed
qed

lemma Next_ok:
  assumes ok: "session_ok kc kv S d s" and f: "follows kc (kv (env d)) (rp_block s) (b # bs)"
  shows "\<exists>s'. Next L d s = (s', Inr (Some b)) \<and> rp_block s' = Block b \<and> session_ok kc kv S d s'"
proof -
  let ?w = "world_at kc (kv (env d))"
  from f obtain v where b: "Block b = rp_block s + 1" "rp_block s < Latest"
    "kv (env d) (key_bytes (KDiff (rp_block s + 1))) = Some v" "Decode v = Inr b"
    "?w (rp_block s + 1) = apply_batch b (?w (rp_block s))" "no_orphans (?w (rp_block s + 1))"
    by (auto split: option.splits)
  have le: "rp_block s \<le> rp_block s + 1"
    using u64_succ [of "rp_block s"] b(2) by (simp add: Latest_def word_le_nat_alt)
  have "map_ok [?w (rp_block s + 1)] (Apply (rp_m s) b)"
    using map_ok_Apply [of b "[]" "?w (rp_block s)" "rp_m s"] ok b(5)
      pins_mono(1) [of "[?w (rp_block s)]" "worlds [b] (?w (rp_block s))" "rp_m s"]
    by (simp add: session_ok_def)
  moreover have "S \<le> rp_block s + 1" using ok le unfolding session_ok_def by (blast intro: order.trans)
  ultimately have "session_ok kc kv S d (s\<lparr>rp_m := Apply (rp_m s) b, rp_block := rp_block s + 1\<rparr>)"
    using ok b(6) by (simp add: session_ok_def)
  then show ?thesis by (simp add: Next_def GetDiff_def get_eq key_simps b(1,3,4))
qed

lemma replay_follows:
  "session_ok kc kv S d s \<Longrightarrow> follows kc (kv (env d)) (rp_block s) bs \<Longrightarrow>
   \<exists>s'. replayed L d s bs s' \<and> session_ok kc kv S d s' \<and> rp_block s' = last (rp_block s # map Block bs)"
proof (induction bs arbitrary: s)
  case Nil
  then have "Next L d s = (s, Inr None)" by (simp add: Next_def GetDiff_def get_eq key_simps)
  with Nil show ?case by (auto intro: replayed.Stop)
next
  case (Cons b bs)
  from Next_ok [OF Cons.prems] obtain s1 where
    s1: "Next L d s = (s1, Inr (Some b))" "rp_block s1 = Block b" "session_ok kc kv S d s1" by blast
  from Cons.IH [OF s1(3)] Cons.prems(2) s1(2) obtain s' where "replayed L d s1 bs s'" "session_ok kc kv S d s'"
    "rp_block s' = last (rp_block s1 # map Block bs)" by auto
  with s1 show ?case by (auto intro: replayed.More)
qed

lemma replay_history:
  assumes ok: "session_ok kc kv S d s" and bs: "appendable (kv (env d)) bs" "consecutive (rp_block s) bs"
    and new: "\<And>n. rp_block s < n \<Longrightarrow> kv (env d) (key_bytes (KDiff n)) = None"
    and orph: "list_all no_orphans (worlds bs (world_at kc (kv (env d)) (rp_block s)))"
  shows "\<exists>d' s'. write_all L d bs = (d', None) \<and> replayed L d' s bs s' \<and> session_ok kc kv S d' s'
    \<and> rp_block s' = last (rp_block s # map Block bs)"
proof -
  from ok have sv: "serving kv S d" by (simp add: session_ok_def)
  from bs(1) have "list_all sized bs" by (auto simp: appendable_def list_all_iff contract_def)
  with write_all_ok [of S d bs] sv obtain d' where d': "write_all L d bs = (d', None)"
    "kv (env d') = history_map bs (kv (env d))" "db_ok kv S d'" "complete kv d'"
    by (auto simp: serving_def)
  have "session_ok kc kv S d' s"
    using ok sv d' wf_history [OF bs(1)] history_world_below [OF bs(1) consecutive_above [OF bs(2)], of kc]
    by (simp add: session_ok_def serving_def db_ok_def)
  from replay_follows [OF this] follows_history [OF bs new orph] d' show ?thesis by auto
qed

text \<open>A block committed above the session does not disturb it.\<close>

lemma session_ok_commit:
  assumes ok: "session_ok kc kv S d s" and c: "contract b" and f: "fresh (kv (env d)) (Block b)"
    and above: "rp_block s < Block b" and w: "WriteBlock L d b = (d', None)"
  shows "session_ok kc kv S d' s"
proof -
  from ok have sv: "serving kv S d" by (simp add: session_ok_def)
  from WriteBlock_ok [of S d b] sv c w have d': "kv (env d') = block_map b (kv (env d))" "db_ok kv S d'"
      "complete kv d' = complete kv d"
    by (auto simp: serving_def contract_def)
  with sv c no_edge_block_map [OF f] have "serving kv S d'" by (simp add: serving_def contract_def)
  with ok show ?thesis by (simp add: session_ok_def d' world_at_below [OF f above])
qed

end

end
