(* ===== verification/Follow.thy ===== *)
theory Follow
  imports MemSystem Tipbus
begin

text \<open>
  A reader process (\<^verbatim>\<open>src/cmd/simbench/main.go\<close>, the handshake of \<^verbatim>\<open>main\<close> and the loop \<^verbatim>\<open>follow\<close>): it
  rebuilds the unfinalized stack from the bus and keeps it up to date by polling. A fatal error is
  \<open>Inl\<close>. \<open>follow_round_stack\<close>: a reader that is at any point of the writer's log is, one round later,
  at its end, with the writer's stack. \<open>follow_resync\<close> and \<open>follow_truncated\<close> say what the loop does
  when the bus was started over under it.
\<close>

text \<open>\<^verbatim>\<open>main\<close>: the stack of the handshake applied block by block, and the cursor.\<close>

definition reader_start :: "'e lmdb_ops \<Rightarrow> 'e \<Rightarrow> mem_state \<Rightarrow> error + mem_state \<times> u64" where
  "reader_start L e st =
     (case Handshake L e of
        Inl err \<Rightarrow> Inl err
      | Inr (_, ls, seq) \<Rightarrow> Inr (fold (\<lambda>b s. ApplyBlock s b) ls st, seq))"

text \<open>The loop over the polled events; \<open>e'\<close> is the bus at the time of a resync, \<open>nxt\<close> the cursor.\<close>

fun follow_events ::
  "'e lmdb_ops \<Rightarrow> 'e \<Rightarrow> event list \<Rightarrow> mem_state \<Rightarrow> u64 \<Rightarrow> error + mem_state \<times> u64" where
  "follow_events L e' [] st nxt = Inr (st, nxt)"
| "follow_events L e' (EvBlock b # evs) st nxt = follow_events L e' evs (ApplyBlock st b) nxt"
| "follow_events L e' (EvFinalize height h # evs) st nxt =
     (case mem_Finalize st height h of
        (st', None) \<Rightarrow> follow_events L e' evs st' nxt
      | (st', Some _) \<Rightarrow>
          (case Handshake L e' of
             Inl err \<Rightarrow> Inl err
           | Inr (_, ls, seq2) \<Rightarrow> follow_events L e' evs (mem_PreferenceReset st' ls) seq2))"
| "follow_events L e' (EvReset bs # evs) st nxt = follow_events L e' evs (mem_PreferenceReset st bs) nxt"

text \<open>One turn of the outer loop: the state and the cursor after it.\<close>

definition follow_round ::
  "'e lmdb_ops \<Rightarrow> 'e \<Rightarrow> 'e \<Rightarrow> mem_state \<Rightarrow> u64 \<Rightarrow> error + mem_state \<times> u64" where
  "follow_round L e e' st cur =
     (case Seq L e of
        Inl err \<Rightarrow> Inl err
      | Inr seq \<Rightarrow>
          (if seq = cur then Inr (st, cur)
           else case Poll L e cur of
                  (evs, nxt, Some err) \<Rightarrow> Inl err
                | (evs, nxt, None) \<Rightarrow> follow_events L e' evs st nxt))"

subsection \<open>A reader keeps up with a writer\<close>

text \<open>A log whose finalizations are those of the oldest block of the stack, as the writer's are.\<close>

fun log_ok :: "batch list \<Rightarrow> event list \<Rightarrow> bool" where
  "log_ok stk [] \<longleftrightarrow> True"
| "log_ok stk (EvFinalize height h # evs) \<longleftrightarrow>
     (case stk of [] \<Rightarrow> False | b # bs \<Rightarrow> Block b = height \<and> Hash b = h \<and> log_ok bs evs)"
| "log_ok stk (ev # evs) \<longleftrightarrow> log_ok (ev_layers ev stk) evs"

lemma log_ok_append: "log_ok stk (xs @ ys) \<longleftrightarrow> log_ok stk xs \<and> log_ok (fold ev_layers xs stk) ys"
proof (induction xs arbitrary: stk)
  case (Cons ev xs)
  then show ?case by (cases ev) (auto split: list.splits)
qed simp

lemma layers_ApplyBlocks: "layers (fold (\<lambda>b s. ApplyBlock s b) bs st) = layers st @ map newLayer bs"
  by (induction bs arbitrary: st) (simp_all add: ApplyBlock_def push_layer_def)

lemma mem_Finalize_head:
  "layers st = map newLayer (b # bs) \<Longrightarrow>
     \<exists>st'. mem_Finalize st (Block b) (Hash b) = (st', None) \<and> layers st' = map newLayer bs"
  by (simp add: mem_Finalize_def Let_def)

lemma layers_Reset: "layers (mem_PreferenceReset st bs) = map newLayer bs"
  by (simp add: mem_PreferenceReset_def fold_push_layers)

lemma follow_events_stack:
  assumes "layers st = map newLayer stk" and "log_ok stk evs"
  shows "\<exists>st'. follow_events L e' evs st nxt = Inr (st', nxt) \<and> layers st' = map newLayer (fold ev_layers evs stk)"
  using assms
proof (induction evs arbitrary: st stk)
  case (Cons ev evs)
  show ?case
  proof (cases ev)
    case (EvBlock b)
    with Cons show ?thesis by (simp add: ApplyBlock_def push_layer_def)
  next
    case (EvFinalize height h)
    with Cons.prems obtain b bs where s: "stk = b # bs" "Block b = height" "Hash b = h" "log_ok bs evs"
      by (auto split: list.splits)
    with mem_Finalize_head [of st b bs] Cons.prems obtain st'
      where "mem_Finalize st height h = (st', None)" "layers st' = map newLayer bs" by auto
    with Cons.IH [of st' bs] s EvFinalize show ?thesis by simp
  next
    case (EvReset bs)
    with Cons show ?thesis by (simp add: layers_Reset)
  qed
qed simp

context healthy_lmdb
begin

lemma Seq_log:
  assumes "bus_log kv b log"
  shows "Seq L (bus_env b) = Inr (of_nat (length log))"
  using bus_logD(3,7) [OF assms] by (simp add: Seq_def get_eq be_u64_def codec_simps)

lemma reader_start_stack:
  assumes "bus_log kv b log" and "layers st = []"
  shows "\<exists>st'. reader_start L (bus_env b) st = Inr (st', of_nat (length log))
    \<and> layers st' = map newLayer (fold ev_layers log [])"
  using Handshake_log [OF assms(1)] assms(2) by (simp add: reader_start_def layers_ApplyBlocks)

lemma follow_round_stack:
  assumes log: "bus_log kv b log" and ok: "log_ok [] log" and i: "i \<le> length log"
    and st: "layers st = map newLayer (fold ev_layers (take i log) [])"
  shows "\<exists>st'. follow_round L (bus_env b) e' st (of_nat i) = Inr (st', of_nat (length log))
    \<and> layers st' = map newLayer (fold ev_layers log [])"
proof (cases "i = length log")
  case True
  with st Seq_log [OF log] show ?thesis by (simp add: follow_round_def)
next
  case False
  have "(of_nat (length log) :: u64) \<noteq> of_nat i"
    using False i bus_logD(4) [OF log] unat_u64_of_nat [of i] unat_u64_of_nat [of "length log"]
    by (metis le_less_trans)
  moreover from ok have "log_ok (fold ev_layers (take i log) []) (drop i log)"
    using log_ok_append [of "[]" "take i log" "drop i log"] by simp
  moreover have "fold ev_layers (drop i log) (fold ev_layers (take i log) []) = fold ev_layers log []"
    by (metis append_take_drop_id comp_apply fold_append)
  ultimately show ?thesis
    using follow_events_stack [OF st, of "drop i log" L e'] Seq_log [OF log] Poll_log [OF log i]
    by (auto simp: follow_round_def)
qed

text \<open>
  A bus that was started over is shorter than the cursor: until its log has grown past the old cursor
  the reader polls nothing, and stays where it was.
\<close>

lemma follow_truncated:
  assumes log: "bus_log kv b log" and "length log < unat cur"
  shows "follow_round L (bus_env b) e' st cur = Inr (st, cur)"
proof -
  have "unat (of_nat (length log) :: u64) = length log" using bus_logD(4) [OF log] by (rule unat_u64_of_nat)
  with assms(2) Seq_log [OF log] bus_logD(3,7) [OF log] show ?thesis
    by (auto simp: follow_round_def Poll_def get_eq be_u64_def codec_simps)
qed

end

text \<open>
  After a resync the events polled before it are applied on top of the stack of the handshake, which
  holds them already.
\<close>

lemma follow_resync:
  assumes "snd (mem_Finalize st height h) \<noteq> None" and "Handshake L e' = Inr (f, ls, seq2)" and "log_ok ls evs"
  shows "\<exists>st'. follow_events L e' (EvFinalize height h # evs) st nxt = Inr (st', seq2)
    \<and> layers st' = map newLayer (fold ev_layers evs ls)"
  using follow_events_stack [OF layers_Reset [of "fst (mem_Finalize st height h)" ls] assms(3), of L e' seq2] assms(1,2)
  by (cases "mem_Finalize st height h") auto

end
