(* ===== verification/Suitecache.thy ===== *)
theory Suitecache
  imports StoreHistory "HOL-Library.AList"
begin

text \<open>
  Package \<^verbatim>\<open>suitecache\<close> (\<^verbatim>\<open>src/suitecache/suitecache.go\<close>): the flat file that caches the state of one
  block for a test suite. The file system is a map from paths to contents; the three calls of
  package \<^verbatim>\<open>os\<close> may fail, as a record of faults says, and a failed write leaves any bytes in the file
  it was writing. The maps of the cache, which \<^verbatim>\<open>Close\<close> ranges over, are association lists. The
  path is an argument of \<open>cache_Open\<close> (Go builds it from the directory, the suite and the block).

  \<open>load_file\<close> is the round trip of the file format; \<open>cache_ok\<close> says that every entry is the
  state of the block, which every read keeps, and \<open>cache_backed_write\<close> that later blocks leave it true.
\<close>

subsection \<open>Files\<close>

type_synonym fs = "string \<rightharpoonup> bytes"

record os_fault =
  f_read :: "error option"
  f_write :: "(error \<times> bytes) option"
  f_rename :: "error option"

definition no_fault :: os_fault where
  "no_fault = \<lparr>f_read = None, f_write = None, f_rename = None\<rparr>"

definition ReadFile :: "os_fault \<Rightarrow> fs \<Rightarrow> string \<Rightarrow> error + bytes option" where
  "ReadFile ft fs path = (case f_read ft of Some err \<Rightarrow> Inl err | None \<Rightarrow> Inr (fs path))"

definition WriteFile :: "os_fault \<Rightarrow> fs \<Rightarrow> string \<Rightarrow> bytes \<Rightarrow> fs \<times> error option" where
  "WriteFile ft fs path data =
     (case f_write ft of
        Some (err, part) \<Rightarrow> (fs(path \<mapsto> part), Some err)
      | None \<Rightarrow> (fs(path \<mapsto> data), None))"

definition Rename :: "os_fault \<Rightarrow> fs \<Rightarrow> string \<Rightarrow> string \<Rightarrow> fs \<times> error option" where
  "Rename ft fs old new =
     (case f_rename ft of
        Some err \<Rightarrow> (fs, Some err)
      | None \<Rightarrow> (case fs old of
                   None \<Rightarrow> (fs, Some ErrNotFound)
                 | Some c \<Rightarrow> (fs(new \<mapsto> c, old := None), None)))"

subsection \<open>The cache\<close>

definition magic :: bytes where
  "magic = [0x46, 0x53, 0x43, 0x31, 0, 0, 0, 0]"

definition recAccount :: byte where "recAccount = 1"
definition recSlot :: byte where "recSlot = 2"
definition recCode :: byte where "recCode = 3"

lemmas rec_defs = recAccount_def recSlot_def recCode_def

record 'e cache =
  c_db :: "'e db option"
  c_block :: u64
  c_path :: string
  c_dirty :: bool
  c_accounts :: "(address \<times> account \<times> bool) list"
  c_slots :: "(skey \<times> hash) list"
  c_code :: "(hash \<times> bytes) list"

text \<open>One turn of the loop of \<^verbatim>\<open>load\<close>: the record after its tag, and the data left.\<close>

definition load_rec :: "byte \<Rightarrow> bytes \<Rightarrow> 'e cache \<Rightarrow> error + 'e cache \<times> bytes" where
  "load_rec tag data c =
     (if tag = recAccount then
        (if length data < 20 + 1 + AccountSize then Inl ErrTruncated
         else case DecodeAccount (take AccountSize (drop 21 data)) of
                Inl err \<Rightarrow> Inl err
              | Inr a \<Rightarrow>
                  Inr (c\<lparr>c_accounts := AList.update (be_word (take 20 data)) (a, data ! 20 = 1) (c_accounts c)\<rparr>,
                       drop (21 + AccountSize) data))
      else if tag = recSlot then
        (if length data < 20 + 32 + 32 then Inl ErrTruncated
         else Inr (c\<lparr>c_slots := AList.update (be_word (take 20 data), be_word (take 32 (drop 20 data)))
                       (be_word (take 32 (drop 52 data))) (c_slots c)\<rparr>,
                   drop 84 data))
      else if tag = recCode then
        (if length data < 36 then Inl ErrTruncated
         else let l = (be_word (take 4 (drop 32 data)) :: u32); hi = unat (36 + l)
              in if length data < 36 + unat l then Inl ErrTruncated
                 else if hi < 36 then Inl (Panic ''slice bounds out of range'')
                 else Inr (c\<lparr>c_code := AList.update (be_word (take 32 data)) (drop 36 (take hi data)) (c_code c)\<rparr>,
                           drop (36 + unat l) data))
      else Inl (ErrUnknownKind tag))"

lemma load_rec_rest: "load_rec tag data c = Inr (c', rest) \<Longrightarrow> length rest \<le> length data"
  by (auto simp: load_rec_def Let_def split: if_splits sum.splits)

function load_recs :: "bytes \<Rightarrow> 'e cache \<Rightarrow> error + 'e cache" where
  "load_recs [] c = Inr c"
| "load_recs (tag # data) c =
     (case load_rec tag data c of Inl err \<Rightarrow> Inl err | Inr (c', rest) \<Rightarrow> load_recs rest c')"
  by pat_completeness auto
termination
  by (relation "measure (\<lambda>(data, c). length data)") (auto simp: less_Suc_eq_le dest: load_rec_rest)

definition load :: "'e cache \<Rightarrow> bytes \<Rightarrow> error + 'e cache" where
  "load c data =
     (if length data < 16 \<or> take 8 data \<noteq> magic then Inl ErrBadMagic
      else if be_word (take 8 (drop 8 data)) \<noteq> c_block c
      then Inl (ErrHeight (be_word (take 8 (drop 8 data))) (c_block c))
      else load_recs (drop 16 data) c)"

definition cache_Open :: "os_fault \<Rightarrow> fs \<Rightarrow> string \<Rightarrow> u64 \<Rightarrow> 'e db option \<Rightarrow> error + 'e cache" where
  "cache_Open ft fs path block db =
     (let c = \<lparr>c_db = db, c_block = block, c_path = path, c_dirty = False,
               c_accounts = [], c_slots = [], c_code = []\<rparr>
      in case ReadFile ft fs path of
           Inl err \<Rightarrow> Inl err
         | Inr None \<Rightarrow> Inr c
         | Inr (Some data) \<Rightarrow> load c data)"

definition cache_miss :: "'e cache \<Rightarrow> error + 'e db" where
  "cache_miss c = (case c_db c of None \<Rightarrow> Inl ErrNoStore | Some d \<Rightarrow> Inr d)"

definition cache_Account ::
  "'e lmdb_ops \<Rightarrow> (bytes \<Rightarrow> hash) \<Rightarrow> 'e cache \<Rightarrow> address \<Rightarrow> 'e cache \<times> (error + account \<times> bool)" where
  "cache_Account L kc c addr =
     (case map_of (c_accounts c) addr of
        Some e \<Rightarrow> (c, Inr e)
      | None \<Rightarrow>
          (case cache_miss c of
             Inl err \<Rightarrow> (c, Inl err)
           | Inr d \<Rightarrow>
               (case GetAccount L kc d addr (c_block c) of
                  (d', Inl err) \<Rightarrow> (c\<lparr>c_db := Some d'\<rparr>, Inl err)
                | (d', Inr r) \<Rightarrow>
                    (c\<lparr>c_db := Some d', c_accounts := AList.update addr r (c_accounts c), c_dirty := True\<rparr>,
                     Inr r))))"

definition cache_Slot ::
  "'e lmdb_ops \<Rightarrow> (bytes \<Rightarrow> hash) \<Rightarrow> 'e cache \<Rightarrow> address \<Rightarrow> hash \<Rightarrow> 'e cache \<times> (error + hash)" where
  "cache_Slot L kc c addr slot =
     (case map_of (c_slots c) (addr, slot) of
        Some v \<Rightarrow> (c, Inr v)
      | None \<Rightarrow>
          (case cache_miss c of
             Inl err \<Rightarrow> (c, Inl err)
           | Inr d \<Rightarrow>
               (case GetSlot L kc d addr slot (c_block c) of
                  (d', Inl err) \<Rightarrow> (c\<lparr>c_db := Some d'\<rparr>, Inl err)
                | (d', Inr v) \<Rightarrow>
                    (c\<lparr>c_db := Some d', c_slots := AList.update (addr, slot) v (c_slots c), c_dirty := True\<rparr>,
                     Inr v))))"

definition cache_Code :: "'e lmdb_ops \<Rightarrow> 'e cache \<Rightarrow> hash \<Rightarrow> 'e cache \<times> (error + bytes)" where
  "cache_Code L c h =
     (case map_of (c_code c) h of
        Some v \<Rightarrow> (c, Inr v)
      | None \<Rightarrow>
          (case cache_miss c of
             Inl err \<Rightarrow> (c, Inl err)
           | Inr d \<Rightarrow>
               (case GetCode L d h of
                  Inl err \<Rightarrow> (c, Inl err)
                | Inr v \<Rightarrow> (c\<lparr>c_code := AList.update h v (c_code c), c_dirty := True\<rparr>, Inr v))))"

text \<open>The three loops of \<^verbatim>\<open>Close\<close>, one record per entry.\<close>

definition account_rec :: "address \<times> account \<times> bool \<Rightarrow> bytes" where
  "account_rec p =
     (case p of (addr, a, ex) \<Rightarrow>
        recAccount # be_bytes 20 addr @ [if ex then 1 else 0] @ EncodeAccount [] a)"

definition slot_rec :: "skey \<times> hash \<Rightarrow> bytes" where
  "slot_rec p = (case p of ((addr, slot), v) \<Rightarrow> recSlot # be_bytes 20 addr @ be_bytes 32 slot @ be_bytes 32 v)"

definition code_rec :: "hash \<times> bytes \<Rightarrow> bytes" where
  "code_rec p =
     (case p of (h, code) \<Rightarrow> recCode # be_bytes 32 h @ be_bytes 4 (of_nat (length code) :: u32) @ code)"

definition cache_file :: "'e cache \<Rightarrow> bytes" where
  "cache_file c =
     magic @ be_bytes 8 (c_block c) @ concat (map account_rec (c_accounts c))
       @ concat (map slot_rec (c_slots c)) @ concat (map code_rec (c_code c))"

definition cache_Close :: "os_fault \<Rightarrow> fs \<Rightarrow> 'e cache \<Rightarrow> fs \<times> 'e cache \<times> error option" where
  "cache_Close ft fs c =
     (if \<not> c_dirty c then (fs, c, None)
      else let tmp = c_path c @ ''.tmp''
           in case WriteFile ft fs tmp (cache_file c) of
                (fs1, Some err) \<Rightarrow> (fs1, c, Some err)
              | (fs1, None) \<Rightarrow>
                  (case Rename ft fs1 tmp (c_path c) of
                     (fs2, Some err) \<Rightarrow> (fs2, c, Some err)
                   | (fs2, None) \<Rightarrow> (fs2, c\<lparr>c_dirty := False\<rparr>, None)))"


subsection \<open>The file format\<close>

definition cache_wf :: "'e cache \<Rightarrow> bool" where
  "cache_wf c \<longleftrightarrow> distinct (map fst (c_accounts c)) \<and> distinct (map fst (c_slots c))
     \<and> distinct (map fst (c_code c)) \<and> (\<forall>p \<in> set (c_code c). length (snd p) < 2 ^ 32 - 36)"

lemma update_fresh: "k \<notin> fst ` set al \<Longrightarrow> AList.update k v al = al @ [(k, v)]"
  by (induction al) auto

lemma load_account_rec:
  "load_recs (account_rec p @ rest) c =
     load_recs rest (c\<lparr>c_accounts := AList.update (fst p) (snd p) (c_accounts c)\<rparr>)"
  by (cases p)
    (simp add: account_rec_def load_rec_def rec_defs nth_append codec_simps length_EncodeAccount
      accountc.take_enc accountc.dec_enc)

lemma load_slot_rec:
  "load_recs (slot_rec p @ rest) c =
     load_recs rest (c\<lparr>c_slots := AList.update (fst p) (snd p) (c_slots c)\<rparr>)"
  by (cases p rule: prod.exhaust, cases "fst p")
    (simp add: slot_rec_def load_rec_def rec_defs codec_simps split: prod.splits)

lemma load_code_rec:
  assumes "length (snd p) < 2 ^ 32 - 36"
  shows "load_recs (code_rec p @ rest) c =
     load_recs rest (c\<lparr>c_code := AList.update (fst p) (snd p) (c_code c)\<rparr>)"
proof -
  obtain h code where p: "p = (h, code)" by (cases p)
  have l: "unat (of_nat (length code) :: u32) = length code"
    using assms p by (intro unat_u32_of_nat) simp
  have "unat (36 + of_nat (length code) :: u32) = 36 + length code"
    using unat_u32_of_nat [of "36 + length code"] assms p by simp
  with l show ?thesis
    by (simp add: p code_rec_def load_rec_def rec_defs Let_def codec_simps)
qed

lemma load_account_recs:
  assumes "distinct (map fst (c_accounts c @ ps))"
  shows "load_recs (concat (map account_rec ps) @ rest) c = load_recs rest (c\<lparr>c_accounts := c_accounts c @ ps\<rparr>)"
  using assms
proof (induction ps arbitrary: c)
  case (Cons p ps)
  then show ?case
    using Cons.IH [of "c\<lparr>c_accounts := c_accounts c @ [p]\<rparr>"]
    by (simp add: load_account_rec update_fresh)
qed simp

lemma load_slot_recs:
  assumes "distinct (map fst (c_slots c @ ps))"
  shows "load_recs (concat (map slot_rec ps) @ rest) c = load_recs rest (c\<lparr>c_slots := c_slots c @ ps\<rparr>)"
  using assms
proof (induction ps arbitrary: c)
  case (Cons p ps)
  then show ?case
    using Cons.IH [of "c\<lparr>c_slots := c_slots c @ [p]\<rparr>"]
    by (simp add: load_slot_rec update_fresh)
qed simp

lemma load_code_recs:
  assumes "distinct (map fst (c_code c @ ps))" and "\<forall>p \<in> set ps. length (snd p) < 2 ^ 32 - 36"
  shows "load_recs (concat (map code_rec ps) @ rest) c = load_recs rest (c\<lparr>c_code := c_code c @ ps\<rparr>)"
  using assms
proof (induction ps arbitrary: c)
  case (Cons p ps)
  then show ?case
    using Cons.IH [of "c\<lparr>c_code := c_code c @ [p]\<rparr>"]
    by (simp add: load_code_rec update_fresh)
qed simp

lemma load_file:
  assumes "cache_wf c" and "c_block c0 = c_block c"
    and "c_accounts c0 = []" and "c_slots c0 = []" and "c_code c0 = []"
  shows "load c0 (cache_file c) =
    Inr (c0\<lparr>c_accounts := c_accounts c, c_slots := c_slots c, c_code := c_code c\<rparr>)"
proof -
  have "length magic = 8" by (simp add: magic_def)
  with assms load_code_recs [of "c0\<lparr>c_accounts := c_accounts c, c_slots := c_slots c\<rparr>" "c_code c" "[]"]
  show ?thesis
    by (simp add: load_def cache_file_def cache_wf_def codec_simps load_account_recs load_slot_recs)
qed

text \<open>
  \<^verbatim>\<open>Close\<close> goes through a temporary file: the cache file is the old one or the new one, whatever
  fails, and the new one when nothing does.
\<close>

lemma cache_Close_atomic:
  assumes "cache_Close ft fs c = (fs', c', err)"
  shows "fs' (c_path c) = (if c_dirty c \<and> err = None then Some (cache_file c) else fs (c_path c))"
    and "err = None \<Longrightarrow> c' = c\<lparr>c_dirty := False\<rparr>"
    and "err \<noteq> None \<Longrightarrow> c' = c"
  using assms
  by (auto simp: cache_Close_def WriteFile_def Rename_def Let_def split: if_splits prod.splits option.splits)

lemma cache_reopen:
  assumes "cache_wf c" and "c_dirty c" and "cache_Close ft fs c = (fs', c', None)"
  shows "cache_Open no_fault fs' (c_path c) (c_block c) db = Inr (c\<lparr>c_db := db, c_dirty := False\<rparr>)"
  using cache_Close_atomic(1) [OF assms(3)] assms(1,2)
  by (simp add: cache_Open_def ReadFile_def no_fault_def load_file)

subsection \<open>Reads\<close>

definition cache_ok :: "world \<Rightarrow> 'e cache \<Rightarrow> bool" where
  "cache_ok w c \<longleftrightarrow>
     (\<forall>a r. map_of (c_accounts c) a = Some r \<longrightarrow> r = acct_res (w_acct w a))
     \<and> (\<forall>a s v. map_of (c_slots c) (a, s) = Some v \<longrightarrow> v = w_slot w a s)"

text \<open>The store behind a cache, if any, serves the state \<open>w\<close> at the block of the cache.\<close>

definition cache_backed ::
  "(bytes \<Rightarrow> hash) \<Rightarrow> ('e \<Rightarrow> bytes \<rightharpoonup> bytes) \<Rightarrow> u64 \<Rightarrow> world \<Rightarrow> 'e cache \<Rightarrow> bool" where
  "cache_backed kc kv S w c \<longleftrightarrow>
     (case c_db c of
        None \<Rightarrow> True
      | Some d \<Rightarrow> serving kv S d \<and> S \<le> c_block c \<and> world_at kc (kv (env d)) (c_block c) = w)"

lemma cache_ok_update:
  "cache_ok w c \<Longrightarrow> r = acct_res (w_acct w a) \<Longrightarrow>
     cache_ok w (c\<lparr>c_db := d, c_accounts := AList.update a r (c_accounts c), c_dirty := x\<rparr>)"
  "cache_ok w c \<Longrightarrow> v = w_slot w a s \<Longrightarrow>
     cache_ok w (c\<lparr>c_db := d, c_slots := AList.update (a, s) v (c_slots c), c_dirty := x\<rparr>)"
  by (auto simp: cache_ok_def update_conv' split: if_splits)

context healthy_lmdb
begin

lemma cache_Account_ok:
  assumes ok: "cache_ok w c" and bk: "cache_backed kc kv S w c" and r: "cache_Account L kc c a = (c', r)"
  shows "cache_ok w c' \<and> cache_backed kc kv S w c' \<and> c_block c' = c_block c
    \<and> (cache_wf c \<longrightarrow> cache_wf c')
    \<and> r = (if c_db c = None \<and> map_of (c_accounts c) a = None then Inl ErrNoStore
           else Inr (acct_res (w_acct w a)))"
proof (cases "map_of (c_accounts c) a")
  case (Some e)
  with r ok bk show ?thesis by (cases e) (auto simp: cache_Account_def cache_ok_def)
next
  case None
  show ?thesis
  proof (cases "c_db c")
    case None
    with r ok bk \<open>map_of (c_accounts c) a = None\<close> show ?thesis
      by (auto simp: cache_Account_def cache_miss_def)
  next
    case (Some d)
    with bk have d: "serving kv S d" "S \<le> c_block c" "world_at kc (kv (env d)) (c_block c) = w"
      by (auto simp: cache_backed_def)
    from serving_GetAccount [OF d(1,2), of kc a] d(3) obtain d' where
      "GetAccount L kc d a (c_block c) = (d', Inr (acct_res (w_acct w a)))" "env d' = env d" "serving kv S d'"
      by auto
    with r Some None d cache_ok_update(1) [OF ok refl, where d = "Some d'" and x = True] show ?thesis
      by (auto simp: cache_Account_def cache_miss_def cache_backed_def cache_wf_def distinct_update)
  qed
qed

lemma cache_Slot_ok:
  assumes ok: "cache_ok w c" and bk: "cache_backed kc kv S w c" and r: "cache_Slot L kc c a s = (c', r)"
  shows "cache_ok w c' \<and> cache_backed kc kv S w c' \<and> c_block c' = c_block c
    \<and> (cache_wf c \<longrightarrow> cache_wf c')
    \<and> r = (if c_db c = None \<and> map_of (c_slots c) (a, s) = None then Inl ErrNoStore
           else Inr (w_slot w a s))"
proof (cases "map_of (c_slots c) (a, s)")
  case (Some e)
  with r ok bk show ?thesis by (auto simp: cache_Slot_def cache_ok_def)
next
  case None
  show ?thesis
  proof (cases "c_db c")
    case None
    with r ok bk \<open>map_of (c_slots c) (a, s) = None\<close> show ?thesis
      by (auto simp: cache_Slot_def cache_miss_def)
  next
    case (Some d)
    with bk have d: "serving kv S d" "S \<le> c_block c" "world_at kc (kv (env d)) (c_block c) = w"
      by (auto simp: cache_backed_def)
    from serving_GetSlot [OF d(1,2), of kc a s] d(3) obtain d' where
      "GetSlot L kc d a s (c_block c) = (d', Inr (w_slot w a s))" "env d' = env d" "serving kv S d'"
      by auto
    with r Some None d cache_ok_update(2) [OF ok refl, where d = "Some d'" and x = True] show ?thesis
      by (auto simp: cache_Slot_def cache_miss_def cache_backed_def cache_wf_def distinct_update)
  qed
qed

lemma cache_backed_write:
  assumes bk: "cache_backed kc kv S w c" and d: "c_db c = Some d" and b: "contract b" "c_block c < Block b"
    and f: "fresh (kv (env d)) (Block b)" and w: "WriteBlock L d b = (d', None)"
  shows "cache_backed kc kv S w (c\<lparr>c_db := Some d'\<rparr>)"
  using bk d b commit_serving(1) [OF _ b(1) f w] commit_serving(2) [OF _ b(1) f w, of S kc "c_block c"]
  by (auto simp: cache_backed_def)

end

end
