(* ===== verification/NodeProperties.thy ===== *)
theory NodeProperties
  imports Tracker Replay Follow Suitecache TipProperties
begin

text \<open>
  What the processes promise each other: the bus between the writer and its readers, the writer's sink and
  the tracker that drives it, replay sessions and the cache of the test suites.
\<close>

subsection \<open>Instances\<close>

lemma ex_framed [simp]: "framed ex_b1" "framed ex_b2" "framed ex_b3"
  by (simp_all add: framed_def batch_enc_def Encode_def ex_batches sized_def length_EncodeAccount AccountSize_def)

lemma ex_bus: "\<exists>b :: alist_env bus. bus_log map_of b ([] :: event list) \<and> OpenWriter alist_lmdb [] = Inr b"
  using alist.OpenWriter_log [of "[]"] by blast

lemma ex_bus1: "\<exists>b :: alist_env bus. bus_log map_of b [EvBlock ex_b1]"
proof -
  from ex_bus obtain b :: "alist_env bus" where b: "bus_log map_of b []" by blast
  with alist.PublishBlock_log [OF b, of ex_b1] bus_logD(1) [OF b] show ?thesis by auto
qed

lemma ex_bus2: "\<exists>b :: alist_env bus. bus_log map_of b [EvBlock ex_b1, EvBlock ex_b2]"
proof -
  from ex_bus1 obtain b :: "alist_env bus" where b: "bus_log map_of b [EvBlock ex_b1]" by blast
  with alist.PublishBlock_log [OF b, of ex_b2] bus_logD(1) [OF b] show ?thesis by auto
qed

section \<open>The bus\<close>

text \<open>
  C23. A reader misses nothing and sees nothing twice: the handshake returns the stack and the finalized
  height the log has built and a cursor, and polling from that cursor, whatever was published since,
  returns exactly the events after the handshake, in order.
\<close>

theorem bus_handshake_poll:
  assumes "healthy_lmdb L kv" and "bus_log kv b log" and "bus_log kv b' (log @ evs)"
  shows "Handshake L (bus_env b) = Inr (fold ev_finalized log 0, fold ev_layers log [], of_nat (length log))
    \<and> Poll L (bus_env b') (of_nat (length log)) = (evs, of_nat (length log + length evs), None)"
  using healthy_lmdb.Handshake_log [OF assms(1,2)] healthy_lmdb.Poll_log [OF assms(1,3), of "length log"] by simp

theorem bus_handshake_poll_witness:
  "\<exists>(b :: alist_env bus) (b' :: alist_env bus). Handshake alist_lmdb (bus_env b) = Inr (0, [ex_b1], 1)
    \<and> Poll alist_lmdb (bus_env b') 1 = ([EvBlock ex_b2], 2, None)"
proof -
  from ex_bus1 ex_bus2 obtain b b' :: "alist_env bus" where "bus_log map_of b [EvBlock ex_b1]"
    "bus_log map_of b' ([EvBlock ex_b1] @ [EvBlock ex_b2])" by auto
  from bus_handshake_poll [OF alist.healthy_lmdb_axioms this] show ?thesis
    by (intro exI [of _ b] exI [of _ b']) simp
qed



text \<open>
  C25. A reader keeps up: at any point of the writer's log, with the stack of that point, one round of its
  loop brings it to the end of the log, with the writer's stack.
\<close>

theorem follow_keeps_up:
  assumes "healthy_lmdb L kv" and "bus_log kv b log" and "log_ok [] log" and "i \<le> length log"
    and "layers st = map newLayer (fold ev_layers (take i log) [])"
  shows "\<exists>st'. follow_round L (bus_env b) e' st (of_nat i) = Inr (st', of_nat (length log))
    \<and> map l_batch (layers st') = bus_layers b"
  using healthy_lmdb.follow_round_stack [OF assms, of e'] bus_logD(1) [OF assms(2)] by (auto simp: comp_def)

theorem follow_keeps_up_witness:
  "\<exists>(b :: alist_env bus) st'. follow_round alist_lmdb (bus_env b) (bus_env b) ex_st 0 = Inr (st', 2)
    \<and> map l_batch (layers st') = [ex_b1, ex_b2]"
proof -
  from ex_bus2 obtain b :: "alist_env bus" where b: "bus_log map_of b [EvBlock ex_b1, EvBlock ex_b2]" by blast
  have "layers ex_st = []" by (simp add: ex_st_def)
  with follow_keeps_up [OF alist.healthy_lmdb_axioms b, of 0 ex_st "bus_env b"] bus_logD(1) [OF b]
  have "\<exists>st'. follow_round alist_lmdb (bus_env b) (bus_env b) ex_st 0 = Inr (st', 2)
    \<and> map l_batch (layers st') = [ex_b1, ex_b2]" by simp
  then show ?thesis by (rule exI [of _ b])
qed

text \<open>
  A reader does not notice that the bus was started over: as long as the new log is shorter than its
  cursor, a round polls nothing and changes nothing.
\<close>

theorem follow_after_restart:
  assumes "healthy_lmdb L kv" and "bus_log kv b log" and "length log < unat cur"
  shows "follow_round L (bus_env b) e' st cur = Inr (st, cur)"
  by (rule healthy_lmdb.follow_truncated [OF assms])

theorem follow_after_restart_witness:
  "\<exists>b :: alist_env bus. bus_log map_of b [EvBlock ex_b1] \<and> follow_round alist_lmdb (bus_env b) (bus_env b) ex_st 5 = Inr (ex_st, 5)"
proof -
  from ex_bus1 obtain b :: "alist_env bus" where b: "bus_log map_of b [EvBlock ex_b1]" by blast
  from follow_after_restart [OF alist.healthy_lmdb_axioms b, of 5 "bus_env b" ex_st] b show ?thesis by auto
qed

text \<open>
  C26. After a failed finalization the reader takes the stack and the cursor of a new handshake, but goes on
  with the events it had polled before: a block that the handshake's stack ends in is pushed again.
\<close>

theorem resync_applies_twice:
  assumes "snd (mem_Finalize st height h) \<noteq> None" and "Handshake L e' = Inr (f, ls @ [x], seq2)"
  shows "\<exists>st'. follow_events L e' [EvFinalize height h, EvBlock x] st nxt = Inr (st', seq2)
    \<and> map l_batch (layers st') = ls @ [x, x]"
  using follow_resync [OF assms, of "[EvBlock x]" nxt] by (auto simp: comp_def)

theorem resync_applies_twice_witness:
  "\<exists>b st'. bus_log map_of b [EvBlock ex_b1]
    \<and> follow_events alist_lmdb (bus_env b) [EvFinalize 100 10, EvBlock ex_b1] ex_st 1 = Inr (st', 1)
    \<and> map l_batch (layers st') = [ex_b1, ex_b1]"
proof -
  from ex_bus1 obtain b :: "alist_env bus" where b: "bus_log map_of b [EvBlock ex_b1]" by blast
  have f: "snd (mem_Finalize ex_st 100 10) \<noteq> None" by (simp add: mem_Finalize_def ex_st_def lockAndDrain_def)
  have "Handshake alist_lmdb (bus_env b) = Inr (0, [] @ [ex_b1], 1)" using alist.Handshake_log [OF b] by simp
  from resync_applies_twice [OF f this, of 1] b show ?thesis by auto
qed

section \<open>The writer\<close>

text \<open>
  C27. The store is the chain of accepted blocks: in every run of verifications, head changes and
  acceptances of the tracker over the node's sink, the state the store serves is the state at the start with
  the accepted blocks applied in order of acceptance, and at the end the sink holds the tracker's
  unfinalized chain in memory, on the bus and in its table.
\<close>

theorem tracker_store:
  assumes "healthy_lmdb L kv"
    and "tracker_inv (sink_valid kc kv S) sink_chain (sink_extends kc kv) t"
    and "tracker_run (NodeSink.sink_ops L) (sink_extends kc kv) sink_room t acc t'"
  shows "tracker_inv (sink_valid kc kv S) sink_chain (sink_extends kc kv) t'
    \<and> sink_fin kc kv (t_sink t') = apply_chain acc (sink_fin kc kv (t_sink t))"
  using healthy_lmdb.tracker_store_run [OF assms(1,3,2)] .

lemma ex_sink:
  assumes "bus_log map_of b []"
  shows "sink_valid ex_kc map_of 100 (NewSink ex_db ex_st b)" and "sink_fin ex_kc map_of (NewSink ex_db ex_st b) = ex_w0"
    and "sink_room (NewSink ex_db ex_st b) = 2 ^ 64 - 1" and "sink_chain (NewSink ex_db ex_st b) = []"
    and "sink_extends ex_kc map_of (NewSink ex_db ex_st b) [ex_b1]"
proof -
  have m: "mem_inv ex_kc map_of ex_db ex_st [] ex_w0" by (simp add: mem_inv_def ex_st_def ex_db_world)
  show w: "sink_fin ex_kc map_of (NewSink ex_db ex_st b) = ex_w0"
    by (simp add: sink_fin_def NewSink_def ex_db_world)
  show c: "sink_chain (NewSink ex_db ex_st b) = []" by (simp add: sink_chain_def NewSink_def ex_st_def)
  show "sink_room (NewSink ex_db ex_st b) = 2 ^ 64 - 1"
    using bus_logD(3) [OF assms] by (simp add: sink_room_def NewSink_def)
  show "sink_extends ex_kc map_of (NewSink ex_db ex_st b) [ex_b1]"
    unfolding sink_extends_def w by (simp add: chain_ok_def NewSink_def appendable_def ascending_def ex_fresh)
  have "sink_extends ex_kc map_of (NewSink ex_db ex_st b) []"
    unfolding sink_extends_def w by (simp add: chain_ok_def appendable_def ascending_def)
  then show "sink_valid ex_kc map_of 100 (NewSink ex_db ex_st b)"
    unfolding sink_valid_def c w using m ex_serving assms bus_logD(1) [OF assms] by (auto simp: NewSink_def)
qed

lemma ex_linked: "recorded [11 \<mapsto> ex_b1] bs \<Longrightarrow> linked 10 bs \<Longrightarrow> bs = [] \<or> bs = [ex_b1]"
  by (cases bs rule: remdups_adj.cases) (auto simp: recorded_def split: if_splits)

lemma ex_sink_empty:
  assumes "bus_log map_of b []"
  shows "sink_extends ex_kc map_of (NewSink ex_db ex_st b) []"
  using ex_sink(1,4) [OF assms] by (simp add: sink_valid_def)

theorem tracker_store_witness:
  "\<exists>(b :: alist_env bus) t'. tracker_run (NodeSink.sink_ops alist_lmdb) (sink_extends ex_kc map_of) sink_room
      (NewTracker (NewSink ex_db ex_st b) 100 10) [ex_b1] t'
    \<and> sink_fin ex_kc map_of (t_sink t') = ex_w1"
proof -
  let ?run = "tracker_run (NodeSink.sink_ops alist_lmdb) (sink_extends ex_kc map_of) sink_room"
  from ex_bus obtain b :: "alist_env bus" where b: "bus_log map_of b []" by blast
  let ?t = "NewTracker (NewSink ex_db ex_st b) 100 10" let ?t1 = "Verified ?t ex_b1"
  have inv: "tracker_inv (sink_valid ex_kc map_of 100) sink_chain (sink_extends ex_kc map_of) ?t"
    using ex_sink(1,4) [OF b] ex_sink_empty [OF b] by (rule NewTracker_inv)
  have "verifiable (sink_extends ex_kc map_of) ?t ex_b1"
    unfolding verifiable_def using ex_linked ex_sink(5) [OF b] ex_sink_empty [OF b]
    by (auto simp: NewTracker_def table_ok_def)
  then have v: "?run ?t [] ?t1" by (intro tracker_run.Verify tracker_run.Start)
  have t1: "table ?t1 11 = Some ex_b1" "finalizedHash ?t1 = 10"
    "t_sink ?t1 = NewSink ex_db ex_st b" by (simp_all add: Verified_def NewTracker_def)
  obtain t2 r where a: "Accepted (NodeSink.sink_ops alist_lmdb) ?t1 (Block ex_b1) 11 = (t2, r)" by fastforce
  from tracker_run.Accept [OF v _ t1(1) _ a] t1 ex_sink(3) [OF b] have "?run ?t [ex_b1] t2" by simp
  with tracker_store [OF alist.healthy_lmdb_axioms inv this] ex_sink(2) [OF b] show ?thesis
    by (intro exI [of _ b] exI [of _ t2]) (simp add: NewTracker_def)
qed

text \<open>
  C28. The walk back to the finalized block ends: when every verified block stands under its own hash and
  above its parent, \<^verbatim>\<open>chainTo\<close> returns, either the error of a block it does not know or the path of
  recorded blocks from the finalized block to the one asked for.
\<close>

theorem chainTo_ends:
  assumes "table_ok (table t)"
  shows "\<exists>r. chainTo t h = Some r \<and>
    (case r of
       Inl e \<Rightarrow> \<exists>h'. e = ErrUnknownBlock h' \<and> table t h' = None
     | Inr bs \<Rightarrow> recorded (table t) bs \<and> linked (finalizedHash t) bs \<and> tip_hash (finalizedHash t) bs = h)"
  using chainTo_returns [OF assms] .

theorem chainTo_ends_witness:
  "chainTo (NewTracker () 100 10\<lparr>table := [11 \<mapsto> ex_b1, 12 \<mapsto> ex_b2]\<rparr>) 12 = Some (Inr [ex_b1, ex_b2])
    \<and> linked 10 [ex_b1, ex_b2] \<and> tip_hash 10 [ex_b1, ex_b2] = 12"
proof -
  let ?t = "NewTracker () 100 10\<lparr>table := [11 \<mapsto> ex_b1, 12 \<mapsto> ex_b2]\<rparr>"
  have "table_ok (table ?t)" by (auto simp: table_ok_def split: if_splits)
  moreover have c: "chainTo ?t 12 = Some (Inr [ex_b1, ex_b2])"
    by (simp add: chainTo_def chain_loop.simps NewTracker_def)
  ultimately show ?thesis using chainTo_ends [of ?t 12] by (simp add: NewTracker_def)
qed

section \<open>Replay\<close>

text \<open>
  C29. A replay session reads history: at every block it has reached, \<^verbatim>\<open>Account\<close> and \<^verbatim>\<open>Slot\<close> return the
  state of the store at that block, and the pins they leave behind are right for the reads that follow.
\<close>

theorem replay_reads:
  assumes "healthy_lmdb L kv" and "session_ok kc kv S d s"
  shows "(\<exists>d' s'. replay_Account L kc d s a =
        (d', s', Inr (acct_res (w_acct (world_at kc (kv (env d)) (rp_block s)) a)))
      \<and> session_ok kc kv S d' s' \<and> rp_block s' = rp_block s)
    \<and> (\<exists>d' s'. replay_Slot L kc d s a k =
        (d', s', Inr (w_slot (world_at kc (kv (env d)) (rp_block s)) a k))
      \<and> session_ok kc kv S d' s' \<and> rp_block s' = rp_block s)"
  using healthy_lmdb.replay_Account_ok [OF assms, of a] healthy_lmdb.replay_Slot_ok [OF assms, of a k] by blast

definition ex_session :: session where
  "ex_session = \<lparr>rp_m = NewMap, rp_block = 100\<rparr>"

lemma ex_session_ok: "session_ok ex_kc map_of 100 ex_db ex_session"
  using ex_serving by (simp add: session_ok_def ex_session_def ex_world)

theorem replay_reads_witness:
  "(\<exists>d' s'. replay_Account alist_lmdb ex_kc ex_db ex_session 7 = (d', s', Inr (ex_acct 5, True)))
    \<and> (\<exists>d' s'. replay_Slot alist_lmdb ex_kc ex_db ex_session 7 1 = (d', s', Inr 0))"
  using replay_reads [OF alist.healthy_lmdb_axioms ex_session_ok, of 7 1]
  by (simp add: ex_session_def ex_world ex_w0_def) blast

text \<open>
  C30. Replaying the diffs retraces the history: after blocks are written to a store above a session, the
  loop over \<^verbatim>\<open>Next\<close> ends with exactly these blocks in order, at the last of them, with a session whose
  reads are those of the store at that block.
\<close>

theorem replay_retraces:
  assumes "healthy_lmdb L kv" and "session_ok kc kv S d s"
    and "appendable (kv (env d)) bs" and "consecutive (rp_block s) bs"
    and "\<And>n. rp_block s < n \<Longrightarrow> kv (env d) (key_bytes (KDiff n)) = None"
    and "list_all no_orphans (worlds bs (world_at kc (kv (env d)) (rp_block s)))"
  shows "\<exists>d' s'. write_all L d bs = (d', None) \<and> replayed L d' s bs s' \<and> session_ok kc kv S d' s'
    \<and> rp_block s' = last (rp_block s # map Block bs)"
  using healthy_lmdb.replay_history [OF assms] .

theorem replay_retraces_witness:
  "\<exists>d' s'. write_all alist_lmdb ex_db [ex_b1, ex_b2, ex_b3] = (d', None)
    \<and> replayed alist_lmdb d' ex_session [ex_b1, ex_b2, ex_b3] s' \<and> rp_block s' = 103"
proof -
  have s: "rp_block ex_session = 100" by (simp add: ex_session_def)
  have "consecutive 100 [ex_b1, ex_b2, ex_b3]" by (simp add: Latest_def)
  moreover have "map_of (env ex_db) (key_bytes (KDiff n)) = None" for n by (simp add: ex_rows)
  ultimately show ?thesis
    using replay_retraces [OF alist.healthy_lmdb_axioms ex_session_ok ex_appendable, unfolded s]
    by (simp add: ex_world) blast
qed

section \<open>The suite cache\<close>

text \<open>
  C31. The file of the suite cache round trips: whatever faults a close meets, the file at the path is the
  old one, with the cache still to be written, or the new one, and opening the new one at the same block
  gives back the cache entry for entry.
\<close>

theorem cache_roundtrip:
  assumes "cache_wf c" and "c_dirty c" and "cache_Close ft fs c = (fs', c', err)"
  shows "if err = None
    then cache_Open no_fault fs' (c_path c) (c_block c) db = Inr (c\<lparr>c_db := db, c_dirty := False\<rparr>)
    else fs' (c_path c) = fs (c_path c) \<and> c' = c"
  using cache_reopen [OF assms(1,2), of ft fs fs' c' db] cache_Close_atomic(1,3) [OF assms(3)] assms(3) by simp

definition ex_cache :: "alist_env cache" where
  "ex_cache = \<lparr>c_db = Some ex_db, c_block = 100, c_path = ''suite'', c_dirty = True,
     c_accounts = [(7, ex_acct 5, True)], c_slots = [((7, 1), 0)], c_code = [(3, [96])]\<rparr>"

theorem cache_roundtrip_witness:
  "cache_Open no_fault (fst (cache_Close no_fault Map.empty ex_cache)) ''suite'' 100 None =
     Inr (ex_cache\<lparr>c_db := None, c_dirty := False\<rparr>)"
proof -
  have "cache_wf ex_cache" "c_dirty ex_cache" by (simp_all add: cache_wf_def ex_cache_def)
  moreover obtain fs' c' where "cache_Close no_fault Map.empty ex_cache = (fs', c', None)"
    by (simp add: cache_Close_def WriteFile_def Rename_def no_fault_def Let_def ex_cache_def)
  ultimately show ?thesis
    using cache_roundtrip [of ex_cache no_fault Map.empty fs' c' None None] by (simp add: ex_cache_def)
qed

text \<open>
  The suite cache is transparent: over a store that serves the cached block, \<^verbatim>\<open>Account\<close> and \<^verbatim>\<open>Slot\<close>
  return the state of that block, hit or miss; without a store, a miss is the error \<^verbatim>\<open>ErrNoStore\<close> and
  a hit is still right. The cache stays right in either case.
\<close>

theorem cache_transparent:
  assumes "healthy_lmdb L kv" and "cache_ok w c" and "cache_backed kc kv S w c"
  shows "(case cache_Account L kc c a of (c', r) \<Rightarrow>
        cache_ok w c' \<and> cache_backed kc kv S w c'
        \<and> r = (if c_db c = None \<and> map_of (c_accounts c) a = None then Inl ErrNoStore
               else Inr (acct_res (w_acct w a))))
    \<and> (case cache_Slot L kc c a k of (c', r) \<Rightarrow>
        cache_ok w c' \<and> cache_backed kc kv S w c'
        \<and> r = (if c_db c = None \<and> map_of (c_slots c) (a, k) = None then Inl ErrNoStore
               else Inr (w_slot w a k)))"
proof -
  obtain c1 r1 c2 r2 where "cache_Account L kc c a = (c1, r1)" "cache_Slot L kc c a k = (c2, r2)" by fastforce
  with healthy_lmdb.cache_Account_ok [OF assms this(1)] healthy_lmdb.cache_Slot_ok [OF assms this(2)]
  show ?thesis by simp
qed

theorem cache_transparent_witness:
  "snd (cache_Account alist_lmdb ex_kc ex_cache 8) = Inr (acct_res None)
    \<and> snd (cache_Slot alist_lmdb ex_kc (ex_cache\<lparr>c_db := None\<rparr>) 8 1) = Inl ErrNoStore"
proof -
  have ok: "cache_ok ex_w0 (ex_cache\<lparr>c_db := x\<rparr>)" for x
    by (auto simp: cache_ok_def ex_cache_def ex_w0_def acct_res_def split: if_splits)
  have bk: "cache_backed ex_kc map_of 100 ex_w0 (ex_cache\<lparr>c_db := Some ex_db\<rparr>)"
    "cache_backed ex_kc map_of 100 ex_w0 (ex_cache\<lparr>c_db := None\<rparr>)"
    using ex_serving by (simp_all add: cache_backed_def ex_cache_def ex_world)
  have c: "ex_cache\<lparr>c_db := Some ex_db\<rparr> = ex_cache" by (simp add: ex_cache_def)
  show ?thesis
    using cache_transparent [OF alist.healthy_lmdb_axioms ok bk(1), of 8 1]
      cache_transparent [OF alist.healthy_lmdb_axioms ok bk(2), of 8 1]
    by (simp add: c split: prod.splits) (simp add: ex_cache_def ex_w0_def)
qed

end
