(* ===== verification/StoreScan.thy ===== *)
theory StoreScan
  imports StoreRead
begin

text \<open>
  What the scans of \<^verbatim>\<open>src/store/store.go\<close> for a resuming loader return: the greatest account row of a
  segment (\<^verbatim>\<open>MaxBaseAccountWithPrefix\<close>), the greatest slot row of a range (\<^verbatim>\<open>MaxBaseSlot\<close>), the queued
  storage walks after a key (\<^verbatim>\<open>StorageQueueAfter\<close>) and the code hashes that have no row
  (\<^verbatim>\<open>MissingCodeHashes\<close>, whose loop is shown to end).
\<close>

lemma base_account_key:
  assumes "key_bytes r = k" and "k ! 0 = PrefBaseAccount"
  shows "\<exists>h. k = PrefBaseAccount # be_bytes 32 h \<and> r = KBaseAccount h"
proof -
  have "key_prefix r = PrefBaseAccount" using assms hd_key_bytes [of r] by (metis hd_conv_nth key_bytes_nonempty)
  then obtain h where "r = KBaseAccount h" unfolding key_prefix_eq by blast
  with assms show ?thesis by (auto simp: key_bytes_layout)
qed

lemma base_slot_key:
  assumes "key_bytes r = k" and "k ! 0 = PrefBaseSlot"
  shows "\<exists>h s. k = PrefBaseSlot # be_bytes 32 h @ be_bytes 32 s \<and> r = KBaseSlot h s"
proof -
  have "key_prefix r = PrefBaseSlot" using assms hd_key_bytes [of r] by (metis hd_conv_nth key_bytes_nonempty)
  then obtain h s where "r = KBaseSlot h s" unfolding key_prefix_eq by blast
  with assms show ?thesis by (auto simp: key_bytes_layout)
qed

lemma queue_key:
  assumes "key_bytes r = k" and "k ! 0 = PrefStorageQueue"
  shows "\<exists>h. k = PrefStorageQueue # be_bytes 32 h \<and> r = KQueue h"
proof -
  have "key_prefix r = PrefStorageQueue" using assms hd_key_bytes [of r] by (metis hd_conv_nth key_bytes_nonempty)
  then obtain h where "r = KQueue h" unfolding key_prefix_eq by blast
  with assms show ?thesis by (auto simp: key_bytes_layout)
qed

lemma le_all_ff: "length (bs :: bytes) = n \<Longrightarrow> bs \<le> replicate n 0xff"
proof (induction n arbitrary: bs)
  case (Suc n)
  then obtain b bs' where b: "bs = b # bs'" "length bs' = n" by (cases bs) auto
  have "(0xff :: byte) = - 1" by simp
  then have "b \<le> 0xff" by (metis word_n1_ge)
  with Suc.IH [OF b(2)] b(1) show ?case by (auto simp: less_le)
qed simp

lemma less_append:
  fixes x y :: bytes
  shows "length x = length y \<Longrightarrow> x < y \<Longrightarrow> x @ t < y"
  by (induction x y rule: list_induct2) auto

text \<open>The hashes an account row refers to; the keys a scan has still to visit.\<close>

definition code_ref :: "hash \<Rightarrow> (bytes \<rightharpoonup> bytes) \<Rightarrow> bytes \<Rightarrow> hash \<Rightarrow> bool" where
  "code_ref emptyCode m k c \<longleftrightarrow> c \<noteq> 0 \<and> c \<noteq> emptyCode
     \<and> (\<exists>h v a. k = key_bytes (KBaseAccount h) \<and> m k = Some v \<and> DecodeAccount v = Inr a \<and> CodeHash a = c)"

definition missing_code :: "hash \<Rightarrow> (bytes \<rightharpoonup> bytes) \<Rightarrow> hash \<Rightarrow> bool" where
  "missing_code emptyCode m c \<longleftrightarrow> m (key_bytes (KCode c)) = None \<and> (\<exists>k. code_ref emptyCode m k c)"

context healthy_lmdb
begin

lemma next_cases:
  obtains (found) k' v where "cur_next L e k = Inr (k', v)" and "kv e k' = Some v"
      and "k < k'" and "\<And>j. j \<in> dom (kv e) \<Longrightarrow> k < j \<Longrightarrow> k' \<le> j"
  | (missing) "cur_next L e k = Inl MDB_NOTFOUND" and "\<And>j. j \<in> dom (kv e) \<Longrightarrow> j \<le> k"
proof (cases "cur_next L e k")
  case (Inl m)
  with next_total have "cur_next L e k = Inl MDB_NOTFOUND" by metis
  with next_missing missing show ?thesis by blast
next
  case (Inr p)
  obtain k' v where p: "p = (k', v)" by (cases p)
  show ?thesis
    using next_found [OF Inr [unfolded p]] found [OF Inr [unfolded p]] by blast
qed

lemma last_cases:
  obtains (found) k v where "cur_last L e = Inr (k, v)" and "kv e k = Some v" and "\<And>j. j \<in> dom (kv e) \<Longrightarrow> j \<le> k"
  | (missing) "cur_last L e = Inl MDB_NOTFOUND" and "kv e = Map.empty"
proof (cases "cur_last L e")
  case (Inl m)
  with last_total have "cur_last L e = Inl MDB_NOTFOUND" by metis
  with last_missing missing show ?thesis by blast
next
  case (Inr p)
  obtain k v where p: "p = (k, v)" by (cases p)
  show ?thesis
    using last_found [OF Inr [unfolded p]] found [OF Inr [unfolded p]] by blast
qed

lemma prev_cases:
  obtains (found) k' v where "cur_prev L e k = Inr (k', v)" and "kv e k' = Some v"
      and "k' < k" and "\<And>j. j \<in> dom (kv e) \<Longrightarrow> j < k \<Longrightarrow> j \<le> k'"
  | (missing) "cur_prev L e k = Inl MDB_NOTFOUND" and "\<And>j. j \<in> dom (kv e) \<Longrightarrow> k \<le> j"
proof (cases "cur_prev L e k")
  case (Inl m)
  with prev_total have "cur_prev L e k = Inl MDB_NOTFOUND" by metis
  with prev_missing missing show ?thesis by blast
next
  case (Inr p)
  obtain k' v where p: "p = (k', v)" by (cases p)
  show ?thesis
    using prev_found [OF Inr [unfolded p]] found [OF Inr [unfolded p]] by blast
qed

lemma seek_floor_cases:
  obtains (found) k v where "seek_floor L e s = Inr (k, v)" and "kv e k = Some v" and "k \<le> s"
      and "\<And>j. j \<in> dom (kv e) \<Longrightarrow> j \<le> s \<Longrightarrow> j \<le> k"
  | (missing) "seek_floor L e s = Inl MDB_NOTFOUND" and "\<And>j. j \<in> dom (kv e) \<Longrightarrow> s < j"
proof (cases rule: set_range_cases [of e s])
  case (found k v)
  note f = this
  show ?thesis
  proof (cases "k = s")
    case True
    with f show ?thesis by (intro that(1) [of k v]) (auto simp: seek_floor_def)
  next
    case False
    have lt: "j < k" if "j \<le> s" for j using that f(3) False by auto
    have gt: "s < j" if "j \<in> dom (kv e)" "k \<le> j" for j using that f(3) False by auto
    show ?thesis
    proof (cases rule: prev_cases [of e k])
      case (found k' v')
      have "k' \<le> s" using f(4) [of k'] found(2,3) by (meson domI not_le order.asym order.strict_trans2 less_imp_le)
      with False f found lt show ?thesis by (intro that(1) [of k' v']) (auto simp: seek_floor_def)
    next
      case missing
      with False f gt show ?thesis by (intro that(2)) (auto simp: seek_floor_def)
    qed
  qed
next
  case missing
  note m = this
  show ?thesis
  proof (cases rule: last_cases [of e])
    case (found k v)
    from m(2) [of k] found(2) have "k < s" by blast
    with m(1) found show ?thesis by (intro that(1) [of k v]) (auto simp: seek_floor_def)
  next
    case missing
    with m show ?thesis by (intro that(2)) (auto simp: seek_floor_def)
  qed
qed

lemma MaxBaseAccountWithPrefix_greatest:
  assumes wf: "wf_rows (kv (env d))"
  shows "\<exists>r. MaxBaseAccountWithPrefix L d p = Inr r
    \<and> (case r of
         None \<Rightarrow> \<forall>h. be_bytes 32 h ! 0 = p \<longrightarrow> kv (env d) (key_bytes (KBaseAccount h)) = None
       | Some h \<Rightarrow> be_bytes 32 h ! 0 = p \<and> kv (env d) (key_bytes (KBaseAccount h)) \<noteq> None
           \<and> (\<forall>h'. be_bytes 32 h' ! 0 = p \<longrightarrow> kv (env d) (key_bytes (KBaseAccount h')) \<noteq> None \<longrightarrow> h' \<le> h))"
proof -
  let ?m = "kv (env d)" and ?s = "[PrefBaseAccount, p] @ replicate 31 0xff"
  have le: "[PrefBaseAccount, p] \<le> key_bytes (KBaseAccount h) \<and> key_bytes (KBaseAccount h) \<le> ?s
      \<and> (\<exists>t. key_bytes (KBaseAccount h) = [PrefBaseAccount, p] @ t)"
    if h: "be_bytes 32 h ! 0 = p" for h :: hash
  proof -
    obtain t where t: "be_bytes 32 h = p # t" "length t = 31"
      using h length_be_bytes [of 32 h] by (cases "be_bytes 32 h") simp_all
    then show ?thesis using le_all_ff [OF t(2)] by (simp add: key_bytes_layout)
  qed
  show ?thesis
  proof (cases rule: seek_floor_cases [of "env d" ?s])
    case (found k v)
    from wf found(2) obtain r where r: "key_bytes r = k" by (auto simp: wf_rows_def)
    have "k ! 0 = PrefBaseAccount \<and> k ! 1 = p \<and> length k = 33" if h: "be_bytes 32 h ! 0 = p" "?m (key_bytes (KBaseAccount h)) \<noteq> None" for h :: hash
    proof -
      from h(2) have "key_bytes (KBaseAccount h) \<le> k" using le [OF h(1)] by (intro found(4)) auto
      with found(3) le [OF h(1)] obtain u where u: "k = [PrefBaseAccount, p] @ u"
        using between_common_prefix [of "[PrefBaseAccount, p]" _ k "replicate 31 0xff"] by metis
      then have "k ! 0 = PrefBaseAccount" "k ! 1 = p" by simp_all
      with base_account_key [OF r] show ?thesis by auto
    qed
    note pf = this
    show ?thesis
    proof (cases "length k = 33 \<and> k ! 0 = PrefBaseAccount \<and> k ! 1 = p")
      case True
      with base_account_key [OF r] obtain h where h: "k = PrefBaseAccount # be_bytes 32 h" "r = KBaseAccount h" by blast
      have "h' \<le> h" if "be_bytes 32 h' ! 0 = p" "?m (key_bytes (KBaseAccount h')) \<noteq> None" for h'
      proof -
        have "key_bytes (KBaseAccount h') \<le> k" using that le [OF that(1)] by (intro found(4)) auto
        then show ?thesis by (simp add: h(1) key_bytes_layout hashc.enc_le)
      qed
      with True found(1,2) h r show ?thesis
        by (auto simp: MaxBaseAccountWithPrefix_def hashc.dec_enc)
    next
      case False
      with pf have "\<forall>h. be_bytes 32 h ! 0 = p \<longrightarrow> ?m (key_bytes (KBaseAccount h)) = None" by blast
      moreover from found(1) False have "MaxBaseAccountWithPrefix L d p = Inr None"
        by (auto simp: MaxBaseAccountWithPrefix_def)
      ultimately show ?thesis by simp
    qed
  next
    case missing
    have "?m (key_bytes (KBaseAccount h)) = None" if "be_bytes 32 h ! 0 = p" for h
      using missing(2) [of "key_bytes (KBaseAccount h)"] le [OF that] by (auto simp: not_less [symmetric])
    with missing(1) show ?thesis by (simp add: MaxBaseAccountWithPrefix_def)
  qed
qed

lemma MaxBaseSlot_found:
  assumes wf: "wf_rows (kv (env d))" and stop: "\<And>x. stop = Some x \<Longrightarrow> length x = 32"
  shows "\<exists>r. MaxBaseSlot L d h start stop = Inr r
    \<and> (\<forall>s. r = Some s \<longrightarrow> kv (env d) (key_bytes (KBaseSlot h s)) \<noteq> None
         \<and> (\<forall>x. start = Some x \<longrightarrow> x \<le> be_bytes 32 s) \<and> (\<forall>x. stop = Some x \<longrightarrow> be_bytes 32 s \<le> x))"
proof -
  let ?s = "[PrefBaseSlot] @ be_bytes 32 h @ (case stop of None \<Rightarrow> replicate 32 0xff | Some x \<Rightarrow> copy_into 32 x)"
  show ?thesis
  proof (cases rule: seek_floor_cases [of "env d" ?s])
    case (found k v)
    from wf found(2) obtain r where r: "key_bytes r = k" by (auto simp: wf_rows_def)
    show ?thesis
    proof (cases "length k = 65 \<and> k ! 0 = PrefBaseSlot \<and> take 32 (drop 1 k) = be_bytes 32 h")
      case True
      with base_slot_key [OF r] obtain h' s where k: "k = PrefBaseSlot # be_bytes 32 h' @ be_bytes 32 s" "r = KBaseSlot h' s"
        by blast
      from True k have h': "h' = h" by (simp add: hashc.enc_inject)
      have sl: "take 32 (drop 33 k) = be_bytes 32 s" by (simp add: k)
      have "be_bytes 32 s \<le> x" if "stop = Some x" for x
        using found(3) stop [OF that] that k(1) h' by (simp add: copy_into_def)
      with True found(1,2) k r h' sl show ?thesis
        by (auto simp: MaxBaseSlot_def hashc.dec_enc not_less split: option.splits)
    qed (use found(1) in \<open>auto simp: MaxBaseSlot_def\<close>)
  qed (simp add: MaxBaseSlot_def)
qed

text \<open>The queue: committed rows after the key, ascending; an empty answer means there is none left.\<close>

lemma queue_loop_rows:
  assumes wf: "wf_rows (kv e)" and "length addrs = length roots"
    and r: "case r of Inr (k, v) \<Rightarrow> kv e k = Some v \<and> low < k \<and> [PrefStorageQueue] \<le> k | Inl m \<Rightarrow> m = MDB_NOTFOUND"
  shows "\<exists>as rs. queue_loop L e n r addrs roots = Inr (addrs @ as, roots @ rs) \<and> length as = length rs
    \<and> (\<forall>(a, b) \<in> set (zip as rs). kv e (key_bytes (KQueue a)) = Some (be_bytes 32 b))
    \<and> (\<forall>a \<in> set as. low < key_bytes (KQueue a)) \<and> sorted_wrt (<) as"
  using assms(2-)
proof (induction n arbitrary: r addrs roots low)
  case (Suc n)
  show ?case
  proof (cases r)
    case (Inl m)
    with Suc.prems show ?thesis by simp
  next
    case (Inr kv')
    obtain k v where kv': "kv' = (k, v)" by (cases kv')
    with Inr Suc.prems(2) have k: "kv e k = Some v" "low < k" "[PrefStorageQueue] \<le> k" by auto
    from wf k(1) obtain r' where r': "key_bytes r' = k" "row_ok r' v" by (auto simp: wf_rows_def)
    show ?thesis
    proof (cases "length k \<noteq> 33 \<or> k ! 0 \<noteq> PrefStorageQueue")
      case True
      then show ?thesis by (simp add: Inr kv')
    next
      case False
      with queue_key [OF r'(1)] obtain h where h: "k = PrefStorageQueue # be_bytes 32 h" "r' = KQueue h" by blast
      from r'(2) h have lv: "length v = 32" by simp
      have nx: "case cur_next L e k of Inr (k', v) \<Rightarrow> kv e k' = Some v \<and> k < k' \<and> [PrefStorageQueue] \<le> k' | Inl m \<Rightarrow> m = MDB_NOTFOUND"
        by (cases rule: next_cases [of e k]) (use k(3) in auto)
      from Suc.IH [OF _ nx, of "addrs @ [h]" "roots @ [be_word v]"] Suc.prems(1) obtain as rs where IH:
        "queue_loop L e n (cur_next L e k) (addrs @ [h]) (roots @ [be_word v]) = Inr ((addrs @ [h]) @ as, (roots @ [be_word v]) @ rs)"
        "length as = length rs" "\<forall>(a, b) \<in> set (zip as rs). kv e (key_bytes (KQueue a)) = Some (be_bytes 32 b)"
        "\<forall>a \<in> set as. k < key_bytes (KQueue a)" "sorted_wrt (<) as"
        by auto
      have "queue_loop L e (Suc n) r addrs roots = queue_loop L e n (cur_next L e k) (addrs @ [h]) (roots @ [be_word v])"
        using False lv h by (simp add: Inr kv' hashc.dec_enc)
      moreover have "kv e (key_bytes (KQueue h)) = Some (be_bytes 32 (be_word v :: hash))"
        using k(1) h lv r' by (simp add: be_bytes_be_word)
      moreover have "h < a" if "a \<in> set as" for a
        using IH(4) that h(1) by (simp add: key_bytes_layout hashc.enc_less)
      moreover have "low < key_bytes (KQueue a)" if "a \<in> set as" for a
        using IH(4) k(2) that by (auto intro: order.strict_trans)
      ultimately show ?thesis
        using IH(1,2,3,5) k(2) r'(1) h(2)
        by (intro exI [of _ "h # as"] exI [of _ "be_word v # rs"]) auto
    qed
  qed
qed simp

lemma StorageQueueAfter_rows:
  assumes wf: "wf_rows (kv (env d))"
  shows "\<exists>as rs. StorageQueueAfter L d after n = Inr (as, rs) \<and> length as = length rs
    \<and> (\<forall>(a, b) \<in> set (zip as rs). kv (env d) (key_bytes (KQueue a)) = Some (be_bytes 32 b))
    \<and> (\<forall>a \<in> set as. \<forall>h. after = Some h \<longrightarrow> h < a) \<and> sorted_wrt (<) as
    \<and> (as = [] \<longrightarrow> (\<forall>a. (\<forall>h. after = Some h \<longrightarrow> h < a) \<longrightarrow> kv (env d) (key_bytes (KQueue a)) = None))"
proof -
  let ?e = "env d" and ?seek = "case after of None \<Rightarrow> [PrefStorageQueue] | Some h \<Rightarrow> AppendStorageQueueKey [] h @ [0]"
  let ?low = "case after of None \<Rightarrow> [] | Some h \<Rightarrow> AppendStorageQueueKey [] h"
  have ap: "x < x @ [0]" for x :: bytes using append_less_append_iff [of x "[]" "[0]"] by simp
  have low: "?low < ?seek" "[PrefStorageQueue] \<le> ?seek"
    using ap by (auto simp: append_key_defs split: option.splits)
  have st: "case cur_set_range L ?e ?seek of Inr (k, v) \<Rightarrow> kv ?e k = Some v \<and> ?low < k \<and> [PrefStorageQueue] \<le> k
      | Inl m \<Rightarrow> m = MDB_NOTFOUND"
    by (cases rule: set_range_cases [of ?e ?seek]) (use low in \<open>auto intro: order.trans order.strict_trans2\<close>)
  from queue_loop_rows [OF wf _ st, of "[]" "[]" "nat (max 1 n)"] obtain as rs where q:
    "StorageQueueAfter L d after n = Inr (as, rs)" "length as = length rs"
    "\<forall>(a, b) \<in> set (zip as rs). kv ?e (key_bytes (KQueue a)) = Some (be_bytes 32 b)"
    "\<forall>a \<in> set as. ?low < key_bytes (KQueue a)" "sorted_wrt (<) as"
    by (auto simp: StorageQueueAfter_def Let_def)
  have "\<forall>a \<in> set as. \<forall>h. after = Some h \<longrightarrow> h < a"
    using q(4) by (auto simp: append_key_defs key_bytes_layout hashc.enc_less)
  moreover have "kv ?e (key_bytes (KQueue a)) = None" if "as = []" and a: "\<forall>h. after = Some h \<longrightarrow> h < a" for a
  proof (rule ccontr)
    assume row: "kv ?e (key_bytes (KQueue a)) \<noteq> None"
    have sk: "?seek \<le> key_bytes (KQueue a)"
      using a by (auto simp: append_key_defs key_bytes_layout hashc.enc_less
        intro!: less_imp_le [OF less_append] split: option.splits)
    show False
    proof (cases rule: set_range_cases [of ?e ?seek])
      case (found k v)
      obtain n' where n': "nat (max 1 n) = Suc n'" by (cases "nat (max 1 n)") auto
      from wf found(2) obtain r' where r': "key_bytes r' = k" "row_ok r' v" by (auto simp: wf_rows_def)
      have "k \<le> key_bytes (KQueue a)" using row sk by (intro found(4)) auto
      moreover have "[PrefStorageQueue] @ [] \<le> k" using found(3) low(2) by (auto intro: order.trans)
      ultimately obtain u where u: "k = [PrefStorageQueue] @ u"
        using between_common_prefix [of "[PrefStorageQueue]" "[]" k "be_bytes 32 a"] by (auto simp: key_bytes_layout)
      with queue_key [OF r'(1)] obtain h where h: "k = PrefStorageQueue # be_bytes 32 h" "r' = KQueue h" by auto
      from r'(2) h have lv: "length v = 32" by simp
      have "StorageQueueAfter L d after n = queue_loop L ?e n' (cur_next L ?e k) [h] [be_word v]"
        using found(1) lv by (simp add: StorageQueueAfter_def n' h(1) hashc.dec_enc)
      moreover have nx: "case cur_next L ?e k of Inr (k', v) \<Rightarrow> kv ?e k' = Some v \<and> k < k' \<and> [PrefStorageQueue] \<le> k' | Inl m \<Rightarrow> m = MDB_NOTFOUND"
        by (cases rule: next_cases [of ?e k]) (use found(3) low(2) in \<open>auto intro: order.trans less_imp_le\<close>)
      ultimately show False
        using queue_loop_rows [OF wf _ nx, of "[h]" "[be_word v]" n'] q(1) that(1) by auto
    next
      case missing
      with row sk show False using missing(2) [of "key_bytes (KQueue a)"] by (auto simp: not_le [symmetric])
    qed
  qed
  ultimately show ?thesis using q by blast
qed

text \<open>
  The loop over the account rows stands on the first row at or after some key: \<open>low\<close> excludes the rows
  it has seen. It ends because every round leaves fewer rows above.
\<close>

lemma code_loop_missing:
  assumes wf: "wf_rows (kv e)"
    and r: "case r of Inr (k, v) \<Rightarrow> kv e k = Some v \<and> [PrefBaseAccount] \<le> k \<and> P k \<and> (\<forall>j \<in> dom (kv e). P j \<longrightarrow> k \<le> j)
      | Inl m \<Rightarrow> m = MDB_NOTFOUND \<and> (\<forall>j \<in> dom (kv e). \<not> P j)"
    and seen: "\<forall>c \<in> set seen. kv e (key_bytes (KCode c)) \<noteq> None \<or> c \<in> set missing"
    and up: "\<forall>j j'. P j \<longrightarrow> j \<le> j' \<longrightarrow> P j'"
  shows "\<exists>ms. code_loop L emptyCode e r seen missing = Some (Inr (missing @ ms))
    \<and> (\<forall>k c. P k \<longrightarrow> code_ref emptyCode (kv e) k c \<longrightarrow> kv e (key_bytes (KCode c)) = None \<longrightarrow> c \<in> set (missing @ ms))
    \<and> (\<forall>c \<in> set ms. missing_code emptyCode (kv e) c)"
  using r seen up
proof (induction "card {j \<in> dom (kv e). P j}" arbitrary: r P seen missing rule: less_induct)
  case less
  show ?case
  proof (cases r)
    case (Inl m)
    with less.prems(1) have "\<not> P k" if "code_ref emptyCode (kv e) k c" for k c
      using that by (auto simp: code_ref_def)
    with Inl less.prems(1) show ?thesis
      by (intro exI [of _ "[]"]) (auto simp: code_loop.simps [of L emptyCode e "Inl MDB_NOTFOUND"])
  next
    case (Inr p)
    obtain k v where p: "p = (k, v)" by (cases p)
    with Inr less.prems(1) have k: "kv e k = Some v" "[PrefBaseAccount] \<le> k" "P k" "\<And>j. j \<in> dom (kv e) \<Longrightarrow> P j \<Longrightarrow> k \<le> j" by auto
    from wf k(1) obtain r' where r': "key_bytes r' = k" "row_ok r' v" by (auto simp: wf_rows_def)
    show ?thesis
    proof (cases "length k \<noteq> 33 \<or> k ! 0 \<noteq> PrefBaseAccount")
      case True
      have "\<not> P k'" if "code_ref emptyCode (kv e) k' c" for k' c
      proof
        assume "P k'"
        from that obtain h where h: "k' = key_bytes (KBaseAccount h)" "k' \<in> dom (kv e)" by (auto simp: code_ref_def)
        with k(4) \<open>P k'\<close> have "k \<le> k'" by blast
        with k(2) h obtain u where "k = [PrefBaseAccount] @ u"
          using between_common_prefix [of "[PrefBaseAccount]" "[]" k "be_bytes 32 h"] by (auto simp: key_bytes_layout)
        with base_account_key [OF r'(1)] True show False by auto
      qed
      with Inr p True show ?thesis
        by (intro exI [of _ "[]"]) (auto simp: code_loop.simps [of L emptyCode e "Inr (k, v)"])
    next
      case False
      with base_account_key [OF r'(1)] obtain h where h: "k = PrefBaseAccount # be_bytes 32 h" "r' = KBaseAccount h" by blast
      from r'(2) h DecodeAccount_total obtain a where a: "DecodeAccount v = Inr a" by auto
      let ?P = "\<lambda>j. k < j"
      have "card {j \<in> dom (kv e). ?P j} < card {j \<in> dom (kv e). P j}"
        using k less.prems(3) finite_kv [of e] by (intro psubset_card_mono) (auto intro: less_imp_le)
      note IH = less.hyps [OF this]
      have nx: "case cur_next L e k of Inr (k', v) \<Rightarrow> kv e k' = Some v \<and> [PrefBaseAccount] \<le> k' \<and> ?P k' \<and> (\<forall>j \<in> dom (kv e). ?P j \<longrightarrow> k' \<le> j)
          | Inl m \<Rightarrow> m = MDB_NOTFOUND \<and> (\<forall>j \<in> dom (kv e). \<not> ?P j)"
        by (cases rule: next_cases [of e k]) (use k(2) in \<open>auto simp: not_less\<close>)
      have up': "\<forall>j j'. ?P j \<longrightarrow> j \<le> j' \<longrightarrow> ?P j'" by auto
      have here: "k' = k \<or> ?P k'" if "P k'" "code_ref emptyCode (kv e) k' c" for k' c
      proof -
        have "k' \<in> dom (kv e)" using that(2) by (auto simp: code_ref_def)
        with k(4) [of k'] that(1) show ?thesis by auto
      qed
      have ref: "code_ref emptyCode (kv e) k c \<longleftrightarrow> c = CodeHash a \<and> c \<noteq> 0 \<and> c \<noteq> emptyCode" for c
      proof -
        have "k = key_bytes (KBaseAccount h)" using r' h by simp
        with k(1) a show ?thesis by (auto simp: code_ref_def)
      qed
      let ?c = "CodeHash a"
      show ?thesis
      proof (cases "?c = 0 \<or> ?c = emptyCode \<or> ?c \<in> set seen")
        case True
        have eq: "code_loop L emptyCode e r seen missing = code_loop L emptyCode e (cur_next L e k) seen missing"
          using False a True by (simp add: Inr p code_loop.simps [of L emptyCode e "Inr (k, v)"])
        from IH [OF nx less.prems(2) up'] True less.prems(2) here ref show ?thesis unfolding eq by fastforce
      next
        case new: False
        show ?thesis
        proof (cases "kv e (key_bytes (KCode ?c))")
          case (Some code)
          have eq: "code_loop L emptyCode e r seen missing = code_loop L emptyCode e (cur_next L e k) (?c # seen) missing"
            using False a new Some by (simp add: Inr p code_loop.simps [of L emptyCode e "Inr (k, v)"] get_eq key_simps)
          have sn: "\<forall>c \<in> set (?c # seen). kv e (key_bytes (KCode c)) \<noteq> None \<or> c \<in> set missing"
            using less.prems(2) Some by simp
          from IH [OF nx sn up'] Some here ref show ?thesis unfolding eq by fastforce
        next
          case None
          have eq: "code_loop L emptyCode e r seen missing = code_loop L emptyCode e (cur_next L e k) (?c # seen) (missing @ [?c])"
            using False a new None by (simp add: Inr p code_loop.simps [of L emptyCode e "Inr (k, v)"] get_eq key_simps)
          have sn: "\<forall>c \<in> set (?c # seen). kv e (key_bytes (KCode c)) \<noteq> None \<or> c \<in> set (missing @ [?c])"
            using less.prems(2) by auto
          have mc: "missing_code emptyCode (kv e) ?c" using None new ref by (auto simp: missing_code_def)
          from IH [OF nx sn up'] obtain ms where "code_loop L emptyCode e (cur_next L e k) (?c # seen) (missing @ [?c]) = Some (Inr ((missing @ [?c]) @ ms))"
            "\<forall>k' c. ?P k' \<longrightarrow> code_ref emptyCode (kv e) k' c \<longrightarrow> kv e (key_bytes (KCode c)) = None \<longrightarrow> c \<in> set ((missing @ [?c]) @ ms)"
            "\<forall>c \<in> set ms. missing_code emptyCode (kv e) c"
            by blast
          with mc here ref show ?thesis unfolding eq by (intro exI [of _ "?c # ms"]) fastforce
        qed
      qed
    qed
  qed
qed

lemma MissingCodeHashes_exact:
  assumes "wf_rows (kv (env d))"
  shows "\<exists>ms. MissingCodeHashes L kc d = Some (Inr ms) \<and> (\<forall>c. c \<in> set ms \<longleftrightarrow> missing_code (kc []) (kv (env d)) c)"
proof -
  let ?e = "env d" and ?P = "\<lambda>j. [PrefBaseAccount] \<le> j"
  have st: "case cur_set_range L ?e [PrefBaseAccount] of
      Inr (k, v) \<Rightarrow> kv ?e k = Some v \<and> [PrefBaseAccount] \<le> k \<and> ?P k \<and> (\<forall>j \<in> dom (kv ?e). ?P j \<longrightarrow> k \<le> j)
    | Inl m \<Rightarrow> m = MDB_NOTFOUND \<and> (\<forall>j \<in> dom (kv ?e). \<not> ?P j)"
    by (cases rule: set_range_cases [of ?e "[PrefBaseAccount]"]) (auto simp: not_le)
  have "[PrefBaseAccount] \<le> k" if "code_ref (kc []) m k c" for m k c
    using that by (auto simp: code_ref_def key_bytes_layout)
  with code_loop_missing [OF assms st, of "[]" "[]" "kc []"] show ?thesis
    by (fastforce simp: MissingCodeHashes_def missing_code_def)
qed

end

end
