(* ===== verification/SyncRange.thy ===== *)
theory SyncRange
  imports Prelude
begin

text \<open>
  The key arithmetic of state sync (\<^verbatim>\<open>src/follower/sync/sync.go\<close>): the next key, the cut of a response at
  the end of a range, and the division of what is left of a trie into ranges for parallel walks.
  \<open>incKey_eq\<close>: the next key is the next number; \<open>truncateAt_eq\<close>: the cut keeps exactly the leaves of the
  range; \<open>splitRange_partition\<close>: every key from the start on lies in exactly one of the ranges.
\<close>

subsection \<open>incKey\<close>

fun inc_loop :: "nat \<Rightarrow> bytes \<Rightarrow> bytes option" where
  "inc_loop 0 next = None"
| "inc_loop (Suc i) next =
     (let next' = next[i := next ! i + 1]
      in if next' ! i \<noteq> 0 then Some next' else inc_loop i next')"

definition incKey :: "bytes \<Rightarrow> bytes option" where
  "incKey key = inc_loop (length key) key"

subsection \<open>truncateAt\<close>

type_synonym leafs = "(bytes \<times> bytes) list"

text \<open>The loop runs from the last key down; it returns how many keys stay and whether any was dropped.\<close>

fun trunc_loop :: "bytes list \<Rightarrow> bytes \<Rightarrow> nat \<Rightarrow> bool \<Rightarrow> nat \<times> bool" where
  "trunc_loop keys end 0 d = (0, d)"
| "trunc_loop keys end (Suc i) d = (if keys ! i \<le> end then (Suc i, d) else trunc_loop keys end i True)"

definition truncateAt :: "leafs \<Rightarrow> bytes \<Rightarrow> leafs \<times> bool" where
  "truncateAt resp end =
     (if end = [] \<or> resp = [] then (resp, False)
      else case trunc_loop (map fst resp) end (length resp) False of (n, d) \<Rightarrow> (take n resp, d))"

subsection \<open>splitRange\<close>

text \<open>
  The closure \<^verbatim>\<open>pad\<close>: a number as a key of the length of \<^verbatim>\<open>from\<close>; \<^verbatim>\<open>copy\<close> into a slice that starts below
  zero panics. An open end is the empty key, as Go's \<^verbatim>\<open>nil\<close>.
\<close>

definition pad :: "nat \<Rightarrow> nat \<Rightarrow> error + bytes" where
  "pad len v = (if v < 256 ^ len then Inr (nat_be len v) else Inl (Panic ''slice bounds out of range''))"

fun split_loop :: "nat \<Rightarrow> nat \<Rightarrow> nat \<Rightarrow> nat \<Rightarrow> (bytes \<times> bytes) list \<Rightarrow> error + (bytes \<times> bytes) list" where
  "split_loop len step 0 cur out = Inr out"
| "split_loop len step (Suc n) cur out =
     (case (if n = 0 then Inr [] else pad len (cur + step)) of
        Inl err \<Rightarrow> Inl err
      | Inr endB \<Rightarrow>
          (case pad len cur of
             Inl err \<Rightarrow> Inl err
           | Inr k \<Rightarrow> split_loop len step n (cur + step + 1) (out @ [(k, endB)])))"

definition splitRange :: "bytes \<Rightarrow> int \<Rightarrow> error + (bytes \<times> bytes) list" where
  "splitRange from n =
     (let lo = int (be_nat from); hi = 2 ^ (length from * 8) - 1; span = hi - lo in
      if span \<le> 0 \<or> n \<le> 1 then Inr [(from, [])]
      else let step = span div n in
           if step = 0 then Inr [(from, [])]
           else split_loop (length from) (nat step) (nat n) (be_nat from) [])"

subsection \<open>The next key\<close>

lemma byte_256: "(256 :: byte) = 0"
  by simp

lemma inc_loop_eq:
  "i \<le> length key \<Longrightarrow>
   inc_loop i key = (if be_nat (take i key) + 1 < 256 ^ i
     then Some (nat_be i (be_nat (take i key) + 1) @ drop i key) else None)"
proof (induction i arbitrary: key)
  case (Suc i)
  let ?k = "key ! i" and ?key = "key[i := key ! i + 1]"
  have tk: "take (Suc i) key = take i key @ [?k]" using Suc.prems by (simp add: take_Suc_conv_app_nth)
  have bn: "be_nat (take (Suc i) key) = be_nat (take i key) * 256 + unat ?k"
    by (simp add: tk be_nat_append)
  have bd: "be_nat (take i key) < 256 ^ i" using be_nat_bound [of "take i key"] Suc.prems by simp
  have nb: "nat_be (Suc i) v = nat_be i (v div 256) @ [of_nat v]" if "v < 256 ^ Suc i" for v
  proof -
    have "v div 256 < 256 ^ i" using that by (simp add: less_mult_imp_div_less mult.commute)
    then have "be_nat (nat_be i (v div 256) @ [of_nat v :: byte]) = v"
      by (simp add: be_nat_append unat_of_nat)
    moreover have "length (nat_be i (v div 256) @ [of_nat v :: byte]) = Suc i" by simp
    ultimately show ?thesis using nat_be_be_nat [of "nat_be i (v div 256) @ [of_nat v]"] by metis
  qed
  show ?case
  proof (cases "?k + 1 = 0")
    case False
    have "unat ?k + 1 < 2 ^ LENGTH(8)"
    proof (rule ccontr)
      assume "\<not> unat ?k + 1 < 2 ^ LENGTH(8)"
      moreover have "unat ?k < 2 ^ LENGTH(8)" by (rule unsigned_less)
      ultimately have "unat ?k + 1 = 256" by simp
      then have "(of_nat (unat ?k + 1) :: byte) = 0" by (metis of_nat_numeral byte_256)
      with False show False by (simp add: add.commute)
    qed
    then have u: "unat (?k + 1) = unat ?k + 1" "unat ?k + 1 < 256"
      by (auto simp: unat_word_ariths)
    have lt: "be_nat (take (Suc i) key) + 1 < 256 ^ Suc i"
    proof -
      have "be_nat (take i key) * 256 + 256 \<le> 256 ^ i * 256"
        using bd by (metis Suc_leI add.commute mult.commute mult_Suc_right mult_le_mono2)
      with u(2) show ?thesis by (simp add: bn)
    qed
    have "(be_nat (take i key) * 256 + unat ?k + 1) div 256 = be_nat (take i key)" using u(2) by simp
    moreover have "of_nat (be_nat (take i key) * 256 + unat ?k + 1) = ?k + 1"
      by (simp add: byte_256)
    moreover have "nat_be i (be_nat (take i key)) = take i key"
      using nat_be_be_nat [of "take i key"] Suc.prems by simp
    ultimately have "nat_be (Suc i) (be_nat (take (Suc i) key) + 1) = take i key @ [?k + 1]"
      using nb [OF lt] by (simp add: bn add.assoc)
    moreover have "?key = take i key @ [?k + 1] @ drop (Suc i) key"
      using Suc.prems by (simp add: upd_conv_take_nth_drop)
    moreover have "inc_loop (Suc i) key = Some ?key" using False Suc.prems by (simp add: Let_def)
    ultimately show ?thesis using lt by (simp del: inc_loop.simps nat_be.simps)
  next
    case True
    then have k: "?k = - 1" by (simp add: add_eq_0_iff2)
    then have u: "unat ?k = 255" by (simp add: unsigned_minus_1_eq_mask mask_eq_exp_minus_1)
    have IH: "inc_loop i ?key = (if be_nat (take i key) + 1 < 256 ^ i
        then Some (nat_be i (be_nat (take i key) + 1) @ drop i ?key) else None)"
      using Suc.IH [of ?key] Suc.prems by simp
    have dr: "drop i ?key = 0 # drop (Suc i) key"
      using Suc.prems True by (simp add: upd_conv_take_nth_drop)
    have eq: "be_nat (take (Suc i) key) + 1 = (be_nat (take i key) + 1) * 256" by (simp add: bn u)
    then have iff: "be_nat (take (Suc i) key) + 1 < 256 ^ Suc i \<longleftrightarrow> be_nat (take i key) + 1 < 256 ^ i"
      by (simp only: power_Suc mult.commute [of 256] mult_less_cancel2) simp
    moreover have "nat_be (Suc i) (be_nat (take (Suc i) key) + 1) = nat_be i (be_nat (take i key) + 1) @ [0]"
      if "be_nat (take (Suc i) key) + 1 < 256 ^ Suc i"
      using nb [OF that] unfolding eq by (simp add: byte_256 del: nat_be.simps)
    moreover have "inc_loop (Suc i) key = inc_loop i ?key" using True Suc.prems by (simp add: Let_def)
    ultimately show ?thesis using IH dr by (simp del: inc_loop.simps nat_be.simps)
  qed
qed simp

lemma incKey_eq:
  "incKey key = (if be_nat key + 1 < 256 ^ length key then Some (nat_be (length key) (be_nat key + 1)) else None)"
  using inc_loop_eq [of "length key" key] by (simp add: incKey_def)

lemma key_le_nat: "length x = length y \<Longrightarrow> x \<le> y \<longleftrightarrow> be_nat x \<le> be_nat y"
  using be_nat_less_iff [of y x] by (auto simp: not_less [symmetric])

text \<open>Nothing lies between a key and the next.\<close>

lemma incKey_next:
  assumes "incKey key = Some k" and "length x = length key"
  shows "length k = length key" and "k \<le> x \<longleftrightarrow> key < x"
proof -
  from assms(1) have k: "k = nat_be (length key) (be_nat key + 1)" "be_nat key + 1 < 256 ^ length key"
    by (auto simp: incKey_eq split: if_splits)
  show l: "length k = length key" by (simp add: k(1))
  from k have "be_nat k = be_nat key + 1" by simp
  with key_le_nat [of k x] be_nat_less_iff [of key x] assms(2) l show "k \<le> x \<longleftrightarrow> key < x" by auto
qed

lemma incKey_last:
  assumes "incKey key = None" and "length x = length key"
  shows "x \<le> key"
  using assms be_nat_bound [of x] key_le_nat [of x key] by (auto simp: incKey_eq split: if_splits)

subsection \<open>The cut of a response\<close>

lemma trunc_loop_eq:
  assumes "sorted keys"
  shows "i \<le> length keys \<Longrightarrow> trunc_loop keys e i d =
    (length (takeWhile (\<lambda>k. k \<le> e) (take i keys)), d \<or> takeWhile (\<lambda>k. k \<le> e) (take i keys) \<noteq> take i keys)"
proof (induction i arbitrary: d)
  case (Suc i)
  have tk: "take (Suc i) keys = take i keys @ [keys ! i]" using Suc.prems by (simp add: take_Suc_conv_app_nth)
  show ?case
  proof (cases "keys ! i \<le> e")
    case True
    have "k \<le> e" if "k \<in> set (take i keys)" for k
    proof -
      from that obtain j where "j < i" "k = keys ! j" using Suc.prems by (auto simp: in_set_conv_nth)
      with assms Suc.prems True show ?thesis by (metis Suc_le_lessD less_imp_le_nat order.trans sorted_nth_mono)
    qed
    then have tw: "takeWhile (\<lambda>k. k \<le> e) (take (Suc i) keys) = take (Suc i) keys"
      unfolding takeWhile_eq_all_conv using True by (auto simp: tk)
    show ?thesis unfolding tw using True Suc.prems by simp
  next
    case False
    have "takeWhile (\<lambda>k. k \<le> e) (take (Suc i) keys) = takeWhile (\<lambda>k. k \<le> e) (take i keys)"
      unfolding tk using False by (simp add: takeWhile_tail)
    moreover have "length (takeWhile (\<lambda>k. k \<le> e) (take i keys)) \<le> length (take i keys)"
      by (rule length_takeWhile_le)
    ultimately have "takeWhile (\<lambda>k. k \<le> e) (take (Suc i) keys) \<noteq> take (Suc i) keys"
      using Suc.prems by (metis length_take min.absorb2 Suc_leD Suc_n_not_le_n)
    with False Suc.IH [of True] Suc.prems \<open>takeWhile _ (take (Suc i) keys) = _\<close> show ?thesis by simp
  qed
qed simp

lemma truncateAt_eq:
  assumes "sorted (map fst resp)"
  shows "truncateAt resp e =
    (if e = [] then (resp, False)
     else (takeWhile (\<lambda>p. fst p \<le> e) resp, takeWhile (\<lambda>p. fst p \<le> e) resp \<noteq> resp))"
proof -
  let ?P = "\<lambda>p. fst p \<le> e"
  have tw: "takeWhile (\<lambda>k. k \<le> e) (map fst resp) = map fst (takeWhile ?P resp)"
    by (simp add: takeWhile_map comp_def)
  have "takeWhile (\<lambda>k. k \<le> e) (map fst resp) = map fst resp \<longleftrightarrow> takeWhile ?P resp = resp"
    by (auto simp: takeWhile_eq_all_conv)
  with trunc_loop_eq [OF assms, of "length resp" e False] show ?thesis
    by (auto simp: truncateAt_def tw takeWhile_eq_take [symmetric])
qed

lemma takeWhile_in_range:
  assumes "sorted (map fst resp)"
  shows "set (takeWhile (\<lambda>p. fst p \<le> e) resp) = {p \<in> set resp. fst p \<le> e}"
  using assms
proof (induction resp)
  case (Cons p resp)
  then show ?case by (cases "fst p \<le> e") (auto intro: order.trans)
qed simp

subsection \<open>The division of a range\<close>

definition in_range :: "bytes \<Rightarrow> bytes \<times> bytes \<Rightarrow> bool" where
  "in_range k r \<longleftrightarrow> fst r \<le> k \<and> (snd r = [] \<or> k \<le> snd r)"

lemma split_loop_partition:
  assumes "split_loop len step n cur out = Inr rs" and "0 < n" and "0 < len"
  shows "\<exists>rs'. rs = out @ rs' \<and>
    (\<forall>k. length k = len \<longrightarrow> length (filter (in_range k) rs') = (if cur \<le> be_nat k then 1 else 0))"
  using assms
proof (induction n arbitrary: cur out)
  case (Suc n)
  note pr = Suc.prems(1)
  have range: "in_range k (nat_be len cur, e) \<longleftrightarrow> cur \<le> be_nat k \<and> (e = [] \<or> k \<le> e)"
    if "length k = len" "cur < 256 ^ len" for k e
    using that key_le_nat [of "nat_be len cur" k] by (simp add: in_range_def)
  show ?case
  proof (cases n)
    case 0
    with Suc.prems(1) have c: "cur < 256 ^ len" "rs = out @ [(nat_be len cur, [])]"
      by (auto simp: pad_def split: if_splits)
    then show ?thesis using range by (intro exI [of _ "[(nat_be len cur, [])]"]) simp
  next
    case (Suc n')
    with pr have c: "cur < 256 ^ len" "cur + step < 256 ^ len"
      "split_loop len step n (cur + step + 1) (out @ [(nat_be len cur, nat_be len (cur + step))]) = Inr rs"
      by (auto simp: pad_def split: if_splits)
    from Suc.IH [OF c(3)] Suc \<open>0 < len\<close> obtain rs' where
      rs: "rs = (out @ [(nat_be len cur, nat_be len (cur + step))]) @ rs'"
      "\<forall>k. length k = len \<longrightarrow> length (filter (in_range k) rs') = (if cur + step + 1 \<le> be_nat k then 1 else 0)"
      by auto
    have ne: "nat_be len (cur + step) \<noteq> []" using \<open>0 < len\<close> by (metis length_nat_be less_numeral_extra(3) list.size(3))
    have "k \<le> nat_be len (cur + step) \<longleftrightarrow> be_nat k \<le> cur + step" if "length k = len" for k
      using that c(2) key_le_nat [of k "nat_be len (cur + step)"] by simp
    with rs range c(1) ne show ?thesis
      by (intro exI [of _ "(nat_be len cur, nat_be len (cur + step)) # rs'"]) auto
  qed
qed simp

lemma splitRange_partition:
  assumes "splitRange from n = Inr rs" and "from \<noteq> []" and "length k = length from"
  shows "length (filter (in_range k) rs) = (if from \<le> k then 1 else 0)"
proof -
  define step where "step = (2 ^ (length from * 8) - 1 - int (be_nat from)) div n"
  have "rs = [(from, [])] \<or> 0 < nat n \<and> split_loop (length from) (nat step) (nat n) (be_nat from) [] = Inr rs"
    using assms(1) unfolding splitRange_def Let_def step_def by (auto split: if_splits)
  then show ?thesis
  proof
    assume "rs = [(from, [])]"
    then show ?thesis by (simp add: in_range_def)
  next
    assume sl: "0 < nat n \<and> split_loop (length from) (nat step) (nat n) (be_nat from) [] = Inr rs"
    from split_loop_partition [OF conjunct2 [OF sl] conjunct1 [OF sl]] assms(2,3) key_le_nat [of "from" k] show ?thesis by auto
  qed
qed

lemma split_loop_ok:
  "cur + n * (step + 1) \<le> 256 ^ len + step \<Longrightarrow> \<exists>rs. split_loop len step n cur out = Inr rs"
proof (induction n arbitrary: cur out)
  case (Suc n)
  have "cur + step + 1 + n * (step + 1) \<le> 256 ^ len + step" using Suc.prems by (simp add: algebra_simps)
  note IH = Suc.IH [OF this]
  have "cur < 256 ^ len" using Suc.prems by (simp add: algebra_simps)
  moreover have "cur + step < 256 ^ len" if "n \<noteq> 0"
  proof -
    from that obtain m where m: "n = Suc m" by (cases n) auto
    show ?thesis using Suc.prems unfolding m by (simp add: algebra_simps)
  qed
  ultimately show ?case using IH by (simp add: pad_def)
qed simp

text \<open>Unless fewer than about \<open>n\<^sup>2\<close> keys are left, the division does not run over the last key.\<close>

lemma splitRange_ok:
  assumes "n * (n - 1) \<le> 256 ^ length from - 1 - int (be_nat from)"
  shows "\<exists>rs. splitRange from n = Inr rs"
proof -
  define span where "span = 256 ^ length from - 1 - int (be_nat from)"
  have pw: "2 ^ (length from * 8) = (256 :: int) ^ length from" by (simp add: mult.commute [of _ 8] power_mult)
  show ?thesis
  proof (cases "span \<le> 0 \<or> n \<le> 1 \<or> span div n = 0")
    case True
    then show ?thesis unfolding splitRange_def Let_def pw span_def by auto
  next
    case False
    then have n: "1 < n" by simp
    have dv: "n - 1 \<le> span div n" using assms n unfolding span_def [symmetric]
      by (metis mult.commute nonzero_mult_div_cancel_left not_one_less_zero zdiv_mono1 zero_less_one order_less_trans)
    have "n * (span div n) \<le> span" using n by (simp add: mult.commute [of n] minus_mod_eq_mult_div [symmetric])
    with dv have "int (be_nat from) + n * (span div n + 1) \<le> 256 ^ length from + span div n"
      unfolding span_def by (simp add: algebra_simps)
    then have "be_nat from + nat n * (nat (span div n) + 1) \<le> 256 ^ length from + nat (span div n)"
      using n dv by (simp add: nat_int_comparison(3) algebra_simps)
    from split_loop_ok [OF this] False show ?thesis
      unfolding splitRange_def Let_def pw span_def [symmetric] by simp
  qed
qed

end
