(* ===== verification/Sync.thy ===== *)
theory Sync
  imports StoreScan StoreBaseline SyncRange
begin

text \<open>
  Package \<^verbatim>\<open>sync\<close> (\<^verbatim>\<open>src/follower/sync/sync.go\<close>), the state-sync loader of the baseline. \<^verbatim>\<open>Run\<close> is a
  system of goroutines: the driver (\<^verbatim>\<open>Run\<close> itself), one worker per segment of the account trie
  (\<^verbatim>\<open>runSegment\<close>), one task per queued storage trie with its range walkers (\<^verbatim>\<open>walkStorage\<close>), and the
  writer, the only one to touch the \<^verbatim>\<open>Baseline\<close>, fed through one channel. Every goroutine is a
  program counter and \<open>sync_exec\<close> runs one action of one of them; the answers of the network are
  part of the action, so that a schedule is a list of actions and can be evaluated.

  Parameters: \<open>sync_lib\<close> holds what the code takes from libevm and coreth (RLP decoding, keccak, the
  hash of the empty trie, the number of hashes per code request). The counters and the progress log are
  left out, they feed nothing else. Closures handed to the writer are values of \<open>blapply\<close>.
\<close>

unbundle bit_operations_syntax

record sync_lib =
  lib_account :: "bytes \<Rightarrow> error + state_account"
  lib_split :: "bytes \<Rightarrow> error + bytes"
  lib_kc :: "bytes \<Rightarrow> hash"
  lib_emptyRoot :: hash
  lib_maxCode :: nat

record sync_cfg =
  cf_height :: u64
  cf_root :: hash
  cf_workers :: int
  cf_splitAfter :: int
  cf_splitWays :: int
  cf_noResume :: bool

definition SetSplitWays :: "sync_cfg \<Rightarrow> int \<Rightarrow> bool \<Rightarrow> sync_cfg" where
  "SetSplitWays cfg ways noResume =
     cfg\<lparr>cf_splitWays := (if ways > 0 then ways else cf_splitWays cfg), cf_noResume := noResume\<rparr>"

definition workers :: "sync_cfg \<Rightarrow> nat" where
  "workers cfg = nat (if cf_workers cfg \<le> 0 then 32 else cf_workers cfg)"

text \<open>Answers of the client: leaves and whether more follow, or code blobs.\<close>

type_synonym leafs_reply = "error + leafs \<times> bool"
type_synonym code_reply = "error + bytes list"

subsection \<open>Bundles\<close>

datatype blapply =
    ApplyAccount "bytes option" hash bool hash hash account
  | ApplySlots hash "(hash \<times> hash) list"
  | ApplyDequeue hash

record wbundle =
  b_seg :: int
  b_final :: bool
  b_apply :: "blapply option"
  b_barrier :: bool

fun apply_slots :: "'e lmdb_ops \<Rightarrow> 'e db \<Rightarrow> baseline \<Rightarrow> hash \<Rightarrow> (hash \<times> hash) list \<Rightarrow> 'e bl_result" where
  "apply_slots L d bl addrHash [] = (d, bl, None)"
| "apply_slots L d bl addrHash (kv # slots) =
     (case bl_BaseSlot L d bl addrHash (fst kv) (snd kv) of
        (d', bl', Some err) \<Rightarrow> (d', bl', Some err)
      | (d', bl', None) \<Rightarrow> apply_slots L d' bl' addrHash slots)"

fun apply_run :: "'e lmdb_ops \<Rightarrow> 'e db \<Rightarrow> baseline \<Rightarrow> blapply \<Rightarrow> 'e bl_result" where
  "apply_run L d bl (ApplyAccount code codeHash hasStorage addrHash storageRoot row) =
     (case (case code of None \<Rightarrow> (d, bl, None) | Some c \<Rightarrow> bl_Code L d bl codeHash c) of
        (d1, bl1, Some err) \<Rightarrow> (d1, bl1, Some err)
      | (d1, bl1, None) \<Rightarrow>
          (case (if hasStorage then bl_QueueStorage L d1 bl1 addrHash storageRoot else (d1, bl1, None)) of
             (d2, bl2, Some err) \<Rightarrow> (d2, bl2, Some err)
           | (d2, bl2, None) \<Rightarrow> bl_BaseAccount L d2 bl2 addrHash row))"
| "apply_run L d bl (ApplySlots addrHash slots) = apply_slots L d bl addrHash slots"
| "apply_run L d bl (ApplyDequeue addrHash) = bl_DequeueStorage L d bl addrHash"

subsection \<open>handleAccount\<close>

definition has_storage :: "sync_lib \<Rightarrow> state_account \<Rightarrow> bool" where
  "has_storage E acc \<longleftrightarrow> sa_Root acc \<noteq> 0 \<and> sa_Root acc \<noteq> lib_emptyRoot E"

definition account_row :: "state_account \<Rightarrow> account" where
  "account_row acc = \<lparr>Balance = (case sa_Balance acc of None \<Rightarrow> 0 | Some b \<Rightarrow> b),
     Nonce = sa_Nonce acc, CodeHash = be_word (sa_CodeHash acc)\<rparr>"

definition handleAccount ::
  "sync_lib \<Rightarrow> hash list \<Rightarrow> bytes \<Rightarrow> bytes \<Rightarrow> code_reply \<Rightarrow> hash list \<times> (error + blapply)" where
  "handleAccount E claims key val reply =
     (if length key \<noteq> 32 then (claims, Inl (ErrBadLength (length key)))
      else case lib_account E val of
        Inl err \<Rightarrow> (claims, Inl err)
      | Inr acc \<Rightarrow>
          (let addrHash = be_word key;
               row = account_row acc;
               codeHash = be_word (sa_CodeHash acc);
               rows = (\<lambda>code. ApplyAccount code codeHash (has_storage E acc) addrHash (sa_Root acc) row)
           in if codeHash \<noteq> 0 \<and> codeHash \<noteq> lib_kc E [] \<and> codeHash \<notin> set claims
              then (codeHash # claims,
                    case reply of
                      Inl err \<Rightarrow> Inl err
                    | Inr [] \<Rightarrow> Inl (Panic ''index out of range'')
                    | Inr (blob # _) \<Rightarrow> Inr (rows (Some blob)))
              else (claims, Inr (rows None))))"

text \<open>What the loops over a trie do after a response: stop, fail, or go on after the last key.\<close>

definition after_leafs :: "bool \<Rightarrow> bool \<Rightarrow> leafs \<Rightarrow> error + bytes option" where
  "after_leafs done has_more ls =
     (if done \<or> \<not> has_more then Inr None
      else if ls = [] then Inl (ErrMsg ''empty response with more=true'')
      else Inr (incKey (fst (last ls))))"

subsection \<open>runSegment\<close>

datatype seg_pc =
    SegWait "bytes option"
  | SegReq bytes
  | SegHandle leafs "blapply option list" "error + bytes option"
  | SegSend "blapply list" "error + bytes option"
  | SegFinal
  | SegDone
  | SegErr error

datatype seg_act =
    SaLeafs leafs_reply
  | SaAccount nat code_reply
  | SaRows
  | SaSend
  | SaNext
  | SaCancel

definition seg_start :: "nat \<Rightarrow> bytes option \<Rightarrow> bytes" where
  "seg_start seg start = (case start of None \<Rightarrow> of_nat seg # replicate 31 0 | Some s \<Rightarrow> s)"

definition seg_end :: "nat \<Rightarrow> bytes" where
  "seg_end seg = of_nat seg # replicate 31 0xff"

definition seg_leafs :: "nat \<Rightarrow> leafs_reply \<Rightarrow> seg_pc" where
  "seg_leafs seg reply =
     (case reply of
        Inl err \<Rightarrow> SegErr err
      | Inr (ls, has_more) \<Rightarrow>
          (case truncateAt ls (seg_end seg) of
             (ls', done) \<Rightarrow> SegHandle ls' (replicate (length ls') None) (after_leafs done has_more ls')))"

definition seg_next :: "error + bytes option \<Rightarrow> seg_pc" where
  "seg_next aft = (case aft of Inl err \<Rightarrow> SegErr err | Inr None \<Rightarrow> SegFinal | Inr (Some start) \<Rightarrow> SegReq start)"

fun seg_exec ::
  "sync_lib \<Rightarrow> nat \<Rightarrow> hash list \<Rightarrow> seg_act \<Rightarrow> seg_pc \<Rightarrow> (seg_pc \<times> hash list \<times> wbundle option) option" where
  "seg_exec E seg claims (SaLeafs reply) (SegReq start) = Some (seg_leafs seg reply, claims, None)"
| "seg_exec E seg claims (SaAccount i reply) (SegHandle ls rows aft) =
     (if i < length ls \<and> rows ! i = None
      then (case handleAccount E claims (fst (ls ! i)) (snd (ls ! i)) reply of
              (claims', Inl err) \<Rightarrow> Some (SegErr err, claims', None)
            | (claims', Inr a) \<Rightarrow> Some (SegHandle ls (rows[i := Some a]) aft, claims', None))
      else None)"
| "seg_exec E seg claims SaRows (SegHandle ls rows aft) =
     (if None \<in> set rows then None else Some (SegSend (map the rows) aft, claims, None))"
| "seg_exec E seg claims SaSend (SegSend (a # as) aft) =
     Some (SegSend as aft, claims,
       Some \<lparr>b_seg = int seg, b_final = False, b_apply = Some a, b_barrier = False\<rparr>)"
| "seg_exec E seg claims SaSend SegFinal =
     Some (SegDone, claims, Some \<lparr>b_seg = int seg, b_final = True, b_apply = None, b_barrier = False\<rparr>)"
| "seg_exec E seg claims SaNext (SegSend [] aft) = Some (seg_next aft, claims, None)"
| "seg_exec E seg claims SaCancel (SegSend (a # as) aft) = Some (SegErr ErrCanceled, claims, None)"
| "seg_exec E seg claims SaCancel SegFinal = Some (SegErr ErrCanceled, claims, None)"
| "seg_exec E seg claims _ _ = None"

subsection \<open>walkStorage\<close>

datatype walk_pc =
    RInit
  | RReq bytes int
  | RSend "(hash \<times> hash) list" "error + bytes option" int
  | RRet "bytes option"
  | RErr error

record rwalk =
  rw_start :: bytes
  rw_end :: bytes
  rw_max :: int
  rw_pc :: walk_pc

datatype walk_act = RaInit | RaCap | RaLeafs leafs_reply | RaSend | RaCancel

text \<open>A Go \<^verbatim>\<open>nil\<close> key is the empty one; the store's scan takes an option.\<close>

definition opt_key :: "bytes \<Rightarrow> bytes option" where
  "opt_key k = (if k = [] then None else Some k)"

definition walk_resume :: "'e lmdb_ops \<Rightarrow> sync_cfg \<Rightarrow> 'e db \<Rightarrow> hash \<Rightarrow> rwalk \<Rightarrow> walk_pc" where
  "walk_resume L cfg d addrHash rw =
     (if rw_max rw = 0 \<and> \<not> cf_noResume cfg
      then (case MaxBaseSlot L d addrHash (opt_key (rw_start rw)) (opt_key (rw_end rw)) of
              Inl err \<Rightarrow> RErr err
            | Inr None \<Rightarrow> RReq (rw_start rw) 0
            | Inr (Some wm) \<Rightarrow>
                (case incKey (be_bytes 32 wm) of
                   None \<Rightarrow> RRet None
                 | Some next \<Rightarrow>
                     (if rw_end rw \<noteq> [] \<and> rw_end rw < next then RRet None
                      else if rw_start rw < next then RReq next 0
                      else RReq (rw_start rw) 0)))
      else RReq (rw_start rw) 0)"

fun walk_slots :: "sync_lib \<Rightarrow> leafs \<Rightarrow> error + (hash \<times> hash) list" where
  "walk_slots E [] = Inr []"
| "walk_slots E ((k, v) # ls) =
     (if length k \<noteq> 32 then Inl (ErrBadLength (length k))
      else case lib_split E v of
        Inl err \<Rightarrow> Inl err
      | Inr content \<Rightarrow>
          (if length content > 32 then Inl (ErrBadLength (length content))
           else case walk_slots E ls of
             Inl err \<Rightarrow> Inl err
           | Inr slots \<Rightarrow> Inr ((be_word k, be_word content) # slots)))"

definition walk_leafs :: "sync_lib \<Rightarrow> rwalk \<Rightarrow> int \<Rightarrow> leafs_reply \<Rightarrow> walk_pc" where
  "walk_leafs E rw n reply =
     (case reply of
        Inl err \<Rightarrow> RErr err
      | Inr (ls, has_more) \<Rightarrow>
          (case truncateAt ls (rw_end rw) of
             (ls', done) \<Rightarrow>
               (case walk_slots E ls' of
                  Inl err \<Rightarrow> RErr err
                | Inr slots \<Rightarrow> RSend slots (after_leafs done has_more ls') n)))"

definition walk_next :: "error + bytes option \<Rightarrow> int \<Rightarrow> walk_pc" where
  "walk_next aft n =
     (case aft of Inl err \<Rightarrow> RErr err | Inr None \<Rightarrow> RRet None | Inr (Some start) \<Rightarrow> RReq start (n + 1))"

definition capped :: "rwalk \<Rightarrow> int \<Rightarrow> bool" where
  "capped rw n \<longleftrightarrow> rw_max rw > 0 \<and> n \<ge> rw_max rw"

definition storage_bundle :: "blapply \<Rightarrow> wbundle" where
  "storage_bundle a = \<lparr>b_seg = - 1, b_final = False, b_apply = Some a, b_barrier = False\<rparr>"

fun walk_exec ::
  "'e lmdb_ops \<Rightarrow> sync_lib \<Rightarrow> sync_cfg \<Rightarrow> 'e db \<Rightarrow> hash \<Rightarrow> walk_act \<Rightarrow> rwalk \<Rightarrow> (rwalk \<times> wbundle option) option" where
  "walk_exec L E cfg d addrHash act rw =
     (case (act, rw_pc rw) of
        (RaInit, RInit) \<Rightarrow> Some (rw\<lparr>rw_pc := walk_resume L cfg d addrHash rw\<rparr>, None)
      | (RaCap, RReq start n) \<Rightarrow> (if capped rw n then Some (rw\<lparr>rw_pc := RRet (Some start)\<rparr>, None) else None)
      | (RaLeafs reply, RReq start n) \<Rightarrow>
          (if capped rw n then None else Some (rw\<lparr>rw_pc := walk_leafs E rw n reply\<rparr>, None))
      | (RaSend, RSend slots aft n) \<Rightarrow>
          Some (rw\<lparr>rw_pc := walk_next aft n\<rparr>, Some (storage_bundle (ApplySlots addrHash slots)))
      | (RaCancel, RSend slots aft n) \<Rightarrow> Some (rw\<lparr>rw_pc := RErr ErrCanceled\<rparr>, None)
      | _ \<Rightarrow> None)"

subsection \<open>The task of one storage trie\<close>

text \<open>
  The closure \<^verbatim>\<open>drainStorageQueue\<close> starts per queue row: a sequential walk of at most \<^verbatim>\<open>splitAfter\<close>
  requests, then one walker per sub-range, then the deletion of the queue row. A panic ends the process.
\<close>

datatype task_pc =
    TWarm rwalk
  | TFan "rwalk list"
  | TDequeue
  | TDone
  | TErr error

record stask =
  t_addr :: hash
  t_root :: hash
  t_pc :: task_pc

datatype task_act =
    TaWarm walk_act
  | TaSplit
  | TaFan nat walk_act
  | TaJoin
  | TaSend
  | TaCancel

datatype effect = ENone | ESend wbundle | ECrash

definition effect_of :: "wbundle option \<Rightarrow> effect" where
  "effect_of b = (case b of None \<Rightarrow> ENone | Some x \<Rightarrow> ESend x)"

definition new_task :: "sync_cfg \<Rightarrow> hash \<Rightarrow> hash \<Rightarrow> stask" where
  "new_task cfg addrHash root = \<lparr>t_addr = addrHash, t_root = root,
     t_pc = TWarm \<lparr>rw_start = [], rw_end = [], rw_max = cf_splitAfter cfg, rw_pc = RInit\<rparr>\<rparr>"

definition fan_out :: "(bytes \<times> bytes) list \<Rightarrow> rwalk list" where
  "fan_out rs = map (\<lambda>r. \<lparr>rw_start = fst r, rw_end = snd r, rw_max = 0, rw_pc = RInit\<rparr>) rs"

definition walk_errors :: "rwalk list \<Rightarrow> error list" where
  "walk_errors rws = concat (map (\<lambda>rw. case rw_pc rw of RErr err \<Rightarrow> [err] | _ \<Rightarrow> []) rws)"

fun walk_returned :: "walk_pc \<Rightarrow> bool" where
  "walk_returned (RRet _) = True"
| "walk_returned (RErr _) = True"
| "walk_returned _ = False"

definition warm_return :: "sync_cfg \<Rightarrow> walk_pc \<Rightarrow> (task_pc \<times> effect) option" where
  "warm_return cfg pc =
     (case pc of
        RErr err \<Rightarrow> Some (TErr err, ENone)
      | RRet None \<Rightarrow> Some (TDequeue, ENone)
      | RRet (Some next) \<Rightarrow>
          (case splitRange next (cf_splitWays cfg) of
             Inl err \<Rightarrow> Some (TErr err, ECrash)
           | Inr rs \<Rightarrow> Some (TFan (fan_out rs), ENone))
      | _ \<Rightarrow> None)"

definition fan_join :: "rwalk list \<Rightarrow> task_pc option" where
  "fan_join rws =
     (if list_all (\<lambda>rw. walk_returned (rw_pc rw)) rws
      then Some (case walk_errors rws of [] \<Rightarrow> TDequeue | err # _ \<Rightarrow> TErr err) else None)"

text \<open>\<open>gone\<close>: the context of the group is cancelled. A walker of the fan-out also sees the errors of its siblings.\<close>

definition walk_act_ok :: "bool \<Rightarrow> walk_act \<Rightarrow> bool" where
  "walk_act_ok gone act \<longleftrightarrow> (act = RaCancel \<longrightarrow> gone)"

definition task_exec ::
  "'e lmdb_ops \<Rightarrow> sync_lib \<Rightarrow> sync_cfg \<Rightarrow> 'e db \<Rightarrow> bool \<Rightarrow> task_act \<Rightarrow> stask \<Rightarrow> (stask \<times> effect) option" where
  "task_exec L E cfg d gone act t =
     (case (act, t_pc t) of
        (TaWarm wa, TWarm rw) \<Rightarrow>
          (if walk_act_ok gone wa then
             (case walk_exec L E cfg d (t_addr t) wa rw of
                None \<Rightarrow> None
              | Some (rw', b) \<Rightarrow> Some (t\<lparr>t_pc := TWarm rw'\<rparr>, effect_of b))
           else None)
      | (TaSplit, TWarm rw) \<Rightarrow>
          map_option (\<lambda>(pc, eff). (t\<lparr>t_pc := pc\<rparr>, eff)) (warm_return cfg (rw_pc rw))
      | (TaFan i wa, TFan rws) \<Rightarrow>
          (if i < length rws \<and> walk_act_ok (gone \<or> walk_errors rws \<noteq> []) wa then
             (case walk_exec L E cfg d (t_addr t) wa (rws ! i) of
                None \<Rightarrow> None
              | Some (rw', b) \<Rightarrow> Some (t\<lparr>t_pc := TFan (rws[i := rw'])\<rparr>, effect_of b))
           else None)
      | (TaJoin, TFan rws) \<Rightarrow> map_option (\<lambda>pc. (t\<lparr>t_pc := pc\<rparr>, ENone)) (fan_join rws)
      | (TaSend, TDequeue) \<Rightarrow> Some (t\<lparr>t_pc := TDone\<rparr>, ESend (storage_bundle (ApplyDequeue (t_addr t))))
      | (TaCancel, TDequeue) \<Rightarrow> (if gone then Some (t\<lparr>t_pc := TErr ErrCanceled\<rparr>, ENone) else None)
      | _ \<Rightarrow> None)"

subsection \<open>The system\<close>

datatype writer = WRun | WFail error | WDone

datatype driver =
    DPhase1
  | DBarrier
  | DWait
  | DScan "hash option"
  | DSpawn "(hash \<times> hash) list" hash
  | DJoin
  | DClose "error option"
  | DWriter "error option"
  | DSweep
  | DCodes "hash list"
  | DFinish
  | DRet "error option"

text \<open>
  \<open>y_gerr\<close> is the first error of the running errgroup, \<open>y_cancel\<close> the cancellation of the caller's
  context; \<open>y_reply\<close> is the channel \<^verbatim>\<open>barrier\<close>.
\<close>

record 'e syncer =
  y_db :: "'e db"
  y_bl :: baseline
  y_bitmap :: bytes
  y_writes :: "wbundle list"
  y_closed :: bool
  y_writer :: writer
  y_reply :: "error option option"
  y_claims :: "hash list"
  y_segs :: "(nat \<times> seg_pc) list"
  y_tasks :: "stask list"
  y_driver :: driver
  y_gerr :: "error option"
  y_cancel :: bool
  y_crash :: bool

datatype sync_act =
    ACancel
  | AWriter
  | AStart
  | ASeg nat seg_act
  | ATask nat task_act
  | ADriver
  | ADriverCancel
  | ACodes code_reply

definition seg_bit :: "bytes \<Rightarrow> nat \<Rightarrow> bool" where
  "seg_bit bm seg \<longleftrightarrow> (bm ! (seg div 8)) AND push_bit (seg mod 8) 1 \<noteq> 0"

definition set_seg_bit :: "bytes \<Rightarrow> nat \<Rightarrow> bytes" where
  "set_seg_bit bm seg = bm[seg div 8 := (bm ! (seg div 8)) OR push_bit (seg mod 8) 1]"

subsubsection \<open>The writer\<close>

definition write_bundle :: "'e lmdb_ops \<Rightarrow> wbundle \<Rightarrow> 'e syncer \<Rightarrow> 'e syncer" where
  "write_bundle L b s =
     (case (case b_apply b of None \<Rightarrow> (y_db s, y_bl s, None) | Some a \<Rightarrow> apply_run L (y_db s) (y_bl s) a) of
        (d, bl, Some err) \<Rightarrow> s\<lparr>y_db := d, y_bl := bl, y_writer := WFail err\<rparr>
      | (d, bl, None) \<Rightarrow>
          (let bm = (if b_final b then set_seg_bit (y_bitmap s) (nat (b_seg b)) else y_bitmap s);
               bl' = (if b_final b then SetProgress bl bm else bl)
           in if b_barrier b
              then (case Flush L d bl' of
                      (d'', bl'', err) \<Rightarrow> s\<lparr>y_db := d'', y_bl := bl'', y_bitmap := bm, y_reply := Some err\<rparr>)
              else s\<lparr>y_db := d, y_bl := bl', y_bitmap := bm\<rparr>))"

definition writer_exec :: "'e lmdb_ops \<Rightarrow> 'e syncer \<Rightarrow> 'e syncer option" where
  "writer_exec L s =
     (case (y_writer s, y_writes s) of
        (WRun, b # bs) \<Rightarrow> Some (write_bundle L b (s\<lparr>y_writes := bs\<rparr>))
      | (WRun, []) \<Rightarrow> (if y_closed s then Some (s\<lparr>y_writer := WDone\<rparr>) else None)
      | (WFail err, b # bs) \<Rightarrow> Some (s\<lparr>y_writes := bs\<rparr>)
      | _ \<Rightarrow> None)"

text \<open>A send: into a closed channel it panics, into a full one it waits.\<close>

definition enqueue :: "sync_cfg \<Rightarrow> wbundle \<Rightarrow> 'e syncer \<Rightarrow> 'e syncer option" where
  "enqueue cfg b s =
     (if y_closed s then Some (s\<lparr>y_crash := True\<rparr>)
      else if length (y_writes s) < 2 * workers cfg then Some (s\<lparr>y_writes := y_writes s @ [b]\<rparr>)
      else None)"

definition do_effect :: "sync_cfg \<Rightarrow> effect \<Rightarrow> 'e syncer \<Rightarrow> 'e syncer option" where
  "do_effect cfg eff s =
     (case eff of ENone \<Rightarrow> Some s | ESend b \<Rightarrow> enqueue cfg b s | ECrash \<Rightarrow> Some (s\<lparr>y_crash := True\<rparr>))"

subsubsection \<open>The groups\<close>

fun seg_running :: "seg_pc \<Rightarrow> bool" where
  "seg_running (SegWait _) = False"
| "seg_running SegDone = False"
| "seg_running (SegErr _) = False"
| "seg_running _ = True"

fun seg_waiting :: "seg_pc \<Rightarrow> bool" where
  "seg_waiting (SegWait _) = True"
| "seg_waiting _ = False"

fun task_running :: "task_pc \<Rightarrow> bool" where
  "task_running TDone = False"
| "task_running (TErr _) = False"
| "task_running _ = True"

definition group_err :: "error option \<Rightarrow> 'e syncer \<Rightarrow> 'e syncer" where
  "group_err err s = (if y_gerr s = None then s\<lparr>y_gerr := err\<rparr> else s)"

definition gone :: "'e syncer \<Rightarrow> bool" where
  "gone s \<longleftrightarrow> y_cancel s \<or> y_gerr s \<noteq> None"

text \<open>\<^verbatim>\<open>g.Go\<close> in the loop over the segments: the first task not yet started, when a worker is free.\<close>

fun start_first :: "(nat \<times> seg_pc) list \<Rightarrow> (nat \<times> seg_pc) list option" where
  "start_first [] = None"
| "start_first ((seg, SegWait start) # segs) = Some ((seg, SegReq (seg_start seg start)) # segs)"
| "start_first (x # segs) = map_option ((#) x) (start_first segs)"

definition seg_step :: "sync_lib \<Rightarrow> sync_cfg \<Rightarrow> nat \<Rightarrow> seg_act \<Rightarrow> 'e syncer \<Rightarrow> 'e syncer option" where
  "seg_step E cfg i act s =
     (if i < length (y_segs s) \<and> (act = SaCancel \<longrightarrow> gone s) then
        (case seg_exec E (fst (y_segs s ! i)) (y_claims s) act (snd (y_segs s ! i)) of
           None \<Rightarrow> None
         | Some (pc, claims, b) \<Rightarrow>
             do_effect cfg (effect_of b)
               (group_err (case pc of SegErr err \<Rightarrow> Some err | _ \<Rightarrow> None)
                 (s\<lparr>y_segs := (y_segs s)[i := (fst (y_segs s ! i), pc)], y_claims := claims\<rparr>)))
      else None)"

definition task_step :: "'e lmdb_ops \<Rightarrow> sync_lib \<Rightarrow> sync_cfg \<Rightarrow> nat \<Rightarrow> task_act \<Rightarrow> 'e syncer \<Rightarrow> 'e syncer option" where
  "task_step L E cfg i act s =
     (if i < length (y_tasks s) then
        (case task_exec L E cfg (y_db s) (gone s) act (y_tasks s ! i) of
           None \<Rightarrow> None
         | Some (t, eff) \<Rightarrow>
             do_effect cfg eff
               (group_err (case t_pc t of TErr err \<Rightarrow> Some err | _ \<Rightarrow> None)
                 (s\<lparr>y_tasks := (y_tasks s)[i := t]\<rparr>)))
      else None)"

subsubsection \<open>The driver: Run, drainStorageQueue, codeSweep\<close>

definition barrier_bundle :: wbundle where
  "barrier_bundle = \<lparr>b_seg = - 1, b_final = False, b_apply = None, b_barrier = True\<rparr>"

definition scanBatch :: int where
  "scanBatch = 4096"

definition end_phase1 :: "'e syncer \<Rightarrow> 'e syncer option" where
  "end_phase1 s =
     (if list_ex (\<lambda>p. seg_waiting (snd p) \<or> seg_running (snd p)) (y_segs s) then None
      else Some (s\<lparr>y_driver := (case y_gerr s of None \<Rightarrow> DBarrier | Some err \<Rightarrow> DClose (Some err)), y_gerr := None\<rparr>))"

definition scan_queue :: "'e lmdb_ops \<Rightarrow> hash option \<Rightarrow> 'e syncer \<Rightarrow> 'e syncer" where
  "scan_queue L after s = s\<lparr>y_driver :=
     (case StorageQueueAfter L (y_db s) after scanBatch of
        Inl err \<Rightarrow> DClose (Some err)
      | Inr (addrs, roots) \<Rightarrow> (if addrs = [] then DJoin else DSpawn (zip addrs roots) (last addrs)))\<rparr>"

definition spawn_task :: "sync_cfg \<Rightarrow> (hash \<times> hash) list \<Rightarrow> hash \<Rightarrow> 'e syncer \<Rightarrow> 'e syncer option" where
  "spawn_task cfg rows lst s =
     (case rows of
        [] \<Rightarrow> Some (s\<lparr>y_driver := DScan (Some lst)\<rparr>)
      | (addrHash, root) # rows' \<Rightarrow>
          (if length (filter (\<lambda>t. task_running (t_pc t)) (y_tasks s)) < workers cfg
           then Some (s\<lparr>y_tasks := y_tasks s @ [new_task cfg addrHash root], y_driver := DSpawn rows' lst\<rparr>)
           else None))"

definition end_writer :: "'e lmdb_ops \<Rightarrow> error option \<Rightarrow> 'e syncer \<Rightarrow> 'e syncer option" where
  "end_writer L segErr s =
     (case (y_writer s, segErr) of
        (WRun, _) \<Rightarrow> None
      | (_, Some err) \<Rightarrow> Some (s\<lparr>y_driver := DRet (Some err)\<rparr>)
      | (WFail err, None) \<Rightarrow> Some (s\<lparr>y_driver := DRet (Some err)\<rparr>)
      | (WDone, None) \<Rightarrow>
          (case Flush L (y_db s) (y_bl s) of
             (d, bl, err) \<Rightarrow>
               Some (s\<lparr>y_db := d, y_bl := bl, y_driver := (if err = None then DSweep else DRet err)\<rparr>)))"

definition sweep_start :: "'e lmdb_ops \<Rightarrow> sync_lib \<Rightarrow> 'e syncer \<Rightarrow> 'e syncer option" where
  "sweep_start L E s =
     (case MissingCodeHashes L (lib_kc E) (y_db s) of
        None \<Rightarrow> None
      | Some (Inl err) \<Rightarrow> Some (s\<lparr>y_driver := DRet (Some err)\<rparr>)
      | Some (Inr missing) \<Rightarrow> Some (s\<lparr>y_driver := DCodes missing\<rparr>))"

fun sweep_put :: "'e lmdb_ops \<Rightarrow> 'e db \<Rightarrow> baseline \<Rightarrow> hash list \<Rightarrow> bytes list \<Rightarrow> 'e bl_result" where
  "sweep_put L d bl batch [] = (d, bl, None)"
| "sweep_put L d bl [] (blob # blobs) = (d, bl, Some (Panic ''index out of range''))"
| "sweep_put L d bl (h # batch) (blob # blobs) =
     (case bl_Code L d bl h blob of
        (d', bl', Some err) \<Rightarrow> (d', bl', Some err)
      | (d', bl', None) \<Rightarrow> sweep_put L d' bl' batch blobs)"

fun is_panic :: "error option \<Rightarrow> bool" where
  "is_panic (Some (Panic _)) = True"
| "is_panic _ = False"

definition sweep_codes :: "'e lmdb_ops \<Rightarrow> sync_lib \<Rightarrow> code_reply \<Rightarrow> hash list \<Rightarrow> 'e syncer \<Rightarrow> 'e syncer" where
  "sweep_codes L E reply missing s =
     (case reply of
        Inl err \<Rightarrow> s\<lparr>y_driver := DRet (Some err)\<rparr>
      | Inr blobs \<Rightarrow>
          (case sweep_put L (y_db s) (y_bl s) (take (lib_maxCode E) missing) blobs of
             (d, bl, err) \<Rightarrow>
               s\<lparr>y_db := d, y_bl := bl, y_crash := is_panic err,
                 y_driver := (if err = None then DCodes (drop (lib_maxCode E) missing) else DRet err)\<rparr>))"

definition driver_exec :: "'e lmdb_ops \<Rightarrow> sync_lib \<Rightarrow> sync_cfg \<Rightarrow> 'e syncer \<Rightarrow> 'e syncer option" where
  "driver_exec L E cfg s =
     (case y_driver s of
        DPhase1 \<Rightarrow> end_phase1 s
      | DBarrier \<Rightarrow> enqueue cfg barrier_bundle (s\<lparr>y_driver := DWait\<rparr>)
      | DWait \<Rightarrow>
          (case y_reply s of
             None \<Rightarrow> None
           | Some None \<Rightarrow> Some (s\<lparr>y_reply := None, y_driver := DScan None\<rparr>)
           | Some (Some err) \<Rightarrow> Some (s\<lparr>y_reply := None, y_driver := DClose (Some err)\<rparr>))
      | DScan after \<Rightarrow> Some (scan_queue L after s)
      | DSpawn rows lst \<Rightarrow> spawn_task cfg rows lst s
      | DJoin \<Rightarrow>
          (if list_ex (\<lambda>t. task_running (t_pc t)) (y_tasks s) then None
           else Some (s\<lparr>y_driver := DClose (y_gerr s)\<rparr>))
      | DClose segErr \<Rightarrow> Some (s\<lparr>y_closed := True, y_driver := DWriter segErr\<rparr>)
      | DWriter segErr \<Rightarrow> end_writer L segErr s
      | DSweep \<Rightarrow> sweep_start L E s
      | DCodes missing \<Rightarrow> (if missing = [] then Some (s\<lparr>y_driver := DFinish\<rparr>) else None)
      | DFinish \<Rightarrow>
          (case Finish L (y_db s) (y_bl s) of (d, bl, err) \<Rightarrow> Some (s\<lparr>y_db := d, y_bl := bl, y_driver := DRet err\<rparr>))
      | DRet _ \<Rightarrow> None)"

definition driver_cancel :: "'e syncer \<Rightarrow> 'e syncer option" where
  "driver_cancel s =
     (if y_cancel s \<and> (y_driver s = DBarrier \<or> y_driver s = DWait)
      then Some (s\<lparr>y_driver := DClose (Some ErrCanceled)\<rparr>) else None)"

definition sync_exec ::
  "'e lmdb_ops \<Rightarrow> sync_lib \<Rightarrow> sync_cfg \<Rightarrow> sync_act \<Rightarrow> 'e syncer \<Rightarrow> 'e syncer option" where
  "sync_exec L E cfg act s =
     (if y_crash s then None
      else case act of
        ACancel \<Rightarrow> Some (s\<lparr>y_cancel := True\<rparr>)
      | AWriter \<Rightarrow> writer_exec L s
      | AStart \<Rightarrow>
          (if length (filter (\<lambda>p. seg_running (snd p)) (y_segs s)) < workers cfg
           then map_option (\<lambda>segs. s\<lparr>y_segs := segs\<rparr>) (start_first (y_segs s)) else None)
      | ASeg i sa \<Rightarrow> seg_step E cfg i sa s
      | ATask i ta \<Rightarrow> task_step L E cfg i ta s
      | ADriver \<Rightarrow> driver_exec L E cfg s
      | ADriverCancel \<Rightarrow> driver_cancel s
      | ACodes reply \<Rightarrow>
          (case y_driver s of
             DCodes missing \<Rightarrow> (if missing = [] then None else Some (sweep_codes L E reply missing s))
           | _ \<Rightarrow> None))"

subsubsection \<open>The start\<close>

fun seg_tasks :: "'e lmdb_ops \<Rightarrow> 'e db \<Rightarrow> bytes \<Rightarrow> nat list \<Rightarrow> error + (nat \<times> seg_pc) list" where
  "seg_tasks L d bm [] = Inr []"
| "seg_tasks L d bm (seg # segs) =
     (if seg_bit bm seg then seg_tasks L d bm segs
      else case MaxBaseAccountWithPrefix L d (of_nat seg) of
        Inl err \<Rightarrow> Inl err
      | Inr h \<Rightarrow>
          (case seg_tasks L d bm segs of
             Inl err \<Rightarrow> Inl err
           | Inr tasks \<Rightarrow>
               Inr ((seg, SegWait (case h of None \<Rightarrow> None | Some x \<Rightarrow> incKey (be_bytes 32 x))) # tasks)))"

definition new_syncer :: "'e db \<Rightarrow> baseline \<Rightarrow> bytes \<Rightarrow> (nat \<times> seg_pc) list \<Rightarrow> 'e syncer" where
  "new_syncer d bl bm tasks = \<lparr>y_db = d, y_bl = bl, y_bitmap = bm, y_writes = [], y_closed = False,
     y_writer = WRun, y_reply = None, y_claims = [], y_segs = tasks, y_tasks = [], y_driver = DPhase1,
     y_gerr = None, y_cancel = False, y_crash = False\<rparr>"

definition run_start :: "'e lmdb_ops \<Rightarrow> sync_cfg \<Rightarrow> 'e db \<Rightarrow> 'e db \<times> (error + 'e syncer)" where
  "run_start L cfg d =
     (case NewBaseline L d (cf_height cfg) of
        (d1, Inl err) \<Rightarrow> (d1, Inl err)
      | (d1, Inr bl) \<Rightarrow>
          (case BaselineProgress L d1 of
             Inl err \<Rightarrow> (d1, Inl err)
           | Inr prog \<Rightarrow>
               (let bm = (case prog of None \<Rightarrow> replicate 32 0 | Some p \<Rightarrow> p)
                in if length bm \<noteq> 32 then (d1, Inl (ErrBadLength (length bm)))
                   else case seg_tasks L d1 bm [0..<256] of
                     Inl err \<Rightarrow> (d1, Inl err)
                   | Inr tasks \<Rightarrow> (d1, Inr (new_syncer d1 bl bm tasks)))))"

text \<open>A schedule: the actions one after the other; \<open>None\<close> if one of them is not enabled.\<close>

fun sync_run :: "'e lmdb_ops \<Rightarrow> sync_lib \<Rightarrow> sync_cfg \<Rightarrow> sync_act list \<Rightarrow> 'e syncer \<Rightarrow> 'e syncer option" where
  "sync_run L E cfg [] s = Some s"
| "sync_run L E cfg (a # as) s =
     (case sync_exec L E cfg a s of None \<Rightarrow> None | Some s' \<Rightarrow> sync_run L E cfg as s')"

end
