(* ===== verification/SyncSpec.thy ===== *)
theory SyncSpec
  imports Sync
begin

text \<open>
  What the loader of \<^verbatim>\<open>src/follower/sync/sync.go\<close> is given and what it must leave behind. The tries are a
  parameter \<open>T\<close> (the leaves of the trie with a root, ascending); \<open>honest\<close> says what the client's
  verification of range proofs and code hashes guarantees of an answer. \<open>loading\<close> is what holds of the
  rows of the store at every moment: every row is the trie's, an account row without a queue row
  has all its slots, and the account rows of a segment have no gap below the greatest. The writer's
  work is a sequence of events on the rows, and \<open>evs_ok\<close> says that each of them keeps \<open>loading\<close>.
\<close>

type_synonym tries = "hash \<Rightarrow> leafs"
type_synonym rows = "row_key \<rightharpoonup> bytes"

subsection \<open>Tries and answers\<close>

definition keys_of :: "leafs \<Rightarrow> bytes set" where
  "keys_of ls = fst ` set ls"

definition tries_ok :: "tries \<Rightarrow> bool" where
  "tries_ok T \<longleftrightarrow> (\<forall>r. sorted_wrt (<) (map fst (T r)) \<and> (\<forall>k \<in> keys_of (T r). length k = 32))"

definition from_key :: "bytes \<Rightarrow> leafs \<Rightarrow> leafs" where
  "from_key start ls = filter (\<lambda>p. start \<le> fst p) ls"

text \<open>A verified range: a run of leaves from the start on, and the flag tells whether it is the last one.\<close>

definition honest_leafs :: "leafs \<Rightarrow> bytes \<Rightarrow> leafs_reply \<Rightarrow> bool" where
  "honest_leafs all start reply \<longleftrightarrow>
     (case reply of
        Inl _ \<Rightarrow> True
      | Inr (ls, has_more) \<Rightarrow>
          ls = take (length ls) (from_key start all) \<and> (has_more \<longleftrightarrow> length ls < length (from_key start all)))"

definition honest_code :: "(bytes \<Rightarrow> hash) \<Rightarrow> hash list \<Rightarrow> code_reply \<Rightarrow> bool" where
  "honest_code kc hashes reply \<longleftrightarrow> (case reply of Inl _ \<Rightarrow> True | Inr blobs \<Rightarrow> map kc blobs = hashes)"

definition honest_walk :: "leafs \<Rightarrow> rwalk \<Rightarrow> walk_act \<Rightarrow> bool" where
  "honest_walk all rw act \<longleftrightarrow>
     (case (act, rw_pc rw) of (RaLeafs reply, RReq start n) \<Rightarrow> honest_leafs all start reply | _ \<Rightarrow> True)"

definition honest_seg :: "sync_lib \<Rightarrow> leafs \<Rightarrow> seg_act \<Rightarrow> seg_pc \<Rightarrow> bool" where
  "honest_seg E all act pc \<longleftrightarrow>
     (case (act, pc) of
        (SaLeafs reply, SegReq start) \<Rightarrow> honest_leafs all start reply
      | (SaAccount i reply, SegHandle ls rows aft) \<Rightarrow>
          (case lib_account E (snd (ls ! i)) of
             Inl _ \<Rightarrow> True
           | Inr acc \<Rightarrow> honest_code (lib_kc E) [be_word (sa_CodeHash acc)] reply)
      | _ \<Rightarrow> True)"

definition honest_task :: "tries \<Rightarrow> task_act \<Rightarrow> stask \<Rightarrow> bool" where
  "honest_task T act t \<longleftrightarrow>
     (case (act, t_pc t) of
        (TaWarm wa, TWarm rw) \<Rightarrow> honest_walk (T (t_root t)) rw wa
      | (TaFan i wa, TFan rws) \<Rightarrow> i < length rws \<longrightarrow> honest_walk (T (t_root t)) (rws ! i) wa
      | _ \<Rightarrow> True)"

definition honest :: "sync_lib \<Rightarrow> sync_cfg \<Rightarrow> tries \<Rightarrow> sync_act \<Rightarrow> 'e syncer \<Rightarrow> bool" where
  "honest E cfg T act s \<longleftrightarrow>
     (case act of
        ASeg i sa \<Rightarrow> i < length (y_segs s) \<longrightarrow> honest_seg E (T (cf_root cfg)) sa (snd (y_segs s ! i))
      | ATask i ta \<Rightarrow> i < length (y_tasks s) \<longrightarrow> honest_task T ta (y_tasks s ! i)
      | ACodes reply \<Rightarrow>
          (case y_driver s of
             DCodes missing \<Rightarrow> honest_code (lib_kc E) (take (lib_maxCode E) missing) reply
           | _ \<Rightarrow> True)
      | _ \<Rightarrow> True)"

text \<open>The states a run can reach, whatever the schedule and the sizes of the answers.\<close>

inductive sync_reach :: "'e lmdb_ops \<Rightarrow> sync_lib \<Rightarrow> sync_cfg \<Rightarrow> tries \<Rightarrow> 'e syncer \<Rightarrow> 'e syncer \<Rightarrow> bool"
  for L E cfg T s0 where
  start: "sync_reach L E cfg T s0 s0"
| step: "sync_reach L E cfg T s0 s \<Longrightarrow> honest E cfg T act s \<Longrightarrow> sync_exec L E cfg act s = Some s'
     \<Longrightarrow> sync_reach L E cfg T s0 s'"

subsection \<open>The rows of a store under load\<close>

definition body :: "(bytes \<rightharpoonup> bytes) \<Rightarrow> rows" where
  "body m r = (case r of KMeta _ \<Rightarrow> None | _ \<Rightarrow> m (key_bytes r))"

definition trie_acct :: "sync_lib \<Rightarrow> leafs \<Rightarrow> hash \<Rightarrow> state_account option" where
  "trie_acct E ls h =
     (case map_of ls (be_bytes 32 h) of
        None \<Rightarrow> None
      | Some v \<Rightarrow> (case lib_account E v of Inl _ \<Rightarrow> None | Inr acc \<Rightarrow> Some acc))"

definition trie_slot :: "sync_lib \<Rightarrow> leafs \<Rightarrow> hash \<Rightarrow> hash option" where
  "trie_slot E ls k =
     (case map_of ls (be_bytes 32 k) of
        None \<Rightarrow> None
      | Some v \<Rightarrow>
          (case lib_split E v of
             Inl _ \<Rightarrow> None
           | Inr c \<Rightarrow> if length c \<le> 32 then Some (be_word c) else None))"

definition acc_in :: "rows \<Rightarrow> bytes \<Rightarrow> bool" where
  "acc_in R k \<longleftrightarrow> R (KBaseAccount (be_word k)) \<noteq> None"

definition slot_in :: "rows \<Rightarrow> hash \<Rightarrow> bytes \<Rightarrow> bool" where
  "slot_in R h k \<longleftrightarrow> R (KBaseSlot h (be_word k)) \<noteq> None"

definition slots_full :: "leafs \<Rightarrow> rows \<Rightarrow> hash \<Rightarrow> bool" where
  "slots_full ls R h \<longleftrightarrow> (\<forall>k \<in> keys_of ls. slot_in R h k)"

definition seg_full :: "leafs \<Rightarrow> rows \<Rightarrow> nat \<Rightarrow> bool" where
  "seg_full ls R seg \<longleftrightarrow> (\<forall>k \<in> keys_of ls. k ! 0 = of_nat seg \<longrightarrow> acc_in R k)"

definition account_rows_ok :: "sync_lib \<Rightarrow> leafs \<Rightarrow> rows \<Rightarrow> bool" where
  "account_rows_ok E ls R \<longleftrightarrow> (\<forall>h v. R (KBaseAccount h) = Some v \<longrightarrow>
     (\<exists>acc. trie_acct E ls h = Some acc \<and> v = EncodeAccount [] (account_row acc)))"

definition slot_rows_ok :: "sync_lib \<Rightarrow> tries \<Rightarrow> leafs \<Rightarrow> rows \<Rightarrow> bool" where
  "slot_rows_ok E T ls R \<longleftrightarrow> (\<forall>h k v. R (KBaseSlot h k) = Some v \<longrightarrow>
     (\<exists>acc x. trie_acct E ls h = Some acc \<and> has_storage E acc
        \<and> trie_slot E (T (sa_Root acc)) k = Some x \<and> v = be_bytes 32 x))"

definition queue_rows_ok :: "sync_lib \<Rightarrow> leafs \<Rightarrow> rows \<Rightarrow> bool" where
  "queue_rows_ok E ls R \<longleftrightarrow> (\<forall>h v. R (KQueue h) = Some v \<longrightarrow>
     (\<exists>acc. trie_acct E ls h = Some acc \<and> has_storage E acc \<and> v = be_bytes 32 (sa_Root acc)))"

definition stored :: "sync_lib \<Rightarrow> tries \<Rightarrow> leafs \<Rightarrow> rows \<Rightarrow> hash \<Rightarrow> bool" where
  "stored E T ls R h \<longleftrightarrow> (\<forall>acc. trie_acct E ls h = Some acc \<longrightarrow> has_storage E acc \<longrightarrow>
     slots_full (T (sa_Root acc)) R h)"

definition dequeued_ok :: "sync_lib \<Rightarrow> tries \<Rightarrow> leafs \<Rightarrow> rows \<Rightarrow> bool" where
  "dequeued_ok E T ls R \<longleftrightarrow> (\<forall>h. R (KBaseAccount h) \<noteq> None \<longrightarrow> R (KQueue h) = None \<longrightarrow> stored E T ls R h)"

definition watermark_ok :: "leafs \<Rightarrow> rows \<Rightarrow> bool" where
  "watermark_ok ls R \<longleftrightarrow> (\<forall>k \<in> keys_of ls. \<forall>k' \<in> keys_of ls.
     k ! 0 = k' ! 0 \<longrightarrow> k' < k \<longrightarrow> acc_in R k \<longrightarrow> acc_in R k')"

definition codes_ok :: "(bytes \<Rightarrow> hash) \<Rightarrow> rows \<Rightarrow> bool" where
  "codes_ok kc R \<longleftrightarrow> (\<forall>c b. R (KCode c) = Some b \<longrightarrow> kc b = c)"

definition no_history :: "rows \<Rightarrow> bool" where
  "no_history R \<longleftrightarrow> (\<forall>a s b. R (KAccount a b) = None \<and> R (KSlot a s b) = None \<and> R (KDestruct a b) = None)"

definition loading :: "sync_lib \<Rightarrow> tries \<Rightarrow> hash \<Rightarrow> rows \<Rightarrow> bool" where
  "loading E T root R \<longleftrightarrow>
     account_rows_ok E (T root) R \<and> slot_rows_ok E T (T root) R \<and> queue_rows_ok E (T root) R
     \<and> dequeued_ok E T (T root) R \<and> watermark_ok (T root) R \<and> codes_ok (lib_kc E) R \<and> no_history R"

lemmas loading_defs =
  loading_def account_rows_ok_def slot_rows_ok_def queue_rows_ok_def dequeued_ok_def watermark_ok_def
  codes_ok_def no_history_def

text \<open>The progress row: the segments it marks are complete.\<close>

definition bits_ok :: "leafs \<Rightarrow> rows \<Rightarrow> bytes \<Rightarrow> bool" where
  "bits_ok ls R p \<longleftrightarrow> length p = 32 \<and> (\<forall>seg < 256. seg_bit p seg \<longrightarrow> seg_full ls R seg)"

subsection \<open>The writer's events\<close>

datatype sop =
    PCode hash bytes
  | PQueue hash hash
  | PAcct hash account
  | PSlot hash hash hash
  | PDequeue hash

datatype wev = EvOp sop | EvFin nat

fun sop_key :: "sop \<Rightarrow> row_key" where
  "sop_key (PCode c b) = KCode c"
| "sop_key (PQueue h r) = KQueue h"
| "sop_key (PAcct h a) = KBaseAccount h"
| "sop_key (PSlot h k x) = KBaseSlot h k"
| "sop_key (PDequeue h) = KQueue h"

fun sop_val :: "sop \<Rightarrow> bytes option" where
  "sop_val (PCode c b) = Some b"
| "sop_val (PQueue h r) = Some (be_bytes 32 r)"
| "sop_val (PAcct h a) = Some (EncodeAccount [] a)"
| "sop_val (PSlot h k x) = Some (be_bytes 32 x)"
| "sop_val (PDequeue h) = None"

definition sop_op :: "sop \<Rightarrow> bl_op" where
  "sop_op p = \<lparr>bl_k = key_bytes (sop_key p), bl_v = (case sop_val p of None \<Rightarrow> [] | Some v \<Rightarrow> v), bl_del = (sop_val p = None)\<rparr>"

fun apply_sops :: "blapply \<Rightarrow> sop list" where
  "apply_sops (ApplyAccount code codeHash hasStorage addrHash storageRoot row) =
     (case code of None \<Rightarrow> [] | Some c \<Rightarrow> [PCode codeHash c])
     @ (if hasStorage then [PQueue addrHash storageRoot] else []) @ [PAcct addrHash row]"
| "apply_sops (ApplySlots addrHash slots) = map (\<lambda>p. PSlot addrHash (fst p) (snd p)) slots"
| "apply_sops (ApplyDequeue addrHash) = [PDequeue addrHash]"

definition bundle_evs :: "wbundle \<Rightarrow> wev list" where
  "bundle_evs b = (case b_apply b of None \<Rightarrow> [] | Some a \<Rightarrow> map EvOp (apply_sops a))
     @ (if b_final b then [EvFin (nat (b_seg b))] else [])"

definition chan_evs :: "wbundle list \<Rightarrow> wev list" where
  "chan_evs bs = concat (map bundle_evs bs)"

fun ev_map :: "wev \<Rightarrow> rows \<Rightarrow> rows" where
  "ev_map (EvOp p) R = R(sop_key p := sop_val p)"
| "ev_map (EvFin seg) R = R"

definition evs_map :: "wev list \<Rightarrow> rows \<Rightarrow> rows" where
  "evs_map evs R = fold ev_map evs R"

fun sop_ok :: "sync_lib \<Rightarrow> tries \<Rightarrow> leafs \<Rightarrow> rows \<Rightarrow> sop \<Rightarrow> bool" where
  "sop_ok E T ls R (PCode c b) \<longleftrightarrow> lib_kc E b = c"
| "sop_ok E T ls R (PQueue h r) \<longleftrightarrow>
     (\<exists>acc. trie_acct E ls h = Some acc \<and> has_storage E acc \<and> r = sa_Root acc)"
| "sop_ok E T ls R (PAcct h a) \<longleftrightarrow>
     (\<exists>acc. trie_acct E ls h = Some acc \<and> a = account_row acc
        \<and> (has_storage E acc \<longrightarrow> R (KQueue h) \<noteq> None))
     \<and> (\<forall>k \<in> keys_of ls. k ! 0 = be_bytes 32 h ! 0 \<longrightarrow> k < be_bytes 32 h \<longrightarrow> acc_in R k)"
| "sop_ok E T ls R (PSlot h k x) \<longleftrightarrow>
     (\<exists>acc. trie_acct E ls h = Some acc \<and> has_storage E acc \<and> trie_slot E (T (sa_Root acc)) k = Some x)"
| "sop_ok E T ls R (PDequeue h) \<longleftrightarrow> stored E T ls R h"

fun ev_ok :: "sync_lib \<Rightarrow> tries \<Rightarrow> leafs \<Rightarrow> rows \<Rightarrow> wev \<Rightarrow> bool" where
  "ev_ok E T ls R (EvOp p) \<longleftrightarrow> sop_ok E T ls R p"
| "ev_ok E T ls R (EvFin seg) \<longleftrightarrow> seg < 256 \<and> seg_full ls R seg"

fun evs_ok :: "sync_lib \<Rightarrow> tries \<Rightarrow> leafs \<Rightarrow> rows \<Rightarrow> wev list \<Rightarrow> bool" where
  "evs_ok E T ls R [] \<longleftrightarrow> True"
| "evs_ok E T ls R (ev # evs) \<longleftrightarrow> ev_ok E T ls R ev \<and> evs_ok E T ls (ev_map ev R) evs"

end
