(* ===== verification/SyncStore.thy ===== *)
theory SyncStore
  imports SyncSpec
begin

text \<open>
  The writer of the loader keeps \<open>loading\<close>, of what is committed and of what is still buffered, event by
  event: whatever chunk of the work a flush commits, and wherever a crash cuts it, the rows in the
  database satisfy it, and the segments marked in the progress row are complete.
\<close>

subsection \<open>Rows only grow\<close>

definition grows :: "rows \<Rightarrow> rows \<Rightarrow> bool" where
  "grows R R' \<longleftrightarrow> (\<forall>h. R (KBaseAccount h) \<noteq> None \<longrightarrow> R' (KBaseAccount h) \<noteq> None)
     \<and> (\<forall>h k. R (KBaseSlot h k) \<noteq> None \<longrightarrow> R' (KBaseSlot h k) \<noteq> None)"

lemma grows_refl [simp]: "grows R R"
  by (simp add: grows_def)

lemma grows_trans: "grows R R' \<Longrightarrow> grows R' R'' \<Longrightarrow> grows R R''"
  by (simp add: grows_def)

lemma grows_in:
  assumes "grows R R'"
  shows "acc_in R k \<Longrightarrow> acc_in R' k" "slot_in R h k \<Longrightarrow> slot_in R' h k"
    "slots_full ls R h \<Longrightarrow> slots_full ls R' h" "seg_full ls R seg \<Longrightarrow> seg_full ls R' seg"
    "stored E T ls R h \<Longrightarrow> stored E T ls R' h"
  using assms
  by (auto simp: grows_def acc_in_def slot_in_def slots_full_def seg_full_def stored_def)

lemma ev_map_grows: "grows R (ev_map ev R)"
proof (cases ev)
  case (EvOp p)
  then show ?thesis by (cases p) (auto simp: grows_def)
qed simp

lemma evs_map_simps [simp]:
  "evs_map [] R = R" "evs_map (ev # evs) R = evs_map evs (ev_map ev R)"
  "evs_map (evs @ evs') R = evs_map evs' (evs_map evs R)"
  by (simp_all add: evs_map_def)

lemma evs_map_grows: "grows R (evs_map evs R)"
  by (induction evs arbitrary: R) (auto intro: grows_trans ev_map_grows)

lemma evs_ok_append [simp]:
  "evs_ok E T ls R (evs @ evs') \<longleftrightarrow> evs_ok E T ls R evs \<and> evs_ok E T ls (evs_map evs R) evs'"
  by (induction evs arbitrary: R) auto

lemma chan_evs_simps [simp]:
  "chan_evs [] = []" "chan_evs (b # bs) = bundle_evs b @ chan_evs bs" "chan_evs (bs @ bs') = chan_evs bs @ chan_evs bs'"
  by (simp_all add: chan_evs_def)

lemma bits_ok_grows: "bits_ok ls R p \<Longrightarrow> grows R R' \<Longrightarrow> bits_ok ls R' p"
  by (auto simp: bits_ok_def intro: grows_in)

subsection \<open>Every event keeps the rows right\<close>

lemma tries_okD:
  assumes "tries_ok T"
  shows "k \<in> keys_of (T r) \<Longrightarrow> length k = 32" "sorted_wrt (<) (map fst (T r))" "distinct (map fst (T r))"
  using assms strict_sorted_iff by (auto simp: tries_ok_def)

lemma key_word:
  assumes "tries_ok T" "k \<in> keys_of (T r)"
  shows "be_word k = h \<longleftrightarrow> k = be_bytes 32 (h :: hash)"
  using tries_okD(1) [OF assms] by (auto simp: hashc.dec_enc be_bytes_be_word)

lemma sop_loading:
  assumes T: "tries_ok T" and R: "loading E T root R" and p: "sop_ok E T (T root) R p"
  shows "loading E T root (ev_map (EvOp p) R)"
proof -
  have g: "grows R (ev_map (EvOp p) R)" by (rule ev_map_grows)
  note st = grows_in(5) [OF g]
  have ai: "acc_in (ev_map (EvOp p) R) k \<longleftrightarrow> acc_in R k \<or> (\<exists>h a. p = PAcct h a \<and> k = be_bytes 32 h)"
    if "k \<in> keys_of (T root)" for k
    using key_word [OF T that] by (cases p) (auto simp: acc_in_def)
  have "account_rows_ok E (T root) (ev_map (EvOp p) R)"
    using R p by (cases p) (auto simp: loading_def account_rows_ok_def)
  moreover have "slot_rows_ok E T (T root) (ev_map (EvOp p) R)"
    using R p by (cases p) (auto simp: loading_def slot_rows_ok_def)
  moreover have "queue_rows_ok E (T root) (ev_map (EvOp p) R)"
    using R p by (cases p) (auto simp: loading_def queue_rows_ok_def)
  moreover have "dequeued_ok E T (T root) (ev_map (EvOp p) R)"
    using R p st unfolding dequeued_ok_def
    by (cases p) (auto simp: loading_def dequeued_ok_def stored_def [of _ _ _ R] split: if_splits)
  moreover have "watermark_ok (T root) (ev_map (EvOp p) R)"
    unfolding watermark_ok_def
  proof (intro ballI impI)
    fix k k' assume k: "k \<in> keys_of (T root)" "k' \<in> keys_of (T root)" "k ! 0 = k' ! 0" "k' < k"
      and a: "acc_in (ev_map (EvOp p) R) k"
    from a have "acc_in R k'"
      unfolding ai [OF k(1)] using R p k by (auto simp: loading_def watermark_ok_def)
    with grows_in(1) [OF g] show "acc_in (ev_map (EvOp p) R) k'" .
  qed
  moreover have "codes_ok (lib_kc E) (ev_map (EvOp p) R)"
    using R p by (cases p) (auto simp: loading_def codes_ok_def)
  moreover have "no_history (ev_map (EvOp p) R)"
    using R by (cases p) (auto simp: loading_def no_history_def)
  ultimately show ?thesis by (simp add: loading_def)
qed

subsection \<open>Buffer and database\<close>

lemma sop_op_ok: "bl_ok (sop_op p)"
  by (cases p) (auto simp: bl_ok_def sop_op_def length_EncodeAccount)

lemma body_sop: "body (bl_map (sop_op p) m) = ev_map (EvOp p) (body m)"
proof
  fix r show "body (bl_map (sop_op p) m) r = ev_map (EvOp p) (body m) r"
    by (cases p; cases r) (auto simp: body_def bl_map_def sop_op_def)
qed

lemma body_meta [simp]: "body (m(key_bytes (KMeta t) \<mapsto> v)) = body m" "body (put_progress p m) = body m"
  by (auto simp: body_def put_progress_def fun_eq_iff split: row_key.splits option.splits)

definition cur_rows :: "('e \<Rightarrow> bytes \<rightharpoonup> bytes) \<Rightarrow> 'e db \<Rightarrow> baseline \<Rightarrow> rows" where
  "cur_rows kv d bl = body (pending_map kv d bl)"

definition load_store ::
  "('e \<Rightarrow> bytes \<rightharpoonup> bytes) \<Rightarrow> sync_lib \<Rightarrow> tries \<Rightarrow> hash \<Rightarrow> u64 \<Rightarrow> 'e db \<Rightarrow> baseline \<Rightarrow> bool" where
  "load_store kv E T root S d bl \<longleftrightarrow>
     db_ok kv S d \<and> list_all bl_ok (bl_ops bl)
     \<and> loading E T root (body (kv (env d)))
     \<and> (\<forall>p. kv (env d) MetaBaselineProgress = Some p \<longrightarrow> bits_ok (T root) (body (kv (env d))) p)
     \<and> loading E T root (cur_rows kv d bl)
     \<and> grows (body (kv (env d))) (cur_rows kv d bl)
     \<and> (\<forall>p. bl_progress bl = Some p \<longrightarrow> bits_ok (T root) (cur_rows kv d bl) p)"

lemma put_progress_rows:
  "put_progress p m (key_bytes (KMeta 4)) = (case p of None \<Rightarrow> m (key_bytes (KMeta 4)) | Some v \<Rightarrow> Some v)"
  "t \<noteq> 4 \<Longrightarrow> put_progress p m (key_bytes (KMeta t)) = m (key_bytes (KMeta t))"
  by (auto simp: put_progress_def split: option.splits)

lemma put_progress_wf: "wf_rows m \<Longrightarrow> wf_rows (put_progress p m)"
  by (auto simp: put_progress_def intro!: wf_rows_upd split: option.splits)

text \<open>What a flush makes of the store: the buffered rows, and the progress row.\<close>

lemma flushed_store:
  assumes st: "load_store kv E T root S d bl" and ok: "list_all bl_ok ops"
    and e: "kv e = put_progress (bl_progress bl) (bl_contents ops (kv (env d)))"
    and R: "R = body (bl_contents ops (kv (env d)))" "loading E T root R" "grows (cur_rows kv d bl) R"
  shows "load_store kv E T root S (d\<lparr>env := e\<rparr>) (bl\<lparr>bl_ops := [], bl_progress := None\<rparr>)"
    and "cur_rows kv (d\<lparr>env := e\<rparr>) (bl\<lparr>bl_ops := [], bl_progress := None\<rparr>) = R"
proof -
  let ?bl = "bl\<lparr>bl_ops := [], bl_progress := None\<rparr>"
  have be: "body (kv e) = R" by (simp add: e R)
  show cur: "cur_rows kv (d\<lparr>env := e\<rparr>) ?bl = R" by (simp add: cur_rows_def pending_map_def be)
  have meta: "kv e (key_bytes (KMeta t)) = kv (env d) (key_bytes (KMeta t))" if "t \<noteq> 4" for t
    using that ok by (simp add: e put_progress_rows bl_contents_meta)
  have "db_ok kv S (d\<lparr>env := e\<rparr>)"
    using st ok meta [of 1] meta [of 2]
    by (auto simp: load_store_def db_ok_def key_simps e intro!: put_progress_wf bl_contents_wf)
  moreover have "bits_ok (T root) R p" if p: "kv e MetaBaselineProgress = Some p" for p
  proof (cases "bl_progress bl")
    case None
    with p ok have "kv (env d) MetaBaselineProgress = Some p"
      by (simp add: e key_simps put_progress_rows bl_contents_meta)
    with st R(3) show ?thesis by (auto simp: load_store_def intro: bits_ok_grows grows_trans)
  next
    case (Some v)
    with p have "v = p" by (simp add: e key_simps put_progress_rows)
    with Some st R(3) show ?thesis by (auto simp: load_store_def intro: bits_ok_grows)
  qed
  ultimately show "load_store kv E T root S (d\<lparr>env := e\<rparr>) ?bl"
    using R(2) by (simp add: load_store_def cur be)
qed

context healthy_lmdb
begin

lemma Flush_store:
  assumes "load_store kv E T root S d bl"
  shows "\<exists>d' bl'. Flush L d bl = (d', bl', None) \<and> load_store kv E T root S d' bl'
    \<and> cur_rows kv d' bl' = cur_rows kv d bl \<and> body (kv (env d')) = cur_rows kv d bl"
proof -
  from assms have ok: "list_all bl_ok (bl_ops bl)" by (simp add: load_store_def)
  from Flush_kv [OF ok, of d] obtain e where
    f: "Flush L d bl = (d\<lparr>env := e\<rparr>, bl\<lparr>bl_ops := [], bl_progress := None\<rparr>, None)"
    and e: "kv e = put_progress (bl_progress bl) (bl_contents (bl_ops bl) (kv (env d)))"
    by (auto simp: pending_map_def)
  have R: "cur_rows kv d bl = body (bl_contents (bl_ops bl) (kv (env d)))" "loading E T root (cur_rows kv d bl)"
    using assms by (simp_all add: cur_rows_def pending_map_def load_store_def)
  from flushed_store [OF assms ok e R grows_refl] f R show ?thesis by (auto simp: e)
qed

lemma push_store:
  assumes T: "tries_ok T" and st: "load_store kv E T root S d bl" and p: "sop_ok E T (T root) (cur_rows kv d bl) p"
  shows "\<exists>d' bl'. bl_push L d bl (sop_op p) = (d', bl', None) \<and> load_store kv E T root S d' bl'
    \<and> cur_rows kv d' bl' = ev_map (EvOp p) (cur_rows kv d bl)"
proof -
  let ?bl = "bl\<lparr>bl_ops := bl_ops bl @ [sop_op p]\<rparr>" and ?R = "ev_map (EvOp p) (cur_rows kv d bl)"
  have ok: "list_all bl_ok (bl_ops ?bl)" using st sop_op_ok by (simp add: load_store_def)
  have R: "?R = body (bl_contents (bl_ops ?bl) (kv (env d)))"
    by (simp add: cur_rows_def pending_map_def body_sop)
  have ld: "loading E T root ?R" using sop_loading [OF T _ p] st by (simp add: load_store_def)
  have g: "grows (cur_rows kv d bl) ?R" by (rule ev_map_grows)
  show ?thesis
  proof (cases "baselineChunk \<le> length (bl_ops ?bl)")
    case True
    from Flush_kv [OF ok, of d] obtain e where
      f: "Flush L d ?bl = (d\<lparr>env := e\<rparr>, bl\<lparr>bl_ops := [], bl_progress := None\<rparr>, None)"
      and e: "kv e = put_progress (bl_progress bl) (bl_contents (bl_ops ?bl) (kv (env d)))"
      by (auto simp: pending_map_def)
    have push: "bl_push L d bl (sop_op p) = (d\<lparr>env := e\<rparr>, bl\<lparr>bl_ops := [], bl_progress := None\<rparr>, None)"
      using True f by (simp add: bl_push_def Let_def)
    show ?thesis using push flushed_store [OF st ok e R ld g] by (intro exI conjI)
  next
    case False
    then have push: "bl_push L d bl (sop_op p) = (d, ?bl, None)" by (simp add: bl_push_def Let_def)
    have cur: "cur_rows kv d ?bl = ?R" using R by (simp add: cur_rows_def pending_map_def)
    have "load_store kv E T root S d ?bl"
      using st ok ld g unfolding load_store_def cur by (auto intro: bits_ok_grows grows_trans)
    with push cur show ?thesis by (intro exI conjI)
  qed
qed

end

subsection \<open>The bitmap\<close>

lemma seg_bit_iff: "seg_bit bm seg \<longleftrightarrow> bit (bm ! (seg div 8)) (seg mod 8)"
  by (simp add: seg_bit_def push_bit_of_1 and_exp_eq_0_iff_not_bit)

lemma seg_bit_set:
  assumes "length bm = 32" and "seg < 256"
  shows "seg_bit (set_seg_bit bm seg) seg' \<longleftrightarrow> seg' = seg \<or> seg_bit bm seg'"
proof (cases "seg' div 8 = seg div 8")
  case True
  have "seg div 8 < 32" using assms(2) by simp
  with True assms(1) have "seg_bit (set_seg_bit bm seg) seg' \<longleftrightarrow> seg' mod 8 = seg mod 8 \<or> seg_bit bm seg'"
    by (auto simp: seg_bit_iff set_seg_bit_def bit_or_iff push_bit_of_1 bit_exp_iff)
  moreover have "seg' mod 8 = seg mod 8 \<longleftrightarrow> seg' = seg" using True by (metis div_mult_mod_eq)
  ultimately show ?thesis by simp
next
  case False
  then show ?thesis by (auto simp: seg_bit_iff set_seg_bit_def)
qed

lemma bits_ok_set:
  "bits_ok ls R bm \<Longrightarrow> seg < 256 \<Longrightarrow> seg_full ls R seg \<Longrightarrow> bits_ok ls R (set_seg_bit bm seg)"
  by (auto simp: bits_ok_def seg_bit_set) (simp add: set_seg_bit_def)

subsection \<open>The writer\<close>

definition store_inv ::
  "('e \<Rightarrow> bytes \<rightharpoonup> bytes) \<Rightarrow> sync_lib \<Rightarrow> tries \<Rightarrow> hash \<Rightarrow> u64 \<Rightarrow> 'e syncer \<Rightarrow> bool" where
  "store_inv kv E T root S s \<longleftrightarrow>
     load_store kv E T root S (y_db s) (y_bl s)
     \<and> bits_ok (T root) (cur_rows kv (y_db s) (y_bl s)) (y_bitmap s)
     \<and> evs_ok E T (T root) (cur_rows kv (y_db s) (y_bl s)) (chan_evs (y_writes s))
     \<and> (\<forall>err. y_writer s \<noteq> WFail err)"

text \<open>What the rows will be once the writer has worked off the channel.\<close>

definition fut_rows :: "('e \<Rightarrow> bytes \<rightharpoonup> bytes) \<Rightarrow> 'e syncer \<Rightarrow> rows" where
  "fut_rows kv s = evs_map (chan_evs (y_writes s)) (cur_rows kv (y_db s) (y_bl s))"

lemma bl_sops:
  "bl_Code L d bl c b = bl_push L d bl (sop_op (PCode c b))"
  "bl_QueueStorage L d bl h r = bl_push L d bl (sop_op (PQueue h r))"
  "bl_BaseAccount L d bl h a = bl_push L d bl (sop_op (PAcct h a))"
  "bl_BaseSlot L d bl h k x = bl_push L d bl (sop_op (PSlot h k x))"
  "bl_DequeueStorage L d bl h = bl_push L d bl (sop_op (PDequeue h))"
  by (simp_all add: bl_Code_def bl_QueueStorage_def bl_BaseAccount_def bl_BaseSlot_def bl_DequeueStorage_def
      bl_add_def bl_addDel_def sop_op_def key_simps)

context healthy_lmdb
begin

lemma apply_slots_store:
  assumes "tries_ok T"
  shows "load_store kv E T root S d bl \<Longrightarrow>
    evs_ok E T (T root) (cur_rows kv d bl) (map EvOp (apply_sops (ApplySlots h slots))) \<Longrightarrow>
    \<exists>d' bl'. apply_slots L d bl h slots = (d', bl', None) \<and> load_store kv E T root S d' bl'
      \<and> cur_rows kv d' bl' = evs_map (map EvOp (apply_sops (ApplySlots h slots))) (cur_rows kv d bl)"
proof (induction slots arbitrary: d bl)
  case (Cons p slots)
  from push_store [OF assms Cons.prems(1), of "PSlot h (fst p) (snd p)"] Cons.prems(2) obtain d1 bl1 where
    "bl_push L d bl (sop_op (PSlot h (fst p) (snd p))) = (d1, bl1, None)" "load_store kv E T root S d1 bl1"
    and cur: "cur_rows kv d1 bl1 = ev_map (EvOp (PSlot h (fst p) (snd p))) (cur_rows kv d bl)"
    by auto
  moreover have "evs_ok E T (T root) (cur_rows kv d1 bl1) (map EvOp (apply_sops (ApplySlots h slots)))"
    using Cons.prems(2) by (simp add: cur del: ev_map.simps)
  ultimately obtain d' bl' where "apply_slots L d1 bl1 h slots = (d', bl', None)" "load_store kv E T root S d' bl'"
    "cur_rows kv d' bl' = evs_map (map EvOp (apply_sops (ApplySlots h slots))) (cur_rows kv d1 bl1)"
    using Cons.IH by blast
  with \<open>bl_push _ _ _ _ = _\<close> cur show ?case by (simp add: bl_sops del: ev_map.simps)
qed simp

lemma apply_run_store:
  assumes T: "tries_ok T" and st: "load_store kv E T root S d bl"
    and evs: "evs_ok E T (T root) (cur_rows kv d bl) (map EvOp (apply_sops a))"
  shows "\<exists>d' bl'. apply_run L d bl a = (d', bl', None) \<and> load_store kv E T root S d' bl'
    \<and> cur_rows kv d' bl' = evs_map (map EvOp (apply_sops a)) (cur_rows kv d bl)"
proof (cases a)
  case (ApplyAccount code c hs h r row)
  let ?e1 = "case code of None \<Rightarrow> [] | Some b \<Rightarrow> [EvOp (PCode c b)]" and ?e2 = "if hs then [EvOp (PQueue h r)] else []"
  have evs': "evs_ok E T (T root) (cur_rows kv d bl) (?e1 @ ?e2 @ [EvOp (PAcct h row)])"
    "map EvOp (apply_sops a) = ?e1 @ ?e2 @ [EvOp (PAcct h row)]"
    using evs by (auto simp: ApplyAccount split: option.splits)
  have "\<exists>d1 bl1. (case code of None \<Rightarrow> (d, bl, None) | Some b \<Rightarrow> bl_Code L d bl c b) = (d1, bl1, None)
      \<and> load_store kv E T root S d1 bl1 \<and> cur_rows kv d1 bl1 = evs_map ?e1 (cur_rows kv d bl)"
    using st push_store [OF T st, of "PCode c (the code)"] evs' by (cases code) (auto simp: bl_sops)
  then obtain d1 bl1 where s1: "(case code of None \<Rightarrow> (d, bl, None) | Some b \<Rightarrow> bl_Code L d bl c b) = (d1, bl1, None)"
    "load_store kv E T root S d1 bl1" "cur_rows kv d1 bl1 = evs_map ?e1 (cur_rows kv d bl)" by blast
  have "\<exists>d2 bl2. (if hs then bl_QueueStorage L d1 bl1 h r else (d1, bl1, None)) = (d2, bl2, None)
      \<and> load_store kv E T root S d2 bl2 \<and> cur_rows kv d2 bl2 = evs_map ?e2 (cur_rows kv d1 bl1)"
    using s1 push_store [OF T s1(2), of "PQueue h r"] evs' by (auto simp: bl_sops)
  then obtain d2 bl2 where s2: "(if hs then bl_QueueStorage L d1 bl1 h r else (d1, bl1, None)) = (d2, bl2, None)"
    "load_store kv E T root S d2 bl2" "cur_rows kv d2 bl2 = evs_map ?e2 (cur_rows kv d1 bl1)" by blast
  have "sop_ok E T (T root) (cur_rows kv d2 bl2) (PAcct h row)" using evs'(1) by (simp only: s1 s2 evs_ok_append) simp
  from push_store [OF T s2(2) this] show ?thesis
    using s1 s2 unfolding evs'(2) by (simp add: ApplyAccount bl_sops)
next
  case (ApplySlots h slots)
  with apply_slots_store [OF T st] evs show ?thesis by simp
next
  case (ApplyDequeue h)
  with push_store [OF T st, of "PDequeue h"] evs show ?thesis by (auto simp: bl_sops)
qed

lemma SetProgress_store:
  "load_store kv E T root S d bl \<Longrightarrow> bits_ok (T root) (cur_rows kv d bl) bm \<Longrightarrow>
   load_store kv E T root S d (SetProgress bl bm) \<and> cur_rows kv d (SetProgress bl bm) = cur_rows kv d bl"
  by (simp add: load_store_def cur_rows_def pending_map_def SetProgress_def)

text \<open>The writer takes a bundle: the rows to come do not change.\<close>

lemma write_bundle_store:
  assumes T: "tries_ok T" and inv: "store_inv kv E T root S s" and w: "y_writes s = b # bs"
  shows "store_inv kv E T root S (write_bundle L b (s\<lparr>y_writes := bs\<rparr>))"
    and "fut_rows kv (write_bundle L b (s\<lparr>y_writes := bs\<rparr>)) = fut_rows kv s"
    and "\<exists>d bl bm r. write_bundle L b (s\<lparr>y_writes := bs\<rparr>) = s\<lparr>y_db := d, y_bl := bl, y_bitmap := bm, y_reply := r, y_writes := bs\<rparr>"
proof -
  let ?R = "cur_rows kv (y_db s) (y_bl s)"
  let ?ops = "case b_apply b of None \<Rightarrow> [] | Some a \<Rightarrow> map EvOp (apply_sops a)"
  let ?fin = "if b_final b then [EvFin (nat (b_seg b))] else []"
  from inv have st: "load_store kv E T root S (y_db s) (y_bl s)" and bits: "bits_ok (T root) ?R (y_bitmap s)"
    and evs: "evs_ok E T (T root) ?R (?ops @ ?fin @ chan_evs bs)"
    by (auto simp: store_inv_def w bundle_evs_def)
  have "\<exists>d bl. (case b_apply b of None \<Rightarrow> (y_db s, y_bl s, None) | Some a \<Rightarrow> apply_run L (y_db s) (y_bl s) a) = (d, bl, None)
      \<and> load_store kv E T root S d bl \<and> cur_rows kv d bl = evs_map ?ops ?R"
    using st evs apply_run_store [OF T st] by (cases "b_apply b") auto
  then obtain d bl where a: "(case b_apply b of None \<Rightarrow> (y_db s, y_bl s, None) | Some a \<Rightarrow> apply_run L (y_db s) (y_bl s) a) = (d, bl, None)"
    "load_store kv E T root S d bl" "cur_rows kv d bl = evs_map ?ops ?R" by blast
  let ?bm = "if b_final b then set_seg_bit (y_bitmap s) (nat (b_seg b)) else y_bitmap s"
  let ?bl = "if b_final b then SetProgress bl ?bm else bl"
  have "bits_ok (T root) (cur_rows kv d bl) (y_bitmap s)" using bits evs_map_grows unfolding a(3) by (rule bits_ok_grows)
  then have bits': "bits_ok (T root) (cur_rows kv d bl) ?bm" using evs a(3) by (auto intro: bits_ok_set)
  with SetProgress_store [OF a(2) bits'] a have b: "load_store kv E T root S d ?bl" "cur_rows kv d ?bl = cur_rows kv d bl" by auto
  from Flush_store [OF b(1)] obtain d' bl' where f: "Flush L d ?bl = (d', bl', None)" "load_store kv E T root S d' bl'"
    "cur_rows kv d' bl' = cur_rows kv d bl" by (auto simp: b)
  have evs': "evs_ok E T (T root) (cur_rows kv d bl) (chan_evs bs)" using evs a(3) by (auto split: if_splits)
  have fut: "evs_map (chan_evs bs) (cur_rows kv d bl) = fut_rows kv s"
    by (auto simp: fut_rows_def w bundle_evs_def a(3))
  have eq: "write_bundle L b (s\<lparr>y_writes := bs\<rparr>) =
      (if b_barrier b then s\<lparr>y_db := d', y_bl := bl', y_bitmap := ?bm, y_reply := Some None, y_writes := bs\<rparr>
       else s\<lparr>y_db := d, y_bl := ?bl, y_bitmap := ?bm, y_writes := bs\<rparr>)"
  proof -
    have "(case b_apply b of None \<Rightarrow> (y_db (s\<lparr>y_writes := bs\<rparr>), y_bl (s\<lparr>y_writes := bs\<rparr>), None)
        | Some a \<Rightarrow> apply_run L (y_db (s\<lparr>y_writes := bs\<rparr>)) (y_bl (s\<lparr>y_writes := bs\<rparr>)) a) = (d, bl, None)"
      using a(1) by (simp cong: option.case_cong)
    then show ?thesis unfolding write_bundle_def Let_def by (cases "b_barrier b"; cases "b_final b") (use f(1) in simp_all)
  qed
  show "store_inv kv E T root S (write_bundle L b (s\<lparr>y_writes := bs\<rparr>))"
    using inv b f bits' evs' unfolding eq by (auto simp: store_inv_def)
  show "fut_rows kv (write_bundle L b (s\<lparr>y_writes := bs\<rparr>)) = fut_rows kv s"
    using fut f b unfolding eq by (auto simp: fut_rows_def)
  show "\<exists>d bl bm r. write_bundle L b (s\<lparr>y_writes := bs\<rparr>) = s\<lparr>y_db := d, y_bl := bl, y_bitmap := bm, y_reply := r, y_writes := bs\<rparr>"
  proof (cases "b_barrier b")
    case True
    then show ?thesis unfolding eq by (intro exI [of _ d'] exI [of _ bl'] exI [of _ ?bm] exI [of _ "Some None"]) simp
  next
    case False
    have "s\<lparr>y_db := d, y_bl := ?bl, y_bitmap := ?bm, y_writes := bs\<rparr>
        = s\<lparr>y_db := d, y_bl := ?bl, y_bitmap := ?bm, y_reply := y_reply s, y_writes := bs\<rparr>" by simp
    with False show ?thesis unfolding eq by metis
  qed
qed

lemma sweep_put_store:
  assumes T: "tries_ok T"
  shows "load_store kv E T root S d bl \<Longrightarrow> map (lib_kc E) blobs = batch \<Longrightarrow>
    \<exists>d' bl'. sweep_put L d bl batch blobs = (d', bl', None) \<and> load_store kv E T root S d' bl'
      \<and> (\<forall>c \<in> set batch. cur_rows kv d' bl' (KCode c) \<noteq> None)
      \<and> (\<forall>r. cur_rows kv d bl r \<noteq> None \<longrightarrow> cur_rows kv d' bl' r \<noteq> None)
      \<and> (\<forall>r. (\<forall>c. r \<noteq> KCode c) \<longrightarrow> cur_rows kv d' bl' r = cur_rows kv d bl r)"
proof (induction blobs arbitrary: d bl batch)
  case (Cons b blobs)
  then obtain hs where batch: "batch = lib_kc E b # hs" "map (lib_kc E) blobs = hs" by auto
  from push_store [OF T Cons.prems(1), of "PCode (lib_kc E b) b"] obtain d1 bl1 where
    p: "bl_push L d bl (sop_op (PCode (lib_kc E b) b)) = (d1, bl1, None)" "load_store kv E T root S d1 bl1"
    "cur_rows kv d1 bl1 = ev_map (EvOp (PCode (lib_kc E b) b)) (cur_rows kv d bl)" by auto
  from Cons.IH [OF p(2) batch(2)] obtain d' bl' where
    IH: "sweep_put L d1 bl1 hs blobs = (d', bl', None)" "load_store kv E T root S d' bl'"
      "\<forall>c \<in> set hs. cur_rows kv d' bl' (KCode c) \<noteq> None"
      "\<forall>r. cur_rows kv d1 bl1 r \<noteq> None \<longrightarrow> cur_rows kv d' bl' r \<noteq> None"
      "\<forall>r. (\<forall>c. r \<noteq> KCode c) \<longrightarrow> cur_rows kv d' bl' r = cur_rows kv d1 bl1 r" by blast
  have "cur_rows kv d' bl' (KCode (lib_kc E b)) \<noteq> None" using IH(4) p(3) by simp
  moreover have "cur_rows kv d' bl' r \<noteq> None" if "cur_rows kv d bl r \<noteq> None" for r
    using that IH(4) p(3) by (cases "r = KCode (lib_kc E b)") auto
  ultimately show ?case using IH p by (simp add: batch(1) bl_sops)
qed simp

end

end
