(* ===== verification/SyncWalk.thy ===== *)
theory SyncWalk
  imports SyncStore
begin

text \<open>
  The goroutines of the loader, each on its own: what a segment worker or a storage walker has not yet
  sent is still ahead of it. The invariants speak of the rows to come (\<open>fut_rows\<close>), which only grow,
  so that a step of one goroutine never disturbs another.
\<close>

lemma zero_le_bytes: "replicate (length bs) 0 \<le> (bs :: bytes)"
  by (induction bs) (auto simp: less_le)

subsection \<open>One response\<close>

definition cov :: "leafs \<Rightarrow> error + bytes option \<Rightarrow> bytes \<Rightarrow> bool" where
  "cov ls aft k \<longleftrightarrow> k \<in> keys_of ls \<or> (\<exists>st. aft = Inr (Some st) \<and> st \<le> k) \<or> (\<exists>err. aft = Inl err)"

lemma keys_of_simps [simp]: "keys_of [] = {}" "keys_of (p # ls) = insert (fst p) (keys_of ls)"
  by (simp_all add: keys_of_def)

lemma sorted_from_key: "sorted_wrt (<) (map fst ls) \<Longrightarrow> sorted_wrt (<) (map fst (from_key st ls))"
  by (simp add: from_key_def sorted_wrt_map sorted_wrt_filter)

lemma honest_sound:
  assumes "sorted_wrt (<) (map fst all)" and "honest_leafs all st (Inr (ls, mr))"
  shows "set ls \<subseteq> set all" "sorted_wrt (<) (map fst ls)" "\<forall>k \<in> keys_of ls. st \<le> k"
proof -
  from assms(2) have ls: "ls = take (length ls) (from_key st all)" by (simp add: honest_leafs_def)
  then have sub: "set ls \<subseteq> set (from_key st all)" by (metis set_take_subset)
  then show "set ls \<subseteq> set all" "\<forall>k \<in> keys_of ls. st \<le> k" by (auto simp: from_key_def keys_of_def)
  have "sorted_wrt (<) (take (length ls) (map fst (from_key st all)))"
    using sorted_from_key [OF assms(1)] by (rule sorted_wrt_take)
  then show "sorted_wrt (<) (map fst ls)" using ls by (metis take_map)
qed

lemma honest_split:
  assumes "sorted_wrt (<) (map fst all)" and h: "honest_leafs all st (Inr (ls, mr))"
    and k: "k \<in> keys_of all" "st \<le> k"
  shows "k \<in> keys_of ls \<or> mr \<and> (\<forall>k' \<in> keys_of ls. k' < k)"
proof -
  let ?f = "from_key st all"
  from h have ls: "ls = take (length ls) ?f" and mr: "mr \<longleftrightarrow> length ls < length ?f" by (simp_all add: honest_leafs_def)
  from k have "k \<in> keys_of ?f" by (auto simp: from_key_def keys_of_def)
  then obtain i where i: "i < length ?f" "k = fst (?f ! i)" by (auto simp: keys_of_def in_set_conv_nth)
  show ?thesis
  proof (cases "i < length ls")
    case True
    then have "?f ! i = ls ! i" using ls by (metis nth_take)
    with True i(2) show ?thesis by (auto simp: keys_of_def)
  next
    case False
    have "k' < k" if "k' \<in> keys_of ls" for k'
    proof -
      from that obtain j where j: "j < length ls" "k' = fst (ls ! j)" by (auto simp: keys_of_def in_set_conv_nth)
      then have "k' = map fst ?f ! j" using ls i False
        by (metis (no_types, lifting) nth_map nth_take order.strict_trans not_less_iff_gr_or_eq)
      moreover have "map fst ?f ! j < map fst ?f ! i"
        using sorted_wrt_nth_less [OF sorted_from_key [OF assms(1)], of j i] j i False by simp
      ultimately show ?thesis using i by simp
    qed
    with False i mr show ?thesis by auto
  qed
qed

lemma trunc_leafs:
  assumes "sorted_wrt (<) (map fst ls)" and "truncateAt ls e = (ls', dn)"
  shows "dn \<longleftrightarrow> ls' \<noteq> ls" "p \<in> set ls' \<longleftrightarrow> p \<in> set ls \<and> (e = [] \<or> fst p \<le> e)"
    "k \<in> keys_of ls' \<longleftrightarrow> k \<in> keys_of ls \<and> (e = [] \<or> k \<le> e)" "sorted_wrt (<) (map fst ls')"
    "\<forall>k \<in> keys_of ls. e = [] \<or> k \<le> e \<Longrightarrow> ls' = ls"
proof -
  have srt: "sorted (map fst ls)" using assms(1) by (rule strict_sorted_imp_sorted)
  have ls': "ls' = (if e = [] then ls else takeWhile (\<lambda>p. fst p \<le> e) ls)" and dn: "dn \<longleftrightarrow> ls' \<noteq> ls"
    using truncateAt_eq [OF srt, of e] assms(2) by (auto split: if_splits)
  show "dn \<longleftrightarrow> ls' \<noteq> ls" by (rule dn)
  have mem: "p \<in> set ls' \<longleftrightarrow> p \<in> set ls \<and> (e = [] \<or> fst p \<le> e)" for p
    using takeWhile_in_range [OF srt, of e] by (simp add: ls')
  then show "p \<in> set ls' \<longleftrightarrow> p \<in> set ls \<and> (e = [] \<or> fst p \<le> e)" .
  show "k \<in> keys_of ls' \<longleftrightarrow> k \<in> keys_of ls \<and> (e = [] \<or> k \<le> e)" using mem by (auto simp: keys_of_def)
  have "map fst ls' = (if e = [] then map fst ls else takeWhile (\<lambda>k. k \<le> e) (map fst ls))"
    by (simp add: ls' takeWhile_map comp_def)
  moreover have "sorted_wrt (<) (takeWhile P (map fst ls))" for P
    by (subst takeWhile_eq_take) (rule sorted_wrt_take [OF assms(1)])
  ultimately show "sorted_wrt (<) (map fst ls')" using assms(1) by simp
  show "ls' = ls" if "\<forall>k \<in> keys_of ls. e = [] \<or> k \<le> e"
    using that by (auto simp: ls' keys_of_def takeWhile_eq_all_conv)
qed

lemma last_key:
  assumes "sorted_wrt (<) (map fst ls)" and "ls \<noteq> []"
  shows "fst (last ls) \<in> keys_of ls" "k \<in> keys_of ls \<Longrightarrow> k \<le> fst (last ls)"
proof -
  show "fst (last ls) \<in> keys_of ls" unfolding keys_of_def using last_in_set [OF assms(2)] by (rule imageI)
  have eq: "map fst ls = map fst (butlast ls) @ [fst (last ls)]"
    using append_butlast_last_id [OF assms(2)] by (metis list.simps(8,9) map_append)
  assume "k \<in> keys_of ls"
  then have "k \<in> set (map fst ls)" by (simp add: keys_of_def)
  with assms(1) show "k \<le> fst (last ls)" unfolding eq by (auto simp: sorted_wrt_append)
qed

lemma leafs_step:
  assumes T: "tries_ok T" and h: "honest_leafs (T r) st (Inr (ls, mr))"
    and tr: "truncateAt ls e = (ls', dn)" and aft: "after_leafs dn mr ls' = aft"
  shows "set ls' \<subseteq> set (T r)" "sorted_wrt (<) (map fst ls')" "\<forall>k \<in> keys_of ls'. st \<le> k \<and> (e = [] \<or> k \<le> e)"
    "\<And>st'. aft = Inr (Some st') \<Longrightarrow> length st' = 32 \<and> st \<le> st' \<and> (\<forall>k \<in> keys_of ls'. k < st')"
    "\<And>k. k \<in> keys_of (T r) \<Longrightarrow> st \<le> k \<Longrightarrow> e = [] \<or> k \<le> e \<Longrightarrow> cov ls' aft k"
proof -
  note so = honest_sound [OF tries_okD(2) [OF T] h]
  note tl = trunc_leafs [OF so(2) tr]
  show sub: "set ls' \<subseteq> set (T r)" using so(1) tl(2) by auto
  show srt: "sorted_wrt (<) (map fst ls')" by (rule tl(4))
  show rng: "\<forall>k \<in> keys_of ls'. st \<le> k \<and> (e = [] \<or> k \<le> e)" using so(3) tl(3) by auto
  have len: "length k = 32" if "k \<in> keys_of ls' \<or> k \<in> keys_of (T r)" for k
    using that sub tries_okD(1) [OF T, of k r] by (auto simp: keys_of_def)
  show "length st' = 32 \<and> st \<le> st' \<and> (\<forall>k \<in> keys_of ls'. k < st')" if a: "aft = Inr (Some st')" for st'
  proof -
    from a aft have ne: "ls' \<noteq> []" and inc: "incKey (fst (last ls')) = Some st'"
      by (auto simp: after_leafs_def split: if_splits)
    note l = last_key [OF srt ne]
    have lt: "fst (last ls') < st'"
      using incKey_next(2) [OF inc, of st'] incKey_next(1) [OF inc, of "fst (last ls')"] by simp
    have "k < st'" if "k \<in> keys_of ls'" for k using l(2) [OF that] lt by (rule order.strict_trans1)
    moreover have "st \<le> st'" using rng l(1) lt by (meson less_imp_le order.trans)
    ultimately show ?thesis using incKey_next(1) [OF inc refl] len [of "fst (last ls')"] l(1) by simp
  qed
  show "cov ls' aft k" if k: "k \<in> keys_of (T r)" "st \<le> k" "e = [] \<or> k \<le> e" for k
  proof (cases "k \<in> keys_of ls")
    case True
    with k(3) tl(3) show ?thesis by (simp add: cov_def)
  next
    case False
    with honest_split [OF tries_okD(2) [OF T] h k(1,2)] have m: "mr" "\<forall>k' \<in> keys_of ls. k' < k" by auto
    have same: "ls' = ls" using m(2) k(3) by (intro tl(5)) (auto intro: order.trans less_imp_le)
    have aft': "aft = (if ls' = [] then Inl (ErrMsg ''empty response with more=true'') else Inr (incKey (fst (last ls'))))"
      unfolding aft [symmetric] after_leafs_def using same tl(1) m(1) by simp
    show ?thesis
    proof (cases "ls' = []")
      case True
      then show ?thesis by (simp add: aft' cov_def)
    next
      case ne: False
      note l = last_key [OF srt ne]
      have lk: "fst (last ls') < k" using m(2) l(1) same by simp
      have l32: "length k = length (fst (last ls'))" using len k(1) l(1) by simp
      show ?thesis
      proof (cases "incKey (fst (last ls'))")
        case None
        with incKey_last [OF None l32] lk show ?thesis by simp
      next
        case (Some st')
        with incKey_next(2) [OF Some l32] lk ne show ?thesis by (simp add: aft' cov_def)
      qed
    qed
  qed
qed

subsection \<open>A segment worker\<close>

definition row_of :: "sync_lib \<Rightarrow> bytes \<times> bytes \<Rightarrow> blapply \<Rightarrow> bool" where
  "row_of E p a \<longleftrightarrow> (\<exists>acc code. lib_account E (snd p) = Inr acc
     \<and> a = ApplyAccount code (be_word (sa_CodeHash acc)) (has_storage E acc) (be_word (fst p)) (sa_Root acc) (account_row acc)
     \<and> (\<forall>c. code = Some c \<longrightarrow> lib_kc E c = be_word (sa_CodeHash acc)))"

definition seg_key :: "nat \<Rightarrow> bytes \<Rightarrow> bool" where
  "seg_key seg k \<longleftrightarrow> k ! 0 = of_nat seg"

definition seg_from :: "nat \<Rightarrow> bytes \<Rightarrow> bool" where
  "seg_from seg st \<longleftrightarrow> length st = 32 \<and> of_nat seg # replicate 31 0 \<le> st"

definition seg_leafs_ok :: "leafs \<Rightarrow> rows \<Rightarrow> nat \<Rightarrow> leafs \<Rightarrow> error + bytes option \<Rightarrow> bool" where
  "seg_leafs_ok all R seg ls aft \<longleftrightarrow>
     set ls \<subseteq> set all \<and> sorted_wrt (<) (map fst ls) \<and> (\<forall>k \<in> keys_of ls. seg_key seg k)
     \<and> (\<forall>st. aft = Inr (Some st) \<longrightarrow> seg_from seg st \<and> (\<forall>k \<in> keys_of ls. k < st))
     \<and> (\<forall>k \<in> keys_of all. seg_key seg k \<longrightarrow> acc_in R k \<or> cov ls aft k)
     \<and> (\<forall>err. aft = Inl err \<longrightarrow> ls = [])"

fun seg_inv :: "sync_lib \<Rightarrow> leafs \<Rightarrow> rows \<Rightarrow> nat \<Rightarrow> seg_pc \<Rightarrow> bool" where
  "seg_inv E all R seg (SegWait start) \<longleftrightarrow>
     seg_from seg (seg_start seg start)
     \<and> (\<forall>k \<in> keys_of all. seg_key seg k \<longrightarrow> acc_in R k \<or> seg_start seg start \<le> k)"
| "seg_inv E all R seg (SegReq st) \<longleftrightarrow>
     seg_from seg st \<and> (\<forall>k \<in> keys_of all. seg_key seg k \<longrightarrow> acc_in R k \<or> st \<le> k)"
| "seg_inv E all R seg (SegHandle ls rows aft) \<longleftrightarrow>
     seg_leafs_ok all R seg ls aft \<and> list_all2 (\<lambda>p r. \<forall>a. r = Some a \<longrightarrow> row_of E p a) ls rows"
| "seg_inv E all R seg (SegSend as aft) \<longleftrightarrow> (\<exists>ls. seg_leafs_ok all R seg ls aft \<and> list_all2 (row_of E) ls as)"
| "seg_inv E all R seg SegFinal \<longleftrightarrow> seg_full all R seg"
| "seg_inv E all R seg SegDone \<longleftrightarrow> seg_full all R seg"
| "seg_inv E all R seg (SegErr err) \<longleftrightarrow> True"

lemma seg_inv_grows:
  assumes "grows R R'" and "seg_inv E all R seg pc"
  shows "seg_inv E all R' seg pc"
  using assms(2) grows_in [OF assms(1)]
  by (cases pc) (auto simp: seg_leafs_ok_def, blast+)

lemma seg_range:
  assumes "length k = 32"
  shows "seg_key seg k \<longleftrightarrow> of_nat seg # replicate 31 0 \<le> k \<and> k \<le> seg_end seg"
proof -
  obtain b t where k: "k = b # t" "length t = 31" using assms by (cases k) auto
  have "replicate 31 0 \<le> t" using zero_le_bytes [of t] k(2) by simp
  moreover have "t \<le> replicate 31 0xff" using le_all_ff [OF k(2)] .
  ultimately show ?thesis by (auto simp: seg_key_def seg_end_def k(1))
qed

lemma seg_req_step:
  assumes T: "tries_ok T" and inv: "seg_inv E (T r) R seg (SegReq st)" and h: "honest_leafs (T r) st reply"
  shows "seg_inv E (T r) R seg (seg_leafs seg reply)"
proof (cases reply)
  case (Inr p)
  obtain ls mr where p: "p = (ls, mr)" by (cases p)
  obtain ls' dn where tr: "truncateAt ls (seg_end seg) = (ls', dn)" by (cases "truncateAt ls (seg_end seg)")
  let ?aft = "after_leafs dn mr ls'"
  note st = leafs_step [OF T h [unfolded Inr p] tr refl]
  from inv have sf: "seg_from seg st" and c: "\<forall>k \<in> keys_of (T r). seg_key seg k \<longrightarrow> acc_in R k \<or> st \<le> k" by auto
  have len: "length k = 32" if "k \<in> keys_of (T r)" for k using tries_okD(1) [OF T that] .
  have sub: "keys_of ls' \<subseteq> keys_of (T r)" using st(1) by (auto simp: keys_of_def)
  have sk: "seg_key seg k" if "k \<in> keys_of ls'" for k
    using st(3) that sf seg_range [OF len, of k seg] sub by (auto simp: seg_from_def seg_end_def intro: order.trans)
  have "cov ls' ?aft k" if "k \<in> keys_of (T r)" "seg_key seg k" "\<not> acc_in R k" for k
    using that c seg_range [OF len [OF that(1)]] by (intro st(5)) auto
  moreover have "seg_from seg st'" if "?aft = Inr (Some st')" for st'
    using st(4) [OF that] sf by (auto simp: seg_from_def intro: order.trans)
  moreover have "ls' = []" if "?aft = Inl err" for err
    using that by (auto simp: after_leafs_def split: if_splits)
  moreover have "list_all2 (\<lambda>p r. \<forall>a. r = Some a \<longrightarrow> row_of E p a) ls' (replicate (length ls') None)"
    by (simp add: list_all2_conv_all_nth)
  ultimately show ?thesis using st(1,2,4) sk by (auto simp: Inr p seg_leafs_def tr seg_leafs_ok_def)
qed (simp add: seg_leafs_def)

lemma handleAccount_row:
  assumes "length key = 32 \<Longrightarrow> case lib_account E val of Inl _ \<Rightarrow> True | Inr acc \<Rightarrow> honest_code (lib_kc E) [be_word (sa_CodeHash acc)] reply"
    and "handleAccount E claims key val reply = (claims', Inr a)"
  shows "row_of E (key, val) a"
proof -
  from assms(2) obtain acc where acc: "lib_account E val = Inr acc" and len: "length key = 32"
    by (auto simp: handleAccount_def split: if_splits sum.splits)
  with assms(1) have hc: "lib_kc E b = be_word (sa_CodeHash acc)" if "reply = Inr (b # bs)" for b bs
    using that by (simp add: honest_code_def)
  from assms(2) hc show ?thesis
    by (auto simp: handleAccount_def Let_def acc len row_of_def split: if_splits sum.splits list.splits)
qed

text \<open>Sending the next row: it is valid where the channel ends, and the rest stays covered.\<close>

lemma row_send:
  assumes T: "tries_ok T" and ok: "seg_leafs_ok (T root) R seg (p # ls) aft" and row: "row_of E p a"
  shows "evs_ok E T (T root) R (map EvOp (apply_sops a))"
    and "seg_leafs_ok (T root) (evs_map (map EvOp (apply_sops a)) R) seg ls aft"
proof -
  obtain k v where p: "p = (k, v)" by (cases p)
  from row obtain acc code where acc: "lib_account E v = Inr acc"
    and a: "a = ApplyAccount code (be_word (sa_CodeHash acc)) (has_storage E acc) (be_word k) (sa_Root acc) (account_row acc)"
    and code: "\<And>c. code = Some c \<Longrightarrow> lib_kc E c = be_word (sa_CodeHash acc)"
    by (auto simp: row_of_def p)
  from ok have mem: "(k, v) \<in> set (T root)" and srt: "\<forall>k' \<in> keys_of ls. k < k'" "sorted_wrt (<) (map fst ls)"
    and sk: "seg_key seg k" "\<forall>k' \<in> keys_of ls. seg_key seg k'"
    and cv: "\<And>k'. k' \<in> keys_of (T root) \<Longrightarrow> seg_key seg k' \<Longrightarrow> acc_in R k' \<or> cov (p # ls) aft k'"
    and aft: "\<And>st. aft = Inr (Some st) \<Longrightarrow> seg_from seg st \<and> (\<forall>k \<in> keys_of (p # ls). k < st)"
      "\<And>err. aft \<noteq> Inl err"
    by (auto simp: seg_leafs_ok_def p keys_of_def)
  from mem have kin: "k \<in> keys_of (T root)" by (force simp: keys_of_def)
  have kb: "be_bytes 32 (be_word k :: hash) = k" using tries_okD(1) [OF T kin] by (simp add: be_bytes_be_word)
  have "map_of (T root) k = Some v" using mem tries_okD(3) [OF T] by simp
  then have ta: "trie_acct E (T root) (be_word k) = Some acc" by (simp add: trie_acct_def kb acc)
  have below: "acc_in R k'" if "k' \<in> keys_of (T root)" "k' ! 0 = k ! 0" "k' < k" for k'
  proof -
    have "seg_key seg k'" using that(2) sk(1) by (simp add: seg_key_def)
    moreover have "\<not> cov (p # ls) aft k'"
      using that(3) srt(1) aft by (fastforce simp: cov_def p dest: order.strict_trans2 order.strict_trans1)
    ultimately show ?thesis using cv [OF that(1)] by blast
  qed
  have mono: "acc_in (evs_map evs R) k'" if "k' \<in> keys_of (T root)" "k' ! 0 = k ! 0" "k' < k" for k' evs
    using below [OF that] grows_in(1) [OF evs_map_grows] by blast
  let ?e1 = "case code of None \<Rightarrow> [] | Some b \<Rightarrow> [EvOp (PCode (be_word (sa_CodeHash acc)) b)]"
  let ?e2 = "if has_storage E acc then [EvOp (PQueue (be_word k) (sa_Root acc))] else []"
  have evs: "map EvOp (apply_sops a) = (?e1 @ ?e2) @ [EvOp (PAcct (be_word k) (account_row acc))]"
    by (auto simp: a split: option.splits)
  have "evs_ok E T (T root) R (?e1 @ ?e2)" using code ta by (auto split: option.splits)
  moreover have "has_storage E acc \<longrightarrow> evs_map (?e1 @ ?e2) R (KQueue (be_word k)) \<noteq> None" by simp
  then have "sop_ok E T (T root) (evs_map (?e1 @ ?e2) R) (PAcct (be_word k) (account_row acc))"
    unfolding sop_ok.simps kb
    by (intro conjI exI [of _ acc] ballI impI ta refl mono) simp
  ultimately show "evs_ok E T (T root) R (map EvOp (apply_sops a))" unfolding evs evs_ok_append by simp
  let ?R = "evs_map (map EvOp (apply_sops a)) R"
  have "acc_in ?R k" unfolding evs by (simp add: acc_in_def)
  moreover have "acc_in ?R k'" if "acc_in R k'" for k' using grows_in(1) [OF evs_map_grows that] .
  ultimately have "acc_in ?R k' \<or> cov ls aft k'" if "k' \<in> keys_of (T root)" "seg_key seg k'" for k'
    using cv [OF that] by (auto simp: cov_def p)
  with ok aft srt sk show "seg_leafs_ok (T root) ?R seg ls aft" by (auto simp: seg_leafs_ok_def)
qed

subsection \<open>A storage walker\<close>

abbreviation rw_range :: "rwalk \<Rightarrow> bytes \<times> bytes" where
  "rw_range rw \<equiv> (rw_start rw, rw_end rw)"

definition slots_ok :: "sync_lib \<Rightarrow> leafs \<Rightarrow> rwalk \<Rightarrow> (hash \<times> hash) list \<Rightarrow> bool" where
  "slots_ok E ls rw sl \<longleftrightarrow>
     (\<forall>(s, x) \<in> set sl. trie_slot E ls s = Some x \<and> in_range (be_bytes 32 s) (rw_range rw))"

definition next_ok :: "rwalk \<Rightarrow> bytes \<Rightarrow> bool" where
  "next_ok rw st \<longleftrightarrow> length st = 32 \<and> rw_start rw \<le> st"

definition walk_wf :: "sync_lib \<Rightarrow> leafs \<Rightarrow> rwalk \<Rightarrow> bool" where
  "walk_wf E ls rw \<longleftrightarrow>
     (rw_end rw = [] \<or> length (rw_end rw) = 32) \<and> (rw_start rw = [] \<or> length (rw_start rw) = 32)
     \<and> (case rw_pc rw of
          RReq st n \<Rightarrow> next_ok rw st \<or> st = [] \<and> rw_start rw = [] \<and> n = 0
        | RSend sl aft n \<Rightarrow> slots_ok E ls rw sl
            \<and> (\<forall>st. aft = Inr (Some st) \<longrightarrow> next_ok rw st \<and> (\<forall>(s, x) \<in> set sl. be_bytes 32 s < st))
        | RRet (Some st) \<Rightarrow> next_ok rw st
        | _ \<Rightarrow> True)"

text \<open>The keys that are still ahead of the walker.\<close>

definition left :: "rwalk \<Rightarrow> bytes \<Rightarrow> bool" where
  "left rw k \<longleftrightarrow> (rw_end rw = [] \<or> k \<le> rw_end rw)
     \<and> (case rw_pc rw of
          RInit \<Rightarrow> rw_start rw \<le> k
        | RReq st n \<Rightarrow> st \<le> k
        | RSend sl aft n \<Rightarrow> be_word k \<in> fst ` set sl \<or> (\<exists>st. aft = Inr (Some st) \<and> st \<le> k) \<or> (\<exists>err. aft = Inl err)
        | RRet (Some st) \<Rightarrow> st \<le> k
        | RRet None \<Rightarrow> False
        | RErr err \<Rightarrow> True)"

lemma walk_slots_rows:
  "walk_slots E ls = Inr sl \<Longrightarrow> (s, x) \<in> set sl \<Longrightarrow>
     \<exists>k v c. (k, v) \<in> set ls \<and> length k = 32 \<and> s = be_word k \<and> lib_split E v = Inr c \<and> length c \<le> 32 \<and> x = be_word c"
proof (induction E ls arbitrary: sl rule: walk_slots.induct)
  case (2 E k v ls)
  from "2.prems"(1) obtain c sl' where c: "length k = 32" "lib_split E v = Inr c" "length c \<le> 32"
    "walk_slots E ls = Inr sl'" "sl = (be_word k, be_word c) # sl'"
    by (auto split: if_splits sum.splits)
  have n1: "\<not> length k \<noteq> 32" and n2: "\<not> 32 < length c" using c by simp_all
  show ?case
  proof (cases "(s, x) = (be_word k, be_word c)")
    case True
    with c(1,2,3) show ?thesis by (intro exI [of _ k] exI [of _ v] exI [of _ c]) simp
  next
    case False
    with "2.prems"(2) c(5) have "(s, x) \<in> set sl'" by auto
    from "2.IH" [OF n1 c(2) n2 c(4) this] obtain k' v' c' where "(k', v') \<in> set ls \<and> length k' = 32
        \<and> s = be_word k' \<and> lib_split E v' = Inr c' \<and> length c' \<le> 32 \<and> x = be_word c'" by blast
    then show ?thesis by (intro exI [of _ k'] exI [of _ v'] exI [of _ c']) simp
  qed
qed simp

lemma walk_slots_keys: "walk_slots E ls = Inr sl \<Longrightarrow> map fst sl = map (be_word \<circ> fst) ls"
  by (induction E ls arbitrary: sl rule: walk_slots.induct) (auto split: if_splits sum.splits)

lemma walk_leafs_step:
  assumes T: "tries_ok T" and h: "honest_leafs (T r) st reply" and wf: "walk_wf E (T r) rw"
    and st: "next_ok rw st \<or> st = [] \<and> rw_start rw = []"
  shows "walk_wf E (T r) (rw\<lparr>rw_pc := walk_leafs E rw n reply\<rparr>)"
    and "k \<in> keys_of (T r) \<Longrightarrow> st \<le> k \<Longrightarrow> rw_end rw = [] \<or> k \<le> rw_end rw \<Longrightarrow>
      left (rw\<lparr>rw_pc := walk_leafs E rw n reply\<rparr>) k"
    and "\<And>sl st' n'. walk_leafs E rw n reply = RSend sl (Inr (Some st')) n' \<Longrightarrow> st \<le> st'"
proof -
  have "walk_wf E (T r) (rw\<lparr>rw_pc := walk_leafs E rw n reply\<rparr>)
      \<and> (\<forall>k \<in> keys_of (T r). st \<le> k \<longrightarrow> rw_end rw = [] \<or> k \<le> rw_end rw \<longrightarrow> left (rw\<lparr>rw_pc := walk_leafs E rw n reply\<rparr>) k)
      \<and> (\<forall>sl st' n'. walk_leafs E rw n reply = RSend sl (Inr (Some st')) n' \<longrightarrow> st \<le> st')"
  proof (cases reply)
    case (Inl err)
    then show ?thesis using wf by (simp add: walk_leafs_def walk_wf_def left_def)
  next
    case (Inr p)
    obtain ls mr where p: "p = (ls, mr)" by (cases p)
    obtain ls' dn where tr: "truncateAt ls (rw_end rw) = (ls', dn)" by (cases "truncateAt ls (rw_end rw)")
    let ?aft = "after_leafs dn mr ls'"
    note ls = leafs_step [OF T h [unfolded Inr p] tr refl]
    show ?thesis
    proof (cases "walk_slots E ls'")
      case (Inl err)
      then show ?thesis using wf by (simp add: walk_leafs_def \<open>reply = Inr p\<close> p tr walk_wf_def left_def)
    next
      case sl: (Inr sl)
      have pc: "walk_leafs E rw n reply = RSend sl ?aft n" by (simp add: walk_leafs_def Inr p tr sl)
      have row: "trie_slot E (T r) s = Some x \<and> be_bytes 32 s \<in> keys_of ls'" if sx: "(s, x) \<in> set sl" for s x
      proof -
        from walk_slots_rows [OF sl sx] obtain k v c where
          k: "(k, v) \<in> set ls'" "length k = 32" "s = be_word k" "lib_split E v = Inr c" "length c \<le> 32" "x = be_word c"
          by blast
        have "map_of (T r) k = Some v" using k(1) ls(1) tries_okD(3) [OF T] by auto
        with k show ?thesis by (force simp: trie_slot_def be_bytes_be_word keys_of_def)
      qed
      have rs: "rw_start rw \<le> st" using st by (auto simp: next_ok_def)
      have "slots_ok E (T r) rw sl" unfolding slots_ok_def in_range_def
        using row ls(3) rs by (fastforce intro: order.trans)
      moreover have "next_ok rw st' \<and> (\<forall>(s, x) \<in> set sl. be_bytes 32 s < st')" if "?aft = Inr (Some st')" for st'
        using ls(4) [OF that] row rs by (fastforce simp: next_ok_def intro: order.trans)
      ultimately have "walk_wf E (T r) (rw\<lparr>rw_pc := walk_leafs E rw n reply\<rparr>)"
        using wf unfolding pc by (simp add: walk_wf_def slots_ok_def next_ok_def)
      moreover have "left (rw\<lparr>rw_pc := walk_leafs E rw n reply\<rparr>) k"
        if "k \<in> keys_of (T r)" "st \<le> k" "rw_end rw = [] \<or> k \<le> rw_end rw" for k
      proof -
        have "fst ` set sl = be_word ` keys_of ls'"
          using arg_cong [OF walk_slots_keys [OF sl], of set] by (auto simp: keys_of_def)
        then show ?thesis using ls(5) [OF that] that(3) unfolding pc left_def cov_def by auto
      qed
      ultimately show ?thesis using ls(4) pc by auto
    qed
  qed
  then show "walk_wf E (T r) (rw\<lparr>rw_pc := walk_leafs E rw n reply\<rparr>)"
    "k \<in> keys_of (T r) \<Longrightarrow> st \<le> k \<Longrightarrow> rw_end rw = [] \<or> k \<le> rw_end rw \<Longrightarrow> left (rw\<lparr>rw_pc := walk_leafs E rw n reply\<rparr>) k"
    "\<And>sl st' n'. walk_leafs E rw n reply = RSend sl (Inr (Some st')) n' \<Longrightarrow> st \<le> st'"
    by blast+
qed

end
