(* ===== verification/SyncTask.thy ===== *)
theory SyncTask
  imports SyncWalk
begin

text \<open>
  The task of one storage trie: the sequential walk, the fan-out and the deletion of the queue row. Its
  invariant is that every slot of the trie is sent or still ahead of a walker. A walker that resumes at a
  watermark (\<^verbatim>\<open>MaxBaseSlot\<close>) keeps it only if the rows of its range are its own, which \<open>task_clean\<close>
  says; with \<^verbatim>\<open>noStorageResume\<close> nothing has to be said.
\<close>

subsection \<open>One step of a walker\<close>

definition no_slots :: "rows \<Rightarrow> hash \<Rightarrow> bool" where
  "no_slots R h \<longleftrightarrow> (\<forall>s. R (KBaseSlot h s) = None)"

definition slots_below :: "rows \<Rightarrow> hash \<Rightarrow> bytes \<Rightarrow> bool" where
  "slots_below R h st \<longleftrightarrow> (\<forall>s. R (KBaseSlot h s) \<noteq> None \<longrightarrow> be_bytes 32 s < st)"

definition none_in_range :: "rows \<Rightarrow> hash \<Rightarrow> rwalk \<Rightarrow> bool" where
  "none_in_range R h rw \<longleftrightarrow> (\<forall>s. R (KBaseSlot h s) \<noteq> None \<longrightarrow> \<not> in_range (be_bytes 32 s) (rw_range rw))"

definition may_resume :: "sync_cfg \<Rightarrow> leafs \<Rightarrow> rows \<Rightarrow> hash \<Rightarrow> rwalk \<Rightarrow> bool" where
  "may_resume cfg ls R h rw \<longleftrightarrow> cf_noResume cfg \<or> slots_full ls R h \<or> none_in_range R h rw"

lemma walk_exec_max:
  assumes "walk_exec L E cfg d h act rw = Some (rw', b)"
  shows "rw_max rw' = rw_max rw \<and> (rw_max rw = 0 \<longrightarrow> (\<forall>st. rw_pc rw' \<noteq> RRet (Some st)))"
  using assms
  by (auto simp: capped_def walk_resume_def walk_leafs_def walk_next_def
      split: walk_act.splits walk_pc.splits if_splits sum.splits option.splits prod.splits)

text \<open>Where the sequential walk stands, all rows of the trie lie below.\<close>

definition warm_clean :: "rows \<Rightarrow> hash \<Rightarrow> rwalk \<Rightarrow> bool" where
  "warm_clean R h rw \<longleftrightarrow>
     (case rw_pc rw of
        RInit \<Rightarrow> no_slots R h
      | RReq st n \<Rightarrow> slots_below R h st
      | RSend sl aft n \<Rightarrow> (\<forall>st. aft = Inr (Some st) \<longrightarrow> slots_below R h st)
      | RRet (Some st) \<Rightarrow> slots_below R h st
      | _ \<Rightarrow> True)"

lemma no_slots_below: "no_slots R h \<Longrightarrow> slots_below R h st"
  by (simp add: no_slots_def slots_below_def)

lemma slots_below_mono: "slots_below R h st \<Longrightarrow> st \<le> st' \<Longrightarrow> slots_below R h st'"
  unfolding slots_below_def by (meson order.strict_trans2)

context healthy_lmdb
begin

lemma walk_resume_step:
  assumes wf: "wf_rows (kv (env d))" and g: "grows (body (kv (env d))) R"
    and w: "walk_wf E ls rw" and pc: "rw_pc rw = RInit" and res: "may_resume cfg ls R h rw"
  shows "walk_wf E ls (rw\<lparr>rw_pc := walk_resume L cfg d h rw\<rparr>)"
    and "slots_full ls R h \<or> walk_resume L cfg d h rw = RReq (rw_start rw) 0"
proof -
  have stop: "length x = 32" if "opt_key (rw_end rw) = Some x" for x
    using w that by (auto simp: walk_wf_def opt_key_def split: if_splits)
  from MaxBaseSlot_found [OF wf, of "opt_key (rw_end rw)" h "opt_key (rw_start rw)"] stop obtain r where
    r: "MaxBaseSlot L d h (opt_key (rw_start rw)) (opt_key (rw_end rw)) = Inr r"
    and wm: "\<And>s. r = Some s \<Longrightarrow> kv (env d) (key_bytes (KBaseSlot h s)) \<noteq> None
      \<and> (\<forall>x. opt_key (rw_start rw) = Some x \<longrightarrow> x \<le> be_bytes 32 s) \<and> (\<forall>x. opt_key (rw_end rw) = Some x \<longrightarrow> be_bytes 32 s \<le> x)"
    by auto
  have full: "slots_full ls R h" if "r = Some s" "\<not> cf_noResume cfg" for s
  proof -
    have "R (KBaseSlot h s) \<noteq> None" using wm [OF that(1)] g by (auto simp: grows_def body_def)
    moreover have "in_range (be_bytes 32 s) (rw_range rw)"
      using wm [OF that(1)] by (auto simp: in_range_def opt_key_def split: if_splits)
    ultimately show ?thesis using res that(2) by (auto simp: may_resume_def none_in_range_def)
  qed
  have plain: "walk_wf E ls (rw\<lparr>rw_pc := RReq (rw_start rw) 0\<rparr>)" using w by (auto simp: walk_wf_def next_ok_def)
  have nx: "walk_wf E ls (rw\<lparr>rw_pc := RReq next 0\<rparr>)" if "incKey (be_bytes 32 s) = Some next" "rw_start rw < next" for s :: hash and "next"
    using w that incKey_next(1) [OF that(1) refl] by (auto simp: walk_wf_def next_ok_def)
  have "walk_wf E ls (rw\<lparr>rw_pc := RRet None\<rparr>)" using w by (simp add: walk_wf_def)
  with plain nx show "walk_wf E ls (rw\<lparr>rw_pc := walk_resume L cfg d h rw\<rparr>)"
    by (auto simp: walk_resume_def r split: option.splits)
  show "slots_full ls R h \<or> walk_resume L cfg d h rw = RReq (rw_start rw) 0"
    using full by (cases r) (auto simp: walk_resume_def r)
qed

lemma walk_quiet:
  assumes T: "tries_ok T" and wf: "wf_rows (kv (env d))" and g: "grows (body (kv (env d))) R"
    and w: "walk_wf E (T r) rw" and h: "honest_walk (T r) rw act"
    and ex: "walk_exec L E cfg d h act rw = Some (rw', None)"
    and res: "rw_pc rw = RInit \<Longrightarrow> may_resume cfg (T r) R h rw"
  shows "walk_wf E (T r) rw'" and "rw_range rw' = rw_range rw" and "rw_pc rw' \<noteq> RInit"
    and "slots_full (T r) R h \<or> (\<forall>k \<in> keys_of (T r). left rw k \<longrightarrow> left rw' k)"
    and "slots_full (T r) R h \<or> (warm_clean R h rw \<longrightarrow> warm_clean R h rw')"
proof -
  consider (init) "act = RaInit" "rw_pc rw = RInit" "rw' = rw\<lparr>rw_pc := walk_resume L cfg d h rw\<rparr>"
    | (cap) st n where "rw_pc rw = RReq st n" "capped rw n" "rw' = rw\<lparr>rw_pc := RRet (Some st)\<rparr>"
    | (leafs) st n reply where "act = RaLeafs reply" "rw_pc rw = RReq st n" "rw' = rw\<lparr>rw_pc := walk_leafs E rw n reply\<rparr>"
    | (cancel) sl aft n where "rw_pc rw = RSend sl aft n" "rw' = rw\<lparr>rw_pc := RErr ErrCanceled\<rparr>"
    using ex by (auto split: walk_act.splits walk_pc.splits if_splits)
  then have "walk_wf E (T r) rw' \<and> rw_range rw' = rw_range rw \<and> rw_pc rw' \<noteq> RInit
    \<and> (slots_full (T r) R h \<or> (\<forall>k \<in> keys_of (T r). left rw k \<longrightarrow> left rw' k))
    \<and> (slots_full (T r) R h \<or> (warm_clean R h rw \<longrightarrow> warm_clean R h rw'))"
  proof cases
    case init
    have "walk_resume L cfg d h rw \<noteq> RInit" by (auto simp: walk_resume_def split: sum.splits option.splits)
    with walk_resume_step [OF wf g w init(2) res [OF init(2)]] init show ?thesis
      by (auto simp: left_def warm_clean_def no_slots_below)
  next
    case cap
    then show ?thesis using w by (auto simp: walk_wf_def left_def warm_clean_def capped_def next_ok_def)
  next
    case leafs
    have hl: "honest_leafs (T r) st reply" using h leafs by (simp add: honest_walk_def)
    have st: "next_ok rw st \<or> st = [] \<and> rw_start rw = []" using w leafs by (auto simp: walk_wf_def)
    note ls = walk_leafs_step [OF T hl w st]
    have "walk_leafs E rw n reply \<noteq> RInit" by (auto simp: walk_leafs_def split: sum.splits prod.splits)
    moreover have "warm_clean R h (rw\<lparr>rw_pc := walk_leafs E rw n reply\<rparr>)" if "slots_below R h st"
      using ls(3) slots_below_mono [OF that]
      by (auto simp: warm_clean_def walk_leafs_def split: sum.splits prod.splits)
    ultimately show ?thesis
      using ls(1,2) leafs by (auto simp: left_def [of rw] warm_clean_def [of R h rw])
  next
    case cancel
    then show ?thesis using w by (simp add: walk_wf_def left_def warm_clean_def)
  qed
  then show "walk_wf E (T r) rw'" "rw_range rw' = rw_range rw" "rw_pc rw' \<noteq> RInit"
    "slots_full (T r) R h \<or> (\<forall>k \<in> keys_of (T r). left rw k \<longrightarrow> left rw' k)"
    "slots_full (T r) R h \<or> (warm_clean R h rw \<longrightarrow> warm_clean R h rw')" by blast+
qed

lemma walk_sends:
  assumes w: "walk_wf E ls rw" and ex: "walk_exec L E cfg d h act rw = Some (rw', Some b)"
  obtains sl where "b = storage_bundle (ApplySlots h sl)" and "slots_ok E ls rw sl"
    and "walk_wf E ls rw'" and "rw_range rw' = rw_range rw" and "rw_pc rw' \<noteq> RInit" and "rw_pc rw \<noteq> RInit"
    and "\<And>k. left rw k \<Longrightarrow> left rw' k \<or> be_word k \<in> fst ` set sl"
    and "\<And>R R'. warm_clean R h rw \<Longrightarrow> (\<And>s. R' (KBaseSlot h s) \<noteq> None \<Longrightarrow> R (KBaseSlot h s) \<noteq> None \<or> s \<in> fst ` set sl)
      \<Longrightarrow> warm_clean R' h rw'"
proof -
  from ex obtain sl aft n where pc: "rw_pc rw = RSend sl aft n" and rw': "rw' = rw\<lparr>rw_pc := walk_next aft n\<rparr>"
    and b: "b = storage_bundle (ApplySlots h sl)"
    by (auto split: walk_act.splits walk_pc.splits if_splits)
  have "walk_wf E ls rw'"
    using w by (auto simp: walk_wf_def rw' pc walk_next_def next_ok_def split: sum.splits option.splits)
  moreover have "left rw' k \<or> be_word k \<in> fst ` set sl" if "left rw k" for k
    using that by (auto simp: left_def rw' pc walk_next_def split: sum.splits option.splits)
  moreover have "warm_clean R' h rw'" if wc: "warm_clean R h rw"
    and R': "\<And>s. R' (KBaseSlot h s) \<noteq> None \<Longrightarrow> R (KBaseSlot h s) \<noteq> None \<or> s \<in> fst ` set sl" for R R'
  proof (cases "\<exists>st. aft = Inr (Some st)")
    case True
    then obtain st where aft: "aft = Inr (Some st)" by blast
    with wc w have "slots_below R h st" "\<forall>(s, x) \<in> set sl. be_bytes 32 s < st"
      by (auto simp: warm_clean_def walk_wf_def pc)
    then have "slots_below R' h st" using R' unfolding slots_below_def by fastforce
    then show ?thesis by (simp add: warm_clean_def rw' aft walk_next_def)
  next
    case False
    then show ?thesis by (auto simp: warm_clean_def rw' walk_next_def split: sum.splits option.splits)
  qed
  moreover have "walk_next aft n \<noteq> RInit" by (auto simp: walk_next_def split: sum.splits option.splits)
  ultimately show thesis using w pc b rw' by (intro that [of sl]) (auto simp: walk_wf_def)
qed

end

subsection \<open>The task\<close>

definition apart :: "rwalk list \<Rightarrow> bool" where
  "apart rws \<longleftrightarrow> (\<forall>k. length k = 32 \<longrightarrow> length (filter (\<lambda>rw. in_range k (rw_range rw)) rws) \<le> 1)"

definition fan_clean :: "rows \<Rightarrow> hash \<Rightarrow> rwalk list \<Rightarrow> bool" where
  "fan_clean R h rws \<longleftrightarrow> apart rws \<and> (\<forall>rw \<in> set rws. rw_pc rw = RInit \<longrightarrow> none_in_range R h rw)"

definition task_root :: "sync_lib \<Rightarrow> leafs \<Rightarrow> stask \<Rightarrow> bool" where
  "task_root E all t \<longleftrightarrow>
     (\<exists>acc. trie_acct E all (t_addr t) = Some acc \<and> has_storage E acc \<and> t_root t = sa_Root acc)"

definition fan_walk :: "sync_lib \<Rightarrow> leafs \<Rightarrow> rwalk \<Rightarrow> bool" where
  "fan_walk E ls rw \<longleftrightarrow> walk_wf E ls rw \<and> rw_max rw = 0 \<and> (\<forall>st. rw_pc rw \<noteq> RRet (Some st))"

definition task_cov :: "sync_lib \<Rightarrow> leafs \<Rightarrow> rows \<Rightarrow> stask \<Rightarrow> bool" where
  "task_cov E ls R t \<longleftrightarrow>
     (case t_pc t of
        TWarm rw \<Rightarrow> rw_range rw = ([], []) \<and> walk_wf E ls rw \<and> (\<forall>k \<in> keys_of ls. slot_in R (t_addr t) k \<or> left rw k)
      | TFan rws \<Rightarrow> (\<forall>rw \<in> set rws. fan_walk E ls rw)
          \<and> (\<forall>k \<in> keys_of ls. slot_in R (t_addr t) k \<or> (\<exists>rw \<in> set rws. left rw k))
      | TDequeue \<Rightarrow> slots_full ls R (t_addr t)
      | _ \<Rightarrow> True)"

definition task_clean :: "sync_cfg \<Rightarrow> leafs \<Rightarrow> rows \<Rightarrow> stask \<Rightarrow> bool" where
  "task_clean cfg ls R t \<longleftrightarrow> cf_noResume cfg \<or> slots_full ls R (t_addr t)
     \<or> (case t_pc t of
          TWarm rw \<Rightarrow> warm_clean R (t_addr t) rw
        | TFan rws \<Rightarrow> fan_clean R (t_addr t) rws
        | _ \<Rightarrow> True)"

definition task_inv :: "sync_lib \<Rightarrow> tries \<Rightarrow> leafs \<Rightarrow> sync_cfg \<Rightarrow> rows \<Rightarrow> stask \<Rightarrow> bool" where
  "task_inv E T all cfg R t \<longleftrightarrow>
     task_root E all t \<and> task_cov E (T (t_root t)) R t \<and> task_clean cfg (T (t_root t)) R t"

lemma apart_map: "apart rws \<longleftrightarrow> (\<forall>k. length k = 32 \<longrightarrow> length (filter (in_range k) (map rw_range rws)) \<le> 1)"
  by (simp add: apart_def filter_map comp_def)

text \<open>Rows of other accounts do not matter to a task.\<close>

definition same_slots :: "hash \<Rightarrow> rows \<Rightarrow> rows \<Rightarrow> bool" where
  "same_slots h R R' \<longleftrightarrow> (\<forall>s. R' (KBaseSlot h s) \<noteq> None \<longleftrightarrow> R (KBaseSlot h s) \<noteq> None)"

lemma task_inv_frame:
  assumes "grows R R'" and "same_slots (t_addr t) R R'" and "task_inv E T all cfg R t"
  shows "task_inv E T all cfg R' t"
proof -
  let ?h = "t_addr t" and ?ls = "T (t_root t)"
  have ss: "R' (KBaseSlot ?h s) = None \<longleftrightarrow> R (KBaseSlot ?h s) = None" for s
    using assms(2) unfolding same_slots_def by blast
  have "no_slots R' ?h = no_slots R ?h" "slots_below R' ?h = slots_below R ?h"
    by (simp_all add: no_slots_def slots_below_def ss fun_eq_iff)
  then have "warm_clean R' ?h rw = warm_clean R ?h rw" for rw by (simp only: warm_clean_def)
  moreover have "fan_clean R' ?h rws = fan_clean R ?h rws" for rws
    by (simp add: fan_clean_def none_in_range_def ss)
  moreover have "slots_full ?ls R ?h \<Longrightarrow> slots_full ?ls R' ?h" by (rule grows_in(3) [OF assms(1)])
  ultimately have "task_clean cfg ?ls R' t"
    using assms(3) by (auto simp: task_inv_def task_clean_def split: task_pc.splits)
  moreover have "task_cov E ?ls R' t"
  proof -
    have si: "slot_in R ?h k \<Longrightarrow> slot_in R' ?h k" for k by (rule grows_in(2) [OF assms(1)])
    from assms(3) have "task_cov E ?ls R t" by (simp add: task_inv_def)
    then show ?thesis unfolding task_cov_def slots_full_def
      by (cases "t_pc t") (use si in \<open>simp_all, blast+\<close>)
  qed
  ultimately show ?thesis using assms(3) by (simp add: task_inv_def)
qed

lemma slots_evs:
  fixes h :: hash
  defines "evs sl \<equiv> map EvOp (apply_sops (ApplySlots h sl))"
  shows "evs_map (evs sl) R (KBaseSlot h' s) \<noteq> None \<longleftrightarrow> R (KBaseSlot h' s) \<noteq> None \<or> h' = h \<and> s \<in> fst ` set sl"
    and "(\<And>s x. (s, x) \<in> set sl \<Longrightarrow> sop_ok E T all R0 (PSlot h s x)) \<Longrightarrow> evs_ok E T all R (evs sl)"
proof -
  show "evs_map (evs sl) R (KBaseSlot h' s) \<noteq> None \<longleftrightarrow> R (KBaseSlot h' s) \<noteq> None \<or> h' = h \<and> s \<in> fst ` set sl"
    unfolding evs_def by (induction sl arbitrary: R) auto
  show "(\<And>s x. (s, x) \<in> set sl \<Longrightarrow> sop_ok E T all R0 (PSlot h s x)) \<Longrightarrow> evs_ok E T all R (evs sl)"
    unfolding evs_def by (induction sl arbitrary: R) auto
qed

lemma storage_evs: "bundle_evs (storage_bundle a) = map EvOp (apply_sops a)"
  by (simp add: bundle_evs_def storage_bundle_def)

lemma slots_sent:
  assumes "task_root E all t" and "slots_ok E (T (t_root t)) rw sl"
  shows "evs_ok E T all R (bundle_evs (storage_bundle (ApplySlots (t_addr t) sl)))"
  unfolding storage_evs
  using assms by (intro slots_evs(2) [where ?R0.0 = R]) (auto simp: task_root_def slots_ok_def)

text \<open>The ranges of the fan-out.\<close>

lemma split_loop_lengths:
  "split_loop len step n cur out = Inr rs \<Longrightarrow> \<forall>r \<in> set out. length (fst r) = len \<and> (snd r = [] \<or> length (snd r) = len)
    \<Longrightarrow> \<forall>r \<in> set rs. length (fst r) = len \<and> (snd r = [] \<or> length (snd r) = len)"
proof (induction n arbitrary: cur out)
  case (Suc n)
  from Suc.prems(1) obtain k e where sl: "split_loop len step n (cur + step + 1) (out @ [(k, e)]) = Inr rs"
    and "length k = len" "e = [] \<or> length e = len"
    by (auto simp: pad_def split: if_splits)
  with Suc.prems(2) have "\<forall>r \<in> set (out @ [(k, e)]). length (fst r) = len \<and> (snd r = [] \<or> length (snd r) = len)"
    by auto
  with Suc.IH [OF sl] show ?case by blast
qed simp

lemma splitRange_lengths:
  "splitRange from n = Inr rs \<Longrightarrow> r \<in> set rs \<Longrightarrow> length (fst r) = length from \<and> (snd r = [] \<or> length (snd r) = length from)"
  using split_loop_lengths [of "length from" _ _ _ "[]" rs] by (auto simp: splitRange_def Let_def split: if_splits)

lemma fan_out_start:
  assumes "splitRange st n = Inr rs" and "length st = 32"
  shows "rw \<in> set (fan_out rs) \<Longrightarrow> fan_walk E ls rw" and "apart (fan_out rs)"
    and "length k = 32 \<Longrightarrow> st \<le> k \<longleftrightarrow> (\<exists>rw \<in> set (fan_out rs). left rw k)"
    and "rw \<in> set (fan_out rs) \<Longrightarrow> slots_below R h st \<Longrightarrow> none_in_range R h rw"
proof -
  have ne: "st \<noteq> []" using assms(2) by auto
  note part = splitRange_partition [OF assms(1) ne]
  have cnt: "length (filter (\<lambda>rw. in_range k (rw_range rw)) (fan_out rs)) = length (filter (in_range k) rs)" for k
    by (induction rs) (simp_all add: fan_out_def)
  have ex: "st \<le> k \<longleftrightarrow> (\<exists>r \<in> set rs. in_range k r)" if "length k = 32" for k
  proof -
    have "filter (in_range k) rs = [] \<longleftrightarrow> \<not> st \<le> k" using part [of k] that assms(2) by (auto split: if_splits)
    then show ?thesis by (auto simp: filter_empty_conv)
  qed
  show "fan_walk E ls rw" if "rw \<in> set (fan_out rs)"
  proof -
    from that obtain r where "r \<in> set rs" "rw = \<lparr>rw_start = fst r, rw_end = snd r, rw_max = 0, rw_pc = RInit\<rparr>"
      by (auto simp: fan_out_def)
    with splitRange_lengths [OF assms(1)] assms(2) show ?thesis by (simp add: walk_wf_def fan_walk_def)
  qed
  show "apart (fan_out rs)" using part assms(2) by (simp add: apart_def cnt)
  have lf: "(\<exists>rw \<in> set (fan_out rs). left rw k) \<longleftrightarrow> (\<exists>r \<in> set rs. in_range k r)" for k
    by (auto simp: fan_out_def left_def in_range_def)
  show "length k = 32 \<Longrightarrow> st \<le> k \<longleftrightarrow> (\<exists>rw \<in> set (fan_out rs). left rw k)" unfolding lf by (rule ex)
  show "none_in_range R h rw" if rw: "rw \<in> set (fan_out rs)" and b: "slots_below R h st"
    unfolding none_in_range_def
  proof (intro allI impI notI)
    fix s assume s: "R (KBaseSlot h s) \<noteq> None" and r: "in_range (be_bytes 32 s) (rw_range rw)"
    from rw have "rw_range rw \<in> set rs" by (auto simp: fan_out_def)
    with r ex [of "be_bytes 32 s"] have "st \<le> be_bytes 32 s" by auto
    with b s show False by (auto simp: slots_below_def)
  qed
qed

lemma filter_one:
  assumes "length (filter P xs) \<le> 1" and "i < length xs" "j < length xs" "P (xs ! i)" "P (xs ! j)"
  shows "i = j"
proof (rule ccontr)
  assume ij: "i \<noteq> j"
  have "card {i, j} \<le> card {l. l < length xs \<and> P (xs ! l)}"
    using assms by (intro card_mono) auto
  with ij assms(1) show False by (simp add: length_filter_conv_card)
qed

context healthy_lmdb
begin

lemma warm_quiet:
  assumes T: "tries_ok T" and wf: "wf_rows (kv (env d))" and g: "grows (body (kv (env d))) R"
    and inv: "task_inv E T all cfg R t" and pc: "t_pc t = TWarm rw" and h: "honest_walk (T (t_root t)) rw act"
    and ex: "walk_exec L E cfg d (t_addr t) act rw = Some (rw', None)"
  shows "task_inv E T all cfg R (t\<lparr>t_pc := TWarm rw'\<rparr>)"
proof -
  let ?h = "t_addr t" and ?ls = "T (t_root t)"
  from inv pc have w: "walk_wf E ?ls rw" "rw_range rw = ([], [])" and cv: "\<forall>k \<in> keys_of ?ls. slot_in R ?h k \<or> left rw k"
    and cl: "cf_noResume cfg \<or> slots_full ?ls R ?h \<or> warm_clean R ?h rw" and rt: "task_root E all t"
    by (auto simp: task_inv_def task_cov_def task_clean_def)
  have "may_resume cfg ?ls R ?h rw" if "rw_pc rw = RInit"
    using cl that by (auto simp: may_resume_def none_in_range_def warm_clean_def no_slots_def)
  note q = walk_quiet [OF T wf g w(1) h ex this]
  have "slot_in R ?h k \<or> left rw' k" if "k \<in> keys_of ?ls" for k
    using q(4) cv that by (auto simp: slots_full_def)
  with q cl w rt show ?thesis
    by (auto simp: task_inv_def task_root_def task_cov_def task_clean_def)
qed

lemma warm_sends:
  assumes inv: "task_inv E T all cfg R t" and pc: "t_pc t = TWarm rw"
    and ex: "walk_exec L E cfg d (t_addr t) act rw = Some (rw', Some b)"
  shows "evs_ok E T all R (bundle_evs b)" and "task_inv E T all cfg (evs_map (bundle_evs b) R) (t\<lparr>t_pc := TWarm rw'\<rparr>)"
    and "h \<noteq> t_addr t \<Longrightarrow> same_slots h R (evs_map (bundle_evs b) R)"
proof -
  let ?h = "t_addr t" and ?ls = "T (t_root t)" and ?R = "evs_map (bundle_evs b) R"
  from inv pc have w: "walk_wf E ?ls rw" "rw_range rw = ([], [])" and cv: "\<forall>k \<in> keys_of ?ls. slot_in R ?h k \<or> left rw k"
    and cl: "cf_noResume cfg \<or> slots_full ?ls R ?h \<or> warm_clean R ?h rw" and rt: "task_root E all t"
    by (auto simp: task_inv_def task_cov_def task_clean_def)
  obtain sl where b: "b = storage_bundle (ApplySlots ?h sl)" and sl: "slots_ok E ?ls rw sl"
    and w': "walk_wf E ?ls rw'" "rw_range rw' = rw_range rw" "rw_pc rw' \<noteq> RInit"
    and lf: "\<And>k. left rw k \<Longrightarrow> left rw' k \<or> be_word k \<in> fst ` set sl"
    and wc: "\<And>R R'. warm_clean R ?h rw \<Longrightarrow> (\<And>s. R' (KBaseSlot ?h s) \<noteq> None \<Longrightarrow> R (KBaseSlot ?h s) \<noteq> None \<or> s \<in> fst ` set sl)
      \<Longrightarrow> warm_clean R' ?h rw'"
    by (rule walk_sends [OF w(1) ex]) blast
  show "evs_ok E T all R (bundle_evs b)" unfolding b using slots_sent [of E all t T rw sl R] rt sl by blast
  have rows: "?R (KBaseSlot h' s) \<noteq> None \<longleftrightarrow> R (KBaseSlot h' s) \<noteq> None \<or> h' = ?h \<and> s \<in> fst ` set sl" for h' s
    unfolding b storage_evs by (rule slots_evs(1))
  have si: "slot_in R ?h k \<Longrightarrow> slot_in ?R ?h k" "be_word k \<in> fst ` set sl \<Longrightarrow> slot_in ?R ?h k" for k
    unfolding slot_in_def rows by auto
  have cv': "slot_in ?R ?h k \<or> left rw' k" if "k \<in> keys_of ?ls" for k using cv lf si that by blast
  have "slots_full ?ls R ?h \<Longrightarrow> slots_full ?ls ?R ?h" using si(1) by (auto simp: slots_full_def)
  moreover have "warm_clean R ?h rw \<Longrightarrow> warm_clean ?R ?h rw'" using wc [of R ?R] rows by blast
  ultimately have "cf_noResume cfg \<or> slots_full ?ls ?R ?h \<or> warm_clean ?R ?h rw'" using cl by blast
  with w w' cv' rt show "task_inv E T all cfg ?R (t\<lparr>t_pc := TWarm rw'\<rparr>)"
    by (auto simp: task_inv_def task_root_def task_cov_def task_clean_def)
  show "h \<noteq> t_addr t \<Longrightarrow> same_slots h R ?R" unfolding same_slots_def rows by simp
qed

lemma fan_quiet:
  assumes T: "tries_ok T" and wf: "wf_rows (kv (env d))" and g: "grows (body (kv (env d))) R"
    and inv: "task_inv E T all cfg R t" and pc: "t_pc t = TFan rws" and i: "i < length rws"
    and h: "honest_walk (T (t_root t)) (rws ! i) act"
    and ex: "walk_exec L E cfg d (t_addr t) act (rws ! i) = Some (rw', None)"
  shows "task_inv E T all cfg R (t\<lparr>t_pc := TFan (rws[i := rw'])\<rparr>)"
proof -
  let ?h = "t_addr t" and ?ls = "T (t_root t)" and ?rw = "rws ! i" and ?rws = "rws[i := rw']"
  from inv pc have w: "\<forall>rw \<in> set rws. fan_walk E ?ls rw"
    and cv: "\<forall>k \<in> keys_of ?ls. slot_in R ?h k \<or> (\<exists>rw \<in> set rws. left rw k)"
    and cl: "cf_noResume cfg \<or> slots_full ?ls R ?h \<or> fan_clean R ?h rws" and rt: "task_root E all t"
    by (auto simp: task_inv_def task_cov_def task_clean_def)
  have "may_resume cfg ?ls R ?h ?rw" if "rw_pc ?rw = RInit"
    using cl that i by (auto simp: may_resume_def fan_clean_def)
  note q = walk_quiet [OF T wf g _ h ex this]
  have wi: "walk_wf E ?ls ?rw" "rw_max ?rw = 0" using w i by (auto simp: fan_walk_def)
  have sub: "\<exists>rw'' \<in> set ?rws. left rw'' k" if "rw \<in> set rws" "left rw k" "left ?rw k \<longrightarrow> left rw' k" for rw k
  proof -
    from that(1) obtain j where j: "j < length rws" "rw = rws ! j" by (auto simp: in_set_conv_nth)
    show ?thesis
    proof (cases "j = i")
      case True
      with that j i show ?thesis by (auto intro!: bexI [of _ rw'] simp: set_update_memI)
    next
      case False
      with j have "rw \<in> set ?rws" by (metis length_list_update nth_list_update_neq nth_mem)
      with that(2) show ?thesis by blast
    qed
  qed
  have cv': "slot_in R ?h k \<or> (\<exists>rw \<in> set ?rws. left rw k)" if "k \<in> keys_of ?ls" for k
    using q(4) [OF wi(1)] cv sub that unfolding slots_full_def by blast
  have "apart ?rws" if "apart rws"
  proof -
    have "map rw_range ?rws = map rw_range rws"
      using q(2) [OF wi(1)] i by (simp add: map_update list_update_same_conv)
    with that show ?thesis by (simp only: apart_map)
  qed
  moreover have "none_in_range R ?h rw" if "fan_clean R ?h rws" "rw \<in> set ?rws" "rw_pc rw = RInit" for rw
    using that q(3) [OF wi(1)] set_update_subset_insert [of rws i rw'] by (auto simp: fan_clean_def)
  ultimately have "fan_clean R ?h rws \<Longrightarrow> fan_clean R ?h ?rws" by (simp add: fan_clean_def)
  moreover have "fan_walk E ?ls rw'" using q(1) [OF wi(1)] walk_exec_max [OF ex] wi(2) by (simp add: fan_walk_def)
  then have "\<forall>rw \<in> set ?rws. fan_walk E ?ls rw" using w set_update_subset_insert [of rws i rw'] by auto
  ultimately show ?thesis using cv' cl rt by (auto simp: task_inv_def task_root_def task_cov_def task_clean_def)
qed

lemma fan_sends:
  assumes T: "tries_ok T" and inv: "task_inv E T all cfg R t" and pc: "t_pc t = TFan rws" and i: "i < length rws"
    and ex: "walk_exec L E cfg d (t_addr t) act (rws ! i) = Some (rw', Some b)"
  shows "evs_ok E T all R (bundle_evs b)" and "task_inv E T all cfg (evs_map (bundle_evs b) R) (t\<lparr>t_pc := TFan (rws[i := rw'])\<rparr>)"
    and "h \<noteq> t_addr t \<Longrightarrow> same_slots h R (evs_map (bundle_evs b) R)"
proof -
  let ?h = "t_addr t" and ?ls = "T (t_root t)" and ?R = "evs_map (bundle_evs b) R" and ?rw = "rws ! i" and ?rws = "rws[i := rw']"
  from inv pc have w: "\<forall>rw \<in> set rws. fan_walk E ?ls rw"
    and cv: "\<forall>k \<in> keys_of ?ls. slot_in R ?h k \<or> (\<exists>rw \<in> set rws. left rw k)"
    and cl: "cf_noResume cfg \<or> slots_full ?ls R ?h \<or> fan_clean R ?h rws" and rt: "task_root E all t"
    by (auto simp: task_inv_def task_cov_def task_clean_def)
  have wi: "walk_wf E ?ls ?rw" "rw_max ?rw = 0" using w i by (auto simp: fan_walk_def)
  obtain sl where b: "b = storage_bundle (ApplySlots ?h sl)" and sl: "slots_ok E ?ls ?rw sl"
    and w': "walk_wf E ?ls rw'" "rw_range rw' = rw_range ?rw" "rw_pc rw' \<noteq> RInit"
    and lf: "\<And>k. left ?rw k \<Longrightarrow> left rw' k \<or> be_word k \<in> fst ` set sl"
    by (rule walk_sends [OF wi(1) ex]) blast
  show "evs_ok E T all R (bundle_evs b)" unfolding b using slots_sent [of E all t T ?rw sl R] rt sl by blast
  have rows: "?R (KBaseSlot h' s) \<noteq> None \<longleftrightarrow> R (KBaseSlot h' s) \<noteq> None \<or> h' = ?h \<and> s \<in> fst ` set sl" for h' s
    unfolding b storage_evs by (rule slots_evs(1))
  have si: "slot_in R ?h k \<Longrightarrow> slot_in ?R ?h k" "be_word k \<in> fst ` set sl \<Longrightarrow> slot_in ?R ?h k" for k
    unfolding slot_in_def rows by auto
  have cv': "slot_in ?R ?h k \<or> (\<exists>rw \<in> set ?rws. left rw k)" if k: "k \<in> keys_of ?ls" for k
  proof (cases "slot_in R ?h k")
    case True
    then show ?thesis using si by blast
  next
    case False
    with cv k obtain j where j: "j < length rws" "left (rws ! j) k" by (metis in_set_conv_nth)
    show ?thesis
    proof (cases "j = i")
      case True
      with j lf [of k] si(2) [of k] i set_update_memI [of i rws rw'] show ?thesis by blast
    next
      case False
      with j have "rws ! j \<in> set ?rws" by (metis length_list_update nth_list_update_neq nth_mem)
      with j(2) show ?thesis by blast
    qed
  qed
  have "slots_full ?ls R ?h \<Longrightarrow> slots_full ?ls ?R ?h" using si(1) by (auto simp: slots_full_def)
  moreover have "fan_clean ?R ?h ?rws" if fc: "fan_clean R ?h rws"
  proof -
    have mr: "map rw_range ?rws = map rw_range rws"
      using w'(2) i by (simp add: map_update list_update_same_conv)
    from fc have ap: "apart rws" by (simp add: fan_clean_def)
    then have "apart ?rws" using mr by (simp only: apart_map)
    moreover have "none_in_range ?R ?h rw" if rw: "rw \<in> set ?rws" "rw_pc rw = RInit" for rw
    proof -
      from rw obtain j where j: "j < length rws" "rw = ?rws ! j" by (auto simp: in_set_conv_nth)
      with rw(2) w'(3) i have ji: "j \<noteq> i" by auto
      with j have rj: "rw = rws ! j" by simp
      have old: "none_in_range R ?h rw" using fc rw(2) j(1) rj by (auto simp: fan_clean_def)
      have "\<not> in_range (be_bytes 32 s) (rw_range rw)" if "(s, x) \<in> set sl" for s x
      proof
        assume "in_range (be_bytes 32 s) (rw_range rw)"
        moreover have "in_range (be_bytes 32 s) (rw_range ?rw)" using sl that by (auto simp: slots_ok_def)
        ultimately show False
          using filter_one [of "\<lambda>rw. in_range (be_bytes 32 s) (rw_range rw)" rws i j] ap i j(1) rj ji by (simp add: apart_def)
      qed
      with old show ?thesis unfolding none_in_range_def rows by force
    qed
    ultimately show ?thesis by (simp add: fan_clean_def)
  qed
  moreover have "fan_walk E ?ls rw'" using w'(1) walk_exec_max [OF ex] wi(2) by (simp add: fan_walk_def)
  then have "\<forall>rw \<in> set ?rws. fan_walk E ?ls rw" using w set_update_subset_insert [of rws i rw'] by auto
  ultimately show "task_inv E T all cfg ?R (t\<lparr>t_pc := TFan ?rws\<rparr>)"
    using cv' cl rt by (auto simp: task_inv_def task_root_def task_cov_def task_clean_def)
  show "h \<noteq> t_addr t \<Longrightarrow> same_slots h R ?R" unfolding same_slots_def rows by simp
qed

lemma warm_return_inv:
  assumes T: "tries_ok T" and inv: "task_inv E T all cfg R t" and pc: "t_pc t = TWarm rw"
    and ex: "warm_return cfg (rw_pc rw) = Some (pc', ENone)"
  shows "task_inv E T all cfg R (t\<lparr>t_pc := pc'\<rparr>)"
proof -
  let ?h = "t_addr t" and ?ls = "T (t_root t)"
  from inv pc have w: "walk_wf E ?ls rw" "rw_range rw = ([], [])" and cv: "\<forall>k \<in> keys_of ?ls. slot_in R ?h k \<or> left rw k"
    and cl: "cf_noResume cfg \<or> slots_full ?ls R ?h \<or> warm_clean R ?h rw" and rt: "task_root E all t"
    by (auto simp: task_inv_def task_cov_def task_clean_def)
  consider (err) err where "pc' = TErr err" | (all) "rw_pc rw = RRet None" "pc' = TDequeue"
    | (fan) st rs where "rw_pc rw = RRet (Some st)" "splitRange st (cf_splitWays cfg) = Inr rs" "pc' = TFan (fan_out rs)"
    using ex by (auto simp: warm_return_def split: walk_pc.splits option.splits sum.splits)
  then show ?thesis
  proof cases
    case err
    then show ?thesis using rt by (simp add: task_inv_def task_root_def task_cov_def task_clean_def)
  next
    case all
    then have "slots_full ?ls R ?h" using cv by (simp add: slots_full_def left_def)
    then show ?thesis using rt all by (simp add: task_inv_def task_root_def task_cov_def task_clean_def)
  next
    case fan
    have st: "length st = 32" using w(1) fan(1) by (simp add: walk_wf_def next_ok_def)
    note fo = fan_out_start [OF fan(2) st]
    have "slot_in R ?h k \<or> (\<exists>rw \<in> set (fan_out rs). left rw k)" if k: "k \<in> keys_of ?ls" for k
    proof -
      have "slot_in R ?h k \<or> st \<le> k" using cv k fan(1) by (auto simp: left_def)
      with fo(3) [OF tries_okD(1) [OF T k]] show ?thesis by blast
    qed
    moreover have "fan_clean R ?h (fan_out rs)" if "warm_clean R ?h rw"
      using that fo(2,4) fan(1) by (simp add: warm_clean_def fan_clean_def)
    ultimately show ?thesis using rt fan(3) fo(1) cl by (auto simp: task_inv_def task_root_def task_cov_def task_clean_def)
  qed
qed

lemma fan_join_inv:
  assumes inv: "task_inv E T all cfg R t" and pc: "t_pc t = TFan rws" and ex: "fan_join rws = Some pc'"
  shows "task_inv E T all cfg R (t\<lparr>t_pc := pc'\<rparr>)"
proof (cases "walk_errors rws")
  case Nil
  let ?h = "t_addr t" and ?ls = "T (t_root t)"
  have "rw_pc rw = RRet None" if "rw \<in> set rws" for rw
  proof -
    have "walk_returned (rw_pc rw)" using ex that by (auto simp: fan_join_def list_all_iff split: if_splits)
    moreover have "\<nexists>err. rw_pc rw = RErr err" using Nil that by (auto simp: walk_errors_def split: walk_pc.splits)
    moreover have "\<forall>st. rw_pc rw \<noteq> RRet (Some st)"
      using inv pc that by (auto simp: task_inv_def task_cov_def fan_walk_def)
    ultimately show ?thesis by (cases "rw_pc rw") auto
  qed
  then have "\<not> left rw k" if "rw \<in> set rws" for rw k using that by (simp add: left_def)
  then have "slots_full ?ls R ?h" using inv pc by (auto simp: task_inv_def task_cov_def slots_full_def)
  with ex Nil inv show ?thesis
    by (auto simp: fan_join_def task_inv_def task_root_def task_cov_def task_clean_def split: if_splits)
next
  case (Cons err errs)
  with ex inv show ?thesis
    by (auto simp: fan_join_def task_inv_def task_root_def task_cov_def task_clean_def split: if_splits)
qed

text \<open>The whole task: what a step leaves, and what it sends.\<close>

lemma task_exec_step:
  assumes T: "tries_ok T" and wf: "wf_rows (kv (env d))" and g: "grows (body (kv (env d))) R"
    and inv: "task_inv E T all cfg R t" and h: "honest_task T act t"
    and ex: "task_exec L E cfg d gn act t = Some (t', eff)"
  shows "t_addr t' = t_addr t"
    and "eff = ENone \<Longrightarrow> task_inv E T all cfg R t'"
    and "\<And>b. eff = ESend b \<Longrightarrow> evs_ok E T all R (bundle_evs b)"
    and "\<And>b. eff = ESend b \<Longrightarrow> task_inv E T all cfg (evs_map (bundle_evs b) R) t'"
    and "\<And>b h. eff = ESend b \<Longrightarrow> h \<noteq> t_addr t \<Longrightarrow> same_slots h R (evs_map (bundle_evs b) R)"
proof -
  let ?G = "t_addr t' = t_addr t \<and> (eff = ENone \<longrightarrow> task_inv E T all cfg R t')
    \<and> (\<forall>b. eff = ESend b \<longrightarrow> evs_ok E T all R (bundle_evs b) \<and> task_inv E T all cfg (evs_map (bundle_evs b) R) t'
         \<and> (\<forall>h. h \<noteq> t_addr t \<longrightarrow> same_slots h R (evs_map (bundle_evs b) R)))"
  consider (warm) wa rw rw' b where "act = TaWarm wa" "t_pc t = TWarm rw"
      "walk_exec L E cfg d (t_addr t) wa rw = Some (rw', b)" "t' = t\<lparr>t_pc := TWarm rw'\<rparr>" "eff = effect_of b"
    | (split) rw pc where "t_pc t = TWarm rw" "warm_return cfg (rw_pc rw) = Some (pc, eff)" "t' = t\<lparr>t_pc := pc\<rparr>"
    | (fan) i wa rws rw' b where "act = TaFan i wa" "t_pc t = TFan rws" "i < length rws"
      "walk_exec L E cfg d (t_addr t) wa (rws ! i) = Some (rw', b)" "t' = t\<lparr>t_pc := TFan (rws[i := rw'])\<rparr>" "eff = effect_of b"
    | (join) rws pc where "t_pc t = TFan rws" "fan_join rws = Some pc" "t' = t\<lparr>t_pc := pc\<rparr>" "eff = ENone"
    | (send) "t_pc t = TDequeue" "t' = t\<lparr>t_pc := TDone\<rparr>" "eff = ESend (storage_bundle (ApplyDequeue (t_addr t)))"
    | (cancel) "t_pc t = TDequeue" "t' = t\<lparr>t_pc := TErr ErrCanceled\<rparr>" "eff = ENone"
    using ex unfolding task_exec_def
    by (auto simp del: walk_exec.simps split: task_act.splits task_pc.splits if_splits option.splits)
  then have ?G
  proof cases
    case warm
    have hw: "honest_walk (T (t_root t)) rw wa" using h warm by (simp add: honest_task_def)
    show ?thesis
    proof (cases b)
      case None
      with warm_quiet [OF T wf g inv warm(2) hw] warm show ?thesis by (simp add: effect_of_def del: walk_exec.simps)
    next
      case (Some x)
      with warm_sends [OF inv warm(2) warm(3) [unfolded Some]] warm show ?thesis by (simp add: effect_of_def del: walk_exec.simps)
    qed
  next
    case split
    have "eff \<noteq> ESend b" for b using split(2) by (auto simp: warm_return_def split: walk_pc.splits option.splits sum.splits)
    moreover have "task_inv E T all cfg R t'" if "eff = ENone"
      unfolding split(3) by (rule warm_return_inv [OF T inv split(1)]) (use split(2) that in simp)
    ultimately show ?thesis using split(3) by simp
  next
    case fan
    have hw: "honest_walk (T (t_root t)) (rws ! i) wa" using h fan by (simp add: honest_task_def)
    show ?thesis
    proof (cases b)
      case None
      with fan_quiet [OF T wf g inv fan(2,3) hw] fan show ?thesis by (simp add: effect_of_def del: walk_exec.simps)
    next
      case (Some x)
      with fan_sends [OF T inv fan(2,3) fan(4) [unfolded Some]] fan show ?thesis by (simp add: effect_of_def del: walk_exec.simps)
    qed
  next
    case join
    with fan_join_inv [OF inv join(1,2)] show ?thesis by simp
  next
    case send
    let ?b = "storage_bundle (ApplyDequeue (t_addr t))"
    from inv send(1) have sf: "slots_full (T (t_root t)) R (t_addr t)" and rt: "task_root E all t"
      by (simp_all add: task_inv_def task_cov_def)
    then have "stored E T all R (t_addr t)" by (auto simp: stored_def task_root_def)
    moreover have "same_slots h R (evs_map (bundle_evs ?b) R)" for h by (simp add: same_slots_def storage_evs)
    ultimately show ?thesis using send rt
      by (simp add: storage_evs task_inv_def task_root_def task_cov_def task_clean_def)
  next
    case cancel
    with inv show ?thesis by (simp add: task_inv_def task_root_def task_cov_def task_clean_def)
  qed
  then show "t_addr t' = t_addr t" "eff = ENone \<Longrightarrow> task_inv E T all cfg R t'"
    "\<And>b. eff = ESend b \<Longrightarrow> evs_ok E T all R (bundle_evs b)"
    "\<And>b. eff = ESend b \<Longrightarrow> task_inv E T all cfg (evs_map (bundle_evs b) R) t'"
    "\<And>b h. eff = ESend b \<Longrightarrow> h \<noteq> t_addr t \<Longrightarrow> same_slots h R (evs_map (bundle_evs b) R)"
    by blast+
qed

end

end
