(* ===== verification/SyncSystem.thy ===== *)
theory SyncSystem
  imports SyncTask
begin

text \<open>
  The loader as a whole: \<open>sync_inv\<close> holds in every state a run reaches. It gives two things: at any moment
  the committed rows are such that a later run can resume from them, and when the driver returns
  without an error the store holds the whole state. The driver checks little itself: that every slot is
  there follows from the empty queue, which \<^verbatim>\<open>Finish\<close> insists on.
\<close>

subsection \<open>The invariant\<close>

definition committed_ok :: "('e \<Rightarrow> bytes \<rightharpoonup> bytes) \<Rightarrow> sync_lib \<Rightarrow> tries \<Rightarrow> hash \<Rightarrow> u64 \<Rightarrow> 'e db \<Rightarrow> bool" where
  "committed_ok kv E T root S d \<longleftrightarrow>
     db_ok kv S d \<and> loading E T root (body (kv (env d)))
     \<and> (\<forall>p. kv (env d) MetaBaselineProgress = Some p \<longrightarrow> bits_ok (T root) (body (kv (env d))) p)"

definition fresh_ok :: "sync_lib \<Rightarrow> tries \<Rightarrow> leafs \<Rightarrow> sync_cfg \<Rightarrow> rows \<Rightarrow> hash set \<Rightarrow> bool" where
  "fresh_ok E T all cfg R X \<longleftrightarrow> cf_noResume cfg \<or> (\<forall>h. h \<notin> X \<longrightarrow> no_slots R h \<or> stored E T all R h)"

definition procs :: "sync_lib \<Rightarrow> tries \<Rightarrow> sync_cfg \<Rightarrow> rows \<Rightarrow> (nat \<times> seg_pc) list \<Rightarrow> stask list \<Rightarrow> bool" where
  "procs E T cfg R segs tasks \<longleftrightarrow>
     (\<forall>p \<in> set segs. fst p < 256 \<and> seg_inv E (T (cf_root cfg)) R (fst p) (snd p))
     \<and> (\<forall>seg < 256. seg \<in> fst ` set segs \<or> seg_full (T (cf_root cfg)) R seg)
     \<and> (\<forall>t \<in> set tasks. task_inv E T (T (cf_root cfg)) cfg R t)
     \<and> distinct (map t_addr tasks)
     \<and> fresh_ok E T (T (cf_root cfg)) cfg R (t_addr ` set tasks)"

definition codes_left :: "sync_lib \<Rightarrow> leafs \<Rightarrow> rows \<Rightarrow> hash list \<Rightarrow> bool" where
  "codes_left E all R ms \<longleftrightarrow> (\<forall>h acc. R (KBaseAccount h) \<noteq> None \<longrightarrow> trie_acct E all h = Some acc \<longrightarrow>
     CodeHash (account_row acc) \<noteq> 0 \<longrightarrow> CodeHash (account_row acc) \<noteq> lib_kc E [] \<longrightarrow>
     R (KCode (CodeHash (account_row acc))) \<noteq> None \<or> CodeHash (account_row acc) \<in> set ms)"

definition segs_done :: "(nat \<times> seg_pc) list \<Rightarrow> bool" where
  "segs_done segs \<longleftrightarrow> (\<forall>p \<in> set segs. snd p = SegDone)"

definition queue_row :: "sync_lib \<Rightarrow> leafs \<Rightarrow> hash \<times> hash \<Rightarrow> bool" where
  "queue_row E all p \<longleftrightarrow> (\<exists>acc. trie_acct E all (fst p) = Some acc \<and> has_storage E acc \<and> snd p = sa_Root acc)"

definition driver_inv :: "('e \<Rightarrow> bytes \<rightharpoonup> bytes) \<Rightarrow> sync_lib \<Rightarrow> leafs \<Rightarrow> 'e syncer \<Rightarrow> bool" where
  "driver_inv kv E all s \<longleftrightarrow>
     (y_writer s = WDone \<longrightarrow> y_closed s \<and> y_writes s = [])
     \<and> (case y_driver s of
          DPhase1 \<Rightarrow> y_tasks s = [] \<and> ((\<exists>p \<in> set (y_segs s). \<exists>err. snd p = SegErr err) \<longrightarrow> y_gerr s \<noteq> None)
        | DBarrier \<Rightarrow> y_tasks s = [] \<and> segs_done (y_segs s)
        | DWait \<Rightarrow> y_tasks s = [] \<and> segs_done (y_segs s)
        | DScan after \<Rightarrow> segs_done (y_segs s) \<and> (\<forall>t \<in> set (y_tasks s). \<exists>a. after = Some a \<and> t_addr t \<le> a)
        | DSpawn rows lst \<Rightarrow> segs_done (y_segs s) \<and> list_all (queue_row E all) rows
            \<and> sorted_wrt (<) (map fst rows) \<and> (\<forall>p \<in> set rows. fst p \<le> lst)
            \<and> (\<forall>t \<in> set (y_tasks s). t_addr t \<le> lst \<and> (\<forall>p \<in> set rows. t_addr t < fst p))
        | DJoin \<Rightarrow> segs_done (y_segs s)
        | DClose err \<Rightarrow> err = None \<longrightarrow> segs_done (y_segs s)
        | DWriter err \<Rightarrow> err = None \<longrightarrow> segs_done (y_segs s)
        | DSweep \<Rightarrow> segs_done (y_segs s) \<and> y_writer s = WDone \<and> body (kv (env (y_db s))) = cur_rows kv (y_db s) (y_bl s)
        | DCodes ms \<Rightarrow> segs_done (y_segs s) \<and> y_writer s = WDone \<and> codes_left E all (cur_rows kv (y_db s) (y_bl s)) ms
        | DFinish \<Rightarrow> segs_done (y_segs s) \<and> y_writer s = WDone \<and> codes_left E all (cur_rows kv (y_db s) (y_bl s)) []
        | DRet err \<Rightarrow> True)"

text \<open>What the driver leaves when it returns without an error.\<close>

definition loaded_db :: "('e \<Rightarrow> bytes \<rightharpoonup> bytes) \<Rightarrow> sync_lib \<Rightarrow> leafs \<Rightarrow> 'e db \<Rightarrow> bool" where
  "loaded_db kv E all d \<longleftrightarrow> complete kv d
     \<and> (\<forall>seg < 256. seg_full all (body (kv (env d))) seg)
     \<and> (\<forall>h. body (kv (env d)) (KQueue h) = None)
     \<and> codes_left E all (body (kv (env d))) []"

definition live_inv :: "('e \<Rightarrow> bytes \<rightharpoonup> bytes) \<Rightarrow> sync_lib \<Rightarrow> tries \<Rightarrow> sync_cfg \<Rightarrow> 'e syncer \<Rightarrow> bool" where
  "live_inv kv E T cfg s \<longleftrightarrow>
     store_inv kv E T (cf_root cfg) (cf_height cfg) s
     \<and> procs E T cfg (fut_rows kv s) (y_segs s) (y_tasks s) \<and> driver_inv kv E (T (cf_root cfg)) s"

definition sync_inv :: "('e \<Rightarrow> bytes \<rightharpoonup> bytes) \<Rightarrow> sync_lib \<Rightarrow> tries \<Rightarrow> sync_cfg \<Rightarrow> 'e syncer \<Rightarrow> bool" where
  "sync_inv kv E T cfg s \<longleftrightarrow>
     committed_ok kv E T (cf_root cfg) (cf_height cfg) (y_db s)
     \<and> (y_crash s \<or>
        (case y_driver s of
           DRet err \<Rightarrow> y_writer s = WDone \<and> (err = None \<longrightarrow> loaded_db kv E (T (cf_root cfg)) (y_db s))
         | _ \<Rightarrow> live_inv kv E T cfg s))"

lemma store_committed: "store_inv kv E T root S s \<Longrightarrow> committed_ok kv E T root S (y_db s)"
  by (simp add: store_inv_def load_store_def committed_ok_def)

lemma live_sync_inv: "live_inv kv E T cfg s \<Longrightarrow> (\<And>err. y_driver s \<noteq> DRet err) \<Longrightarrow> sync_inv kv E T cfg s"
  using store_committed by (auto simp: sync_inv_def live_inv_def split: driver.splits)

lemma inv_live: "sync_inv kv E T cfg s \<Longrightarrow> \<not> y_crash s \<Longrightarrow> (\<And>err. y_driver s \<noteq> DRet err) \<Longrightarrow> live_inv kv E T cfg s"
  by (cases "y_driver s") (auto simp: sync_inv_def)

subsection \<open>A worker's or a task's step, seen by the others\<close>

lemma fresh_ok_frame:
  assumes "fresh_ok E T all cfg R X" and "grows R R'" and "\<And>h. h \<notin> X \<Longrightarrow> same_slots h R R'"
  shows "fresh_ok E T all cfg R' X"
proof -
  have "no_slots R' h" if "h \<notin> X" "no_slots R h" for h
    using assms(3) [OF that(1)] that(2) by (simp add: same_slots_def no_slots_def)
  then show ?thesis using assms(1) grows_in(5) [OF assms(2)] unfolding fresh_ok_def by blast
qed

lemma procs_frame:
  assumes "procs E T cfg R segs tasks" and g: "grows R R'" and "\<And>h. same_slots h R R'"
  shows "procs E T cfg R' segs tasks"
  using assms(1) seg_inv_grows [OF g] grows_in(4) [OF g] task_inv_frame [OF g assms(3)]
    fresh_ok_frame [OF _ g assms(3)]
  unfolding procs_def by blast

lemma procs_seg:
  assumes p: "procs E T cfg R segs tasks" and i: "i < length segs" and inv: "seg_inv E (T (cf_root cfg)) R (fst (segs ! i)) pc"
  shows "procs E T cfg R (segs[i := (fst (segs ! i), pc)]) tasks"
proof -
  let ?segs = "segs[i := (fst (segs ! i), pc)]"
  have "map fst ?segs = map fst segs" using i by (simp add: map_update list_update_same_conv)
  then have "fst ` set ?segs = fst ` set segs" by (metis list.set_map)
  moreover have "fst p < 256 \<and> seg_inv E (T (cf_root cfg)) R (fst p) (snd p)" if "p \<in> set ?segs" for p
  proof -
    have "fst (segs ! i) < 256" using p i by (auto simp: procs_def)
    moreover have "p = (fst (segs ! i), pc) \<or> p \<in> set segs" using that set_update_subset_insert [of segs i] by blast
    ultimately show ?thesis using inv p by (auto simp: procs_def)
  qed
  ultimately show ?thesis using p by (simp add: procs_def)
qed

lemma procs_task:
  assumes p: "procs E T cfg R segs tasks" and i: "i < length tasks" and t: "t_addr t = t_addr (tasks ! i)"
    and g: "grows R R'" and o: "\<And>h. h \<noteq> t_addr t \<Longrightarrow> same_slots h R R'"
    and inv: "task_inv E T (T (cf_root cfg)) cfg R' t"
  shows "procs E T cfg R' segs (tasks[i := t])"
proof -
  have ma: "map t_addr (tasks[i := t]) = map t_addr tasks" using i t by (simp add: map_update list_update_same_conv)
  then have sa: "t_addr ` set (tasks[i := t]) = t_addr ` set tasks" by (metis list.set_map)
  have ds: "distinct (map t_addr tasks)" using p by (simp add: procs_def)
  have "task_inv E T (T (cf_root cfg)) cfg R' x" if "x \<in> set (tasks[i := t])" for x
  proof -
    from that obtain j where j: "j < length tasks" "x = tasks[i := t] ! j" by (auto simp: in_set_conv_nth)
    show ?thesis
    proof (cases "j = i")
      case True
      with j inv show ?thesis by simp
    next
      case False
      with j have x: "x = tasks ! j" by simp
      have "t_addr x \<noteq> t_addr t" using ds False i j(1) unfolding t x by (simp add: distinct_conv_nth)
      moreover have "task_inv E T (T (cf_root cfg)) cfg R x" using p j(1) x by (auto simp: procs_def)
      ultimately show ?thesis using task_inv_frame [OF g o] by blast
    qed
  qed
  moreover have "fresh_ok E T (T (cf_root cfg)) cfg R' (t_addr ` set tasks)"
    using p t i by (intro fresh_ok_frame [OF _ g o]) (auto simp: procs_def)
  ultimately show ?thesis
    using p seg_inv_grows [OF g] grows_in(4) [OF g] ds unfolding procs_def ma sa by blast
qed

lemma account_evs_slots: "same_slots h R (evs_map (map EvOp (apply_sops (ApplyAccount code c hs a r row))) R)"
  by (cases code; cases hs) (simp_all add: same_slots_def)

lemma seg_exec_step:
  assumes T: "tries_ok T" and inv: "seg_inv E (T root) R seg pc" and seg: "seg < 256" and h: "honest_seg E (T root) act pc"
    and ex: "seg_exec E seg claims act pc = Some (pc', claims', b)"
  shows "pc \<noteq> SegDone"
    and "b = None \<Longrightarrow> seg_inv E (T root) R seg pc'"
    and "\<And>x. b = Some x \<Longrightarrow> evs_ok E T (T root) R (bundle_evs x) \<and> seg_inv E (T root) (evs_map (bundle_evs x) R) seg pc'
      \<and> (\<forall>h. same_slots h R (evs_map (bundle_evs x) R))"
proof -
  have "pc \<noteq> SegDone \<and> (b = None \<longrightarrow> seg_inv E (T root) R seg pc')
    \<and> (\<forall>x. b = Some x \<longrightarrow> evs_ok E T (T root) R (bundle_evs x) \<and> seg_inv E (T root) (evs_map (bundle_evs x) R) seg pc'
      \<and> (\<forall>h. same_slots h R (evs_map (bundle_evs x) R)))"
    using ex inv h
  proof (cases rule: seg_exec.cases [of "(E, seg, claims, act, pc)"])
    case (1 E' seg' cl reply st)
    with ex inv h seg_req_step [OF T, of E root R seg st reply] show ?thesis by (auto simp: honest_seg_def)
  next
    case (2 E' seg' cl i reply ls rows aft)
    with ex have i: "i < length ls" "rows ! i = None" by (auto split: if_splits)
    obtain cl' r where ha: "handleAccount E claims (fst (ls ! i)) (snd (ls ! i)) reply = (cl', r)"
      by (cases "handleAccount E claims (fst (ls ! i)) (snd (ls ! i)) reply")
    show ?thesis
    proof (cases r)
      case (Inl err)
      with 2 ex i ha show ?thesis by auto
    next
      case (Inr a)
      have "row_of E (ls ! i) a"
        using handleAccount_row [where key = "fst (ls ! i)" and E = E and val = "snd (ls ! i)" and reply = reply and claims = claims and claims' = cl' and a = a] h 2 ha Inr
        by (auto simp: honest_seg_def split: sum.splits)
      with inv 2 i have "list_all2 (\<lambda>p r. \<forall>a. r = Some a \<longrightarrow> row_of E p a) ls (rows[i := Some a])"
        by (auto simp: list_all2_conv_all_nth nth_list_update)
      with 2 ex i ha Inr inv show ?thesis by auto
    qed
  next
    case (3 E' seg' cl ls rows aft)
    have "list_all2 (row_of E) ls (map the rows)" if "None \<notin> set rows"
      "list_all2 (\<lambda>p r. \<forall>a. r = Some a \<longrightarrow> row_of E p a) ls rows"
      using that by (auto simp: list_all2_conv_all_nth) (metis nth_mem option.collapse)
    with 3 ex inv show ?thesis by (auto split: if_splits)
  next
    case (4 E' seg' cl a as aft)
    from inv 4 obtain p ls where ls: "seg_leafs_ok (T root) R seg (p # ls) aft" "row_of E p a" "list_all2 (row_of E) ls as"
      by (auto simp: list_all2_Cons2)
    note rs = row_send [OF T ls(1,2)]
    have be: "bundle_evs \<lparr>b_seg = int seg, b_final = False, b_apply = Some a, b_barrier = False\<rparr> = map EvOp (apply_sops a)"
      by (simp add: bundle_evs_def)
    from ls(2) have "same_slots h R (evs_map (map EvOp (apply_sops a)) R)" for h
      unfolding row_of_def using account_evs_slots by blast
    with 4 ex rs ls(3) be show ?thesis by auto
  next
    case (5 E' seg' cl)
    with ex inv seg show ?thesis by (auto simp: bundle_evs_def same_slots_def)
  next
    case (6 E' seg' cl aft)
    with ex inv show ?thesis
      by (auto simp: seg_next_def seg_leafs_ok_def cov_def seg_full_def seg_key_def split: sum.splits option.splits)
  qed auto
  then show "pc \<noteq> SegDone" "b = None \<Longrightarrow> seg_inv E (T root) R seg pc'"
    "\<And>x. b = Some x \<Longrightarrow> evs_ok E T (T root) R (bundle_evs x) \<and> seg_inv E (T root) (evs_map (bundle_evs x) R) seg pc'
      \<and> (\<forall>h. same_slots h R (evs_map (bundle_evs x) R))" by blast+
qed

lemma do_effect_cases:
  assumes "do_effect cfg eff s = Some s'"
  obtains (crash) "s' = s\<lparr>y_crash := True\<rparr>" | (none) "eff = ENone" "s' = s"
    | (sent) b where "eff = ESend b" "\<not> y_closed s" "s' = s\<lparr>y_writes := y_writes s @ [b]\<rparr>"
  using assms by (auto simp: do_effect_def enqueue_def split: effect.splits if_splits)

lemma group_err_sel [simp]:
  "y_db (group_err e s) = y_db s" "y_bl (group_err e s) = y_bl s" "y_bitmap (group_err e s) = y_bitmap s"
  "y_writes (group_err e s) = y_writes s" "y_closed (group_err e s) = y_closed s" "y_writer (group_err e s) = y_writer s"
  "y_segs (group_err e s) = y_segs s" "y_tasks (group_err e s) = y_tasks s" "y_driver (group_err e s) = y_driver s"
  "y_crash (group_err e s) = y_crash s"
  by (simp_all add: group_err_def)

lemma effect_sel:
  assumes "do_effect cfg eff s = Some s'"
  shows "y_db s' = y_db s" "y_driver s' = y_driver s" "y_writer s' = y_writer s"
  using assms by (rule do_effect_cases, simp_all)+

lemma effect_live:
  assumes ex: "do_effect cfg eff s = Some s'" and nd: "\<And>err. y_driver s \<noteq> DRet err"
    and st: "store_inv kv E T (cf_root cfg) (cf_height cfg) s" and dr: "driver_inv kv E (T (cf_root cfg)) s"
    and none: "eff = ENone \<Longrightarrow> procs E T cfg (fut_rows kv s) (y_segs s) (y_tasks s)"
    and send: "\<And>b. eff = ESend b \<Longrightarrow> evs_ok E T (T (cf_root cfg)) (fut_rows kv s) (bundle_evs b)
      \<and> procs E T cfg (evs_map (bundle_evs b) (fut_rows kv s)) (y_segs s) (y_tasks s)"
  shows "sync_inv kv E T cfg s'"
  using ex
proof (cases rule: do_effect_cases)
  case crash
  then show ?thesis using store_committed [OF st] by (simp add: sync_inv_def)
next
  case none
  with st dr assms(5) nd show ?thesis by (intro live_sync_inv) (auto simp: live_inv_def)
next
  case (sent b)
  have fut: "fut_rows kv s' = evs_map (bundle_evs b) (fut_rows kv s)" by (simp add: fut_rows_def sent)
  have "store_inv kv E T (cf_root cfg) (cf_height cfg) s'"
    using st send [OF sent(1)] by (simp add: store_inv_def sent fut_rows_def)
  moreover have "driver_inv kv E (T (cf_root cfg)) s'"
    using dr sent(2) by (auto simp: driver_inv_def sent(3) split: driver.splits)
  moreover have "y_segs s' = y_segs s" "y_tasks s' = y_tasks s" by (simp_all add: sent(3))
  ultimately have "live_inv kv E T cfg s'" using send [OF sent(1)] by (simp add: live_inv_def fut)
  then show ?thesis using nd by (intro live_sync_inv) (auto simp: sent(3))
qed

lemma ret_inv:
  assumes "sync_inv kv E T cfg s" and "y_crash s \<or> y_driver s = DRet err"
    and "y_db s' = y_db s" "y_driver s' = y_driver s" "y_writer s' = y_writer s" "\<not> y_crash s"
  shows "sync_inv kv E T cfg s'"
  using assms by (auto simp: sync_inv_def)

lemma store_inv_cong:
  "y_db s' = y_db s \<Longrightarrow> y_bl s' = y_bl s \<Longrightarrow> y_bitmap s' = y_bitmap s \<Longrightarrow> y_writes s' = y_writes s \<Longrightarrow> y_writer s' = y_writer s
    \<Longrightarrow> store_inv kv E T root S s' = store_inv kv E T root S s \<and> fut_rows kv s' = fut_rows kv s"
  by (simp add: store_inv_def fut_rows_def)

lemma seg_step_inv:
  assumes T: "tries_ok T" and inv: "sync_inv kv E T cfg s" and nc: "\<not> y_crash s"
    and h: "honest E cfg T (ASeg i act) s" and ex: "seg_step E cfg i act s = Some s'"
  shows "sync_inv kv E T cfg s'"
proof -
  let ?all = "T (cf_root cfg)"
  from ex obtain pc cl b where i: "i < length (y_segs s)"
    and se: "seg_exec E (fst (y_segs s ! i)) (y_claims s) act (snd (y_segs s ! i)) = Some (pc, cl, b)"
    and de: "do_effect cfg (effect_of b) (group_err (case pc of SegErr err \<Rightarrow> Some err | _ \<Rightarrow> None)
      (s\<lparr>y_segs := (y_segs s)[i := (fst (y_segs s ! i), pc)], y_claims := cl\<rparr>)) = Some s'" (is "do_effect _ _ ?s = _")
    by (auto simp: seg_step_def split: if_splits option.splits)
  show ?thesis
  proof (cases "\<exists>err. y_driver s = DRet err")
    case True
    then show ?thesis using effect_sel [OF de] nc inv by (auto intro: ret_inv)
  next
    case False
    then have live: "live_inv kv E T cfg s" using inv nc by (auto simp: sync_inv_def split: driver.splits)
    then have p: "procs E T cfg (fut_rows kv s) (y_segs s) (y_tasks s)" and dr: "driver_inv kv E ?all s"
      and st: "store_inv kv E T (cf_root cfg) (cf_height cfg) s" by (auto simp: live_inv_def)
    have seg: "fst (y_segs s ! i) < 256" "seg_inv E ?all (fut_rows kv s) (fst (y_segs s ! i)) (snd (y_segs s ! i))"
      using p i by (auto simp: procs_def)
    have hs: "honest_seg E ?all act (snd (y_segs s ! i))" using h i by (simp add: honest_def)
    note step = seg_exec_step [OF T seg(2,1) hs se]
    have st': "store_inv kv E T (cf_root cfg) (cf_height cfg) ?s" and fut: "fut_rows kv ?s = fut_rows kv s"
      using st store_inv_cong [of ?s s kv E T] by auto
    have nsd: "\<not> segs_done (y_segs s)" using step(1) i by (auto simp: segs_done_def)
    have "driver_inv kv E ?all ?s"
    proof (cases "y_driver s = DPhase1")
      case True
      have "y_gerr ?s \<noteq> None" if "q \<in> set (y_segs ?s)" "snd q = SegErr err" for q err
        using that dr True set_update_subset_insert [of "y_segs s" i "(fst (y_segs s ! i), pc)"]
        by (auto simp: driver_inv_def group_err_def)
      with True dr show ?thesis by (auto simp: driver_inv_def)
    next
      case False
      with dr nsd show ?thesis by (auto simp: driver_inv_def split: driver.splits)
    qed
    moreover have "procs E T cfg (fut_rows kv ?s) (y_segs ?s) (y_tasks ?s)" if "effect_of b = ENone"
    proof -
      have "b = None" using that by (simp add: effect_of_def split: option.splits)
      with procs_seg [OF p i] step(2) fut show ?thesis by simp
    qed
    moreover have "evs_ok E T ?all (fut_rows kv ?s) (bundle_evs x) \<and> procs E T cfg (evs_map (bundle_evs x) (fut_rows kv ?s)) (y_segs ?s) (y_tasks ?s)"
      if "effect_of b = ESend x" for x
    proof -
      have b: "b = Some x" using that by (simp add: effect_of_def split: option.splits)
      note sx = step(3) [OF b]
      have "procs E T cfg (evs_map (bundle_evs x) (fut_rows kv s)) (y_segs s) (y_tasks s)"
        using procs_frame [OF p evs_map_grows] sx by blast
      with procs_seg [OF _ i] sx fut show ?thesis by simp
    qed
    ultimately show ?thesis using False st' by (intro effect_live [OF de]) auto
  qed
qed

lemma driver_inv_tasks:
  assumes "driver_inv kv E all s" and "t_addr ` set ts = t_addr ` set (y_tasks s)" and "y_tasks s \<noteq> []"
    and "y_driver s' = y_driver s" "y_writer s' = y_writer s" "y_closed s' = y_closed s" "y_writes s' = y_writes s"
      "y_segs s' = y_segs s" "y_db s' = y_db s" "y_bl s' = y_bl s" "y_tasks s' = ts"
  shows "driver_inv kv E all s'"
proof -
  have im: "(\<forall>t \<in> X. P (t_addr t)) \<longleftrightarrow> (\<forall>h \<in> t_addr ` X. P h)" for X P by simp
  have eq: "(\<forall>t \<in> set ts. P (t_addr t)) \<longleftrightarrow> (\<forall>t \<in> set (y_tasks s). P (t_addr t))" for P
    by (rule trans [OF im], subst assms(2), rule im [symmetric])
  show ?thesis
  proof (cases "y_driver s")
    case (DScan after)
    with assms eq [of "\<lambda>h. \<exists>a. after = Some a \<and> h \<le> a"] show ?thesis by (simp add: driver_inv_def)
  next
    case (DSpawn rows lst)
    with assms eq [of "\<lambda>h. h \<le> lst \<and> (\<forall>p \<in> set rows. h < fst p)"] show ?thesis by (simp add: driver_inv_def)
  qed (use assms in \<open>simp_all add: driver_inv_def\<close>)
qed

context healthy_lmdb
begin

lemma task_step_inv:
  assumes T: "tries_ok T" and inv: "sync_inv kv E T cfg s" and nc: "\<not> y_crash s"
    and h: "honest E cfg T (ATask i act) s" and ex: "task_step L E cfg i act s = Some s'"
  shows "sync_inv kv E T cfg s'"
proof -
  let ?all = "T (cf_root cfg)"
  from ex obtain t eff where i: "i < length (y_tasks s)"
    and te: "task_exec L E cfg (y_db s) (gone s) act (y_tasks s ! i) = Some (t, eff)"
    and de: "do_effect cfg eff (group_err (case t_pc t of TErr err \<Rightarrow> Some err | _ \<Rightarrow> None)
      (s\<lparr>y_tasks := (y_tasks s)[i := t]\<rparr>)) = Some s'" (is "do_effect _ _ ?s = _")
    by (auto simp: task_step_def split: if_splits option.splits)
  show ?thesis
  proof (cases "\<exists>err. y_driver s = DRet err")
    case True
    then show ?thesis using effect_sel [OF de] nc inv by (auto intro: ret_inv)
  next
    case False
    then have live: "live_inv kv E T cfg s" using inv nc by (auto simp: sync_inv_def split: driver.splits)
    then have p: "procs E T cfg (fut_rows kv s) (y_segs s) (y_tasks s)" and dr: "driver_inv kv E ?all s"
      and st: "store_inv kv E T (cf_root cfg) (cf_height cfg) s" by (auto simp: live_inv_def)
    have ti: "task_inv E T ?all cfg (fut_rows kv s) (y_tasks s ! i)" using p i by (auto simp: procs_def)
    have ht: "honest_task T act (y_tasks s ! i)" using h i by (simp add: honest_def)
    have wf: "wf_rows (kv (env (y_db s)))" and g: "grows (body (kv (env (y_db s)))) (fut_rows kv s)"
      using st evs_map_grows by (auto simp: store_inv_def load_store_def db_ok_def fut_rows_def intro: grows_trans)
    note step = task_exec_step [OF T wf g ti ht te]
    have st': "store_inv kv E T (cf_root cfg) (cf_height cfg) ?s" and fut: "fut_rows kv ?s = fut_rows kv s"
      using st store_inv_cong [of ?s s kv E T] by auto
    have "map t_addr ((y_tasks s)[i := t]) = map t_addr (y_tasks s)" using i step(1) by (simp add: map_update list_update_same_conv)
    then have "t_addr ` set ((y_tasks s)[i := t]) = t_addr ` set (y_tasks s)" by (metis list.set_map)
    moreover have "y_tasks s \<noteq> []" using i by auto
    ultimately have "driver_inv kv E ?all ?s" by (rule driver_inv_tasks [OF dr]) simp_all
    moreover have "procs E T cfg (fut_rows kv ?s) (y_segs ?s) (y_tasks ?s)" if "eff = ENone"
      using procs_task [OF p i step(1) grows_refl _ step(2) [OF that]] fut by (simp add: same_slots_def)
    moreover have "evs_ok E T ?all (fut_rows kv ?s) (bundle_evs b) \<and> procs E T cfg (evs_map (bundle_evs b) (fut_rows kv ?s)) (y_segs ?s) (y_tasks ?s)"
      if "eff = ESend b" for b
      using procs_task [OF p i step(1) evs_map_grows _ step(4) [OF that]] step(3) [OF that] step(5) [OF that] fut step(1) by simp
    ultimately show ?thesis using False st' by (intro effect_live [OF de]) auto
  qed
qed

subsection \<open>The driver\<close>

lemma live_cong:
  assumes "live_inv kv E T cfg s" and "y_db s' = y_db s" "y_bl s' = y_bl s" "y_bitmap s' = y_bitmap s" "y_writes s' = y_writes s"
    "y_writer s' = y_writer s" "y_segs s' = y_segs s" "y_tasks s' = y_tasks s"
    and "driver_inv kv E (T (cf_root cfg)) s'"
  shows "live_inv kv E T cfg s'"
  using assms store_inv_cong [of s' s kv] by (simp add: live_inv_def)

lemma end_phase1_inv:
  assumes "live_inv kv E T cfg s" and "y_driver s = DPhase1" and "end_phase1 s = Some s'"
  shows "live_inv kv E T cfg s' \<and> (\<forall>err. y_driver s' \<noteq> DRet err)"
proof -
  from assms(3) have fin: "\<forall>p \<in> set (y_segs s). \<not> seg_waiting (snd p) \<and> \<not> seg_running (snd p)"
    and s': "s' = s\<lparr>y_driver := (case y_gerr s of None \<Rightarrow> DBarrier | Some err \<Rightarrow> DClose (Some err)), y_gerr := None\<rparr>"
    by (auto simp: end_phase1_def list_ex_iff split: if_splits)
  have dr: "driver_inv kv E (T (cf_root cfg)) s" using assms(1) by (simp add: live_inv_def)
  have "snd p = SegDone" if "y_gerr s = None" "p \<in> set (y_segs s)" for p
  proof -
    have "\<not> seg_waiting (snd p)" "\<not> seg_running (snd p)" using fin that(2) by auto
    moreover have "snd p \<noteq> SegErr err" for err using dr assms(2) that by (auto simp: driver_inv_def)
    ultimately show ?thesis by (cases "snd p") auto
  qed
  with dr assms(2) have "driver_inv kv E (T (cf_root cfg)) s'"
    by (auto simp: driver_inv_def s' segs_done_def split: option.splits)
  then have "live_inv kv E T cfg s'" by (intro live_cong [OF assms(1)]) (simp_all add: s')
  then show ?thesis by (auto simp: s' split: option.splits)
qed

lemma scan_queue_inv:
  assumes live: "live_inv kv E T cfg s" and d: "y_driver s = DScan after"
  shows "live_inv kv E T cfg (scan_queue L after s) \<and> (\<forall>err. y_driver (scan_queue L after s) \<noteq> DRet err)"
proof -
  let ?all = "T (cf_root cfg)"
  have dr: "driver_inv kv E ?all s" and st: "store_inv kv E T (cf_root cfg) (cf_height cfg) s"
    using live by (simp_all add: live_inv_def)
  then have wf: "wf_rows (kv (env (y_db s)))" and q: "queue_rows_ok E ?all (body (kv (env (y_db s))))"
    by (simp_all add: store_inv_def load_store_def db_ok_def loading_def)
  from StorageQueueAfter_rows [OF wf, of after scanBatch] obtain as rs where
    r: "StorageQueueAfter L (y_db s) after scanBatch = Inr (as, rs)" "length as = length rs"
    "\<forall>(a, b) \<in> set (zip as rs). kv (env (y_db s)) (key_bytes (KQueue a)) = Some (be_bytes 32 b)"
    "\<forall>a \<in> set as. \<forall>h. after = Some h \<longrightarrow> h < a" "sorted_wrt (<) as"
    by blast
  have "queue_row E ?all p" if "p \<in> set (zip as rs)" for p
  proof -
    have "body (kv (env (y_db s))) (KQueue (fst p)) = Some (be_bytes 32 (snd p))" using r(3) that by (auto simp: body_def)
    with q obtain acc where "trie_acct E ?all (fst p) = Some acc" "has_storage E acc"
      "be_bytes 32 (snd p) = be_bytes 32 (sa_Root acc)"
      unfolding queue_rows_ok_def by blast
    then show ?thesis by (auto simp: queue_row_def hashc.enc_inject)
  qed
  moreover have "fst p \<le> last as" if "p \<in> set (zip as rs)" for p
  proof -
    have "fst p \<in> set as" using that by (metis prod.collapse set_zip_leftD)
    moreover from this obtain ys y where "as = ys @ [y]" by (metis append_butlast_last_id empty_iff empty_set)
    ultimately show ?thesis using r(5) by (auto simp: sorted_wrt_append intro: less_imp_le)
  qed
  moreover have "map fst (zip as rs) = as" using r(2) by simp
  moreover have "t_addr t \<le> last as \<and> (\<forall>p \<in> set (zip as rs). t_addr t < fst p)" if "t \<in> set (y_tasks s)" "as \<noteq> []" for t
  proof -
    have lt: "t_addr t < a" if "a \<in> set as" for a using dr d \<open>t \<in> set (y_tasks s)\<close> r(4) that by (fastforce simp: driver_inv_def)
    have "last as \<in> set as" using that(2) by simp
    with lt show ?thesis by (auto dest: set_zip_leftD intro: less_imp_le)
  qed
  ultimately have "driver_inv kv E ?all (scan_queue L after s)"
    using dr d r by (auto simp: driver_inv_def scan_queue_def list_all_iff)
  then have "live_inv kv E T cfg (scan_queue L after s)" by (intro live_cong [OF live]) (simp_all add: scan_queue_def)
  then show ?thesis by (auto simp: scan_queue_def r(1))
qed

lemma new_task_inv:
  assumes "queue_row E all (h, r)" and "fresh_ok E T all cfg R X" and "h \<notin> X"
  shows "task_inv E T all cfg R (new_task cfg h r)"
proof -
  from assms(1) obtain acc where acc: "trie_acct E all h = Some acc" "has_storage E acc" "r = sa_Root acc" by (auto simp: queue_row_def)
  have "cf_noResume cfg \<or> slots_full (T r) R h \<or> no_slots R h" using assms(2,3) acc by (auto simp: fresh_ok_def stored_def)
  then show ?thesis using acc
    by (auto simp: new_task_def task_inv_def task_root_def task_cov_def task_clean_def walk_wf_def left_def warm_clean_def)
qed

lemma spawn_task_inv:
  assumes live: "live_inv kv E T cfg s" and d: "y_driver s = DSpawn rows lst" and ex: "spawn_task cfg rows lst s = Some s'"
  shows "live_inv kv E T cfg s' \<and> (\<forall>err. y_driver s' \<noteq> DRet err)"
proof (cases rows)
  case Nil
  have "driver_inv kv E (T (cf_root cfg)) (s\<lparr>y_driver := DScan (Some lst)\<rparr>)"
    using live d by (auto simp: live_inv_def driver_inv_def)
  moreover have s': "s' = s\<lparr>y_driver := DScan (Some lst)\<rparr>" using Nil ex by (simp add: spawn_task_def)
  ultimately have "live_inv kv E T cfg s'" by (intro live_cong [OF live]) simp_all
  then show ?thesis by (simp add: s')
next
  case (Cons p rows')
  let ?all = "T (cf_root cfg)"
  obtain h r where p: "p = (h, r)" by (cases p)
  let ?t = "new_task cfg h r"
  have ta: "t_addr ?t = h" by (simp add: new_task_def)
  have s': "s' = s\<lparr>y_tasks := y_tasks s @ [?t], y_driver := DSpawn rows' lst\<rparr>"
    using ex Cons p by (auto simp: spawn_task_def split: if_splits)
  have dr: "driver_inv kv E ?all s" and st: "store_inv kv E T (cf_root cfg) (cf_height cfg) s"
    and pr: "procs E T cfg (fut_rows kv s) (y_segs s) (y_tasks s)"
    using live by (simp_all add: live_inv_def)
  have nh: "h \<notin> t_addr ` set (y_tasks s)" using dr d Cons p by (auto simp: driver_inv_def)
  have "task_inv E T ?all cfg (fut_rows kv s) ?t"
    using dr d Cons p pr nh by (intro new_task_inv [of _ _ _ _ _ _ _ "t_addr ` set (y_tasks s)"]) (auto simp: driver_inv_def procs_def)
  then have "procs E T cfg (fut_rows kv s) (y_segs s) (y_tasks s @ [?t])"
    using pr nh by (auto simp: procs_def ta fresh_ok_def)
  moreover have "driver_inv kv E ?all s'" using dr d Cons p by (auto simp: driver_inv_def s' ta)
  ultimately show ?thesis using st store_inv_cong [of s' s kv] by (simp add: live_inv_def s')
qed

lemma end_writer_inv:
  assumes live: "live_inv kv E T cfg s" and d: "y_driver s = DWriter segErr" and ex: "end_writer L segErr s = Some s'"
  shows "sync_inv kv E T cfg s'"
proof -
  let ?all = "T (cf_root cfg)"
  have dr: "driver_inv kv E ?all s" and st: "store_inv kv E T (cf_root cfg) (cf_height cfg) s"
    and pr: "procs E T cfg (fut_rows kv s) (y_segs s) (y_tasks s)"
    using live by (simp_all add: live_inv_def)
  from ex st have w: "y_writer s = WDone" by (auto simp: end_writer_def store_inv_def split: writer.splits)
  show ?thesis
  proof (cases segErr)
    case (Some err)
    with ex w have "s' = s\<lparr>y_driver := DRet (Some err)\<rparr>" by (simp add: end_writer_def)
    then show ?thesis using store_committed [OF st] w by (simp add: sync_inv_def)
  next
    case None
    from st have ls: "load_store kv E T (cf_root cfg) (cf_height cfg) (y_db s) (y_bl s)" by (simp add: store_inv_def)
    from Flush_store [OF ls] obtain d' bl' where f: "Flush L (y_db s) (y_bl s) = (d', bl', None)"
      "load_store kv E T (cf_root cfg) (cf_height cfg) d' bl'" "cur_rows kv d' bl' = cur_rows kv (y_db s) (y_bl s)"
      "body (kv (env d')) = cur_rows kv (y_db s) (y_bl s)" by blast
    with ex w None have s': "s' = s\<lparr>y_db := d', y_bl := bl', y_driver := DSweep\<rparr>" by (simp add: end_writer_def)
    have "store_inv kv E T (cf_root cfg) (cf_height cfg) s'" using st f by (simp add: store_inv_def s')
    moreover have "fut_rows kv s' = fut_rows kv s" using f by (simp add: fut_rows_def s')
    moreover have "driver_inv kv E ?all s'" using dr d None w f by (simp add: driver_inv_def s')
    ultimately have "live_inv kv E T cfg s'" using pr by (simp add: live_inv_def s')
    then show ?thesis by (intro live_sync_inv) (simp_all add: s')
  qed
qed

lemma committed_codes:
  assumes ld: "loading E T root R" and R: "R = body m" and ms: "\<And>c. c \<in> set ms \<longleftrightarrow> missing_code (lib_kc E []) m c"
  shows "codes_left E (T root) R ms"
  unfolding codes_left_def
proof (intro allI impI)
  fix h acc
  let ?c = "CodeHash (account_row acc)"
  assume a: "R (KBaseAccount h) \<noteq> None" "trie_acct E (T root) h = Some acc" "?c \<noteq> 0" "?c \<noteq> lib_kc E []"
  then obtain v where v: "R (KBaseAccount h) = Some v" by auto
  with ld obtain acc' where "trie_acct E (T root) h = Some acc'" "v = EncodeAccount [] (account_row acc')"
    unfolding loading_def account_rows_ok_def by blast
  with a(2) have "v = EncodeAccount [] (account_row acc)" by simp
  with v R a(3,4) have "code_ref (lib_kc E []) m (key_bytes (KBaseAccount h)) ?c"
    by (auto simp: code_ref_def body_def)
  then show "R (KCode ?c) \<noteq> None \<or> ?c \<in> set ms"
    using ms [of ?c] R by (auto simp: missing_code_def body_def)
qed

lemma sweep_start_inv:
  assumes live: "live_inv kv E T cfg s" and d: "y_driver s = DSweep" and ex: "sweep_start L E s = Some s'"
  shows "live_inv kv E T cfg s' \<and> (\<forall>err. y_driver s' \<noteq> DRet err)"
proof -
  let ?all = "T (cf_root cfg)" and ?m = "kv (env (y_db s))"
  have dr: "driver_inv kv E ?all s" and st: "store_inv kv E T (cf_root cfg) (cf_height cfg) s"
    using live by (simp_all add: live_inv_def)
  then have wf: "wf_rows ?m" and ld: "loading E T (cf_root cfg) (body ?m)"
    by (simp_all add: store_inv_def load_store_def db_ok_def)
  from MissingCodeHashes_exact [OF wf, of "lib_kc E"] obtain ms where ms: "MissingCodeHashes L (lib_kc E) (y_db s) = Some (Inr ms)"
    "\<And>c. c \<in> set ms \<longleftrightarrow> missing_code (lib_kc E []) ?m c" by blast
  have s': "s' = s\<lparr>y_driver := DCodes ms\<rparr>" using ex ms(1) by (simp add: sweep_start_def)
  have "codes_left E ?all (body ?m) ms" by (rule committed_codes [OF ld refl ms(2)])
  with dr d have "driver_inv kv E ?all s'" by (simp add: driver_inv_def s')
  then have "live_inv kv E T cfg s'" by (intro live_cong [OF live]) (simp_all add: s')
  then show ?thesis by (simp add: s')
qed

lemma codes_left_put:
  assumes left: "codes_left E all R ms" and R': "\<forall>c \<in> set (take n ms). R' (KCode c) \<noteq> None"
    "\<forall>r. R r \<noteq> None \<longrightarrow> R' r \<noteq> None" "\<forall>r. (\<forall>c. r \<noteq> KCode c) \<longrightarrow> R' r = R r"
  shows "codes_left E all R' (drop n ms)"
  unfolding codes_left_def
proof (intro allI impI)
  fix h acc
  let ?c = "CodeHash (account_row acc)"
  assume a: "R' (KBaseAccount h) \<noteq> None" "trie_acct E all h = Some acc" "?c \<noteq> 0" "?c \<noteq> lib_kc E []"
  have "R (KBaseAccount h) \<noteq> None" using a(1) R'(3) by auto
  with left a have "R (KCode ?c) \<noteq> None \<or> ?c \<in> set ms" by (auto simp: codes_left_def)
  moreover have "?c \<in> set ms \<longrightarrow> ?c \<in> set (take n ms) \<or> ?c \<in> set (drop n ms)"
    by (metis append_take_drop_id Un_iff set_append)
  ultimately show "R' (KCode ?c) \<noteq> None \<or> ?c \<in> set (drop n ms)" using R'(1,2) by blast
qed

lemma sweep_codes_inv:
  assumes T: "tries_ok T" and live: "live_inv kv E T cfg s" and d: "y_driver s = DCodes ms"
    and h: "honest_code (lib_kc E) (take (lib_maxCode E) ms) reply"
  shows "sync_inv kv E T cfg (sweep_codes L E reply ms s)"
proof -
  let ?all = "T (cf_root cfg)"
  have dr: "driver_inv kv E ?all s" and st: "store_inv kv E T (cf_root cfg) (cf_height cfg) s"
    and pr: "procs E T cfg (fut_rows kv s) (y_segs s) (y_tasks s)"
    using live by (simp_all add: live_inv_def)
  have w: "y_writer s = WDone" "y_writes s = []" using dr d by (auto simp: driver_inv_def)
  show ?thesis
  proof (cases reply)
    case (Inl err)
    then show ?thesis using store_committed [OF st] w by (simp add: sweep_codes_def sync_inv_def)
  next
    case (Inr blobs)
    from st have ls: "load_store kv E T (cf_root cfg) (cf_height cfg) (y_db s) (y_bl s)" by (simp add: store_inv_def)
    from h Inr have mk: "map (lib_kc E) blobs = take (lib_maxCode E) ms" by (simp add: honest_code_def)
    let ?R = "cur_rows kv (y_db s) (y_bl s)"
    from sweep_put_store [OF T ls mk] obtain d' bl' where
      p: "sweep_put L (y_db s) (y_bl s) (take (lib_maxCode E) ms) blobs = (d', bl', None)"
      "load_store kv E T (cf_root cfg) (cf_height cfg) d' bl'"
      "\<forall>c \<in> set (take (lib_maxCode E) ms). cur_rows kv d' bl' (KCode c) \<noteq> None"
      "\<forall>r. ?R r \<noteq> None \<longrightarrow> cur_rows kv d' bl' r \<noteq> None"
      "\<forall>r. (\<forall>c. r \<noteq> KCode c) \<longrightarrow> cur_rows kv d' bl' r = ?R r" by blast
    let ?s = "s\<lparr>y_db := d', y_bl := bl', y_crash := False, y_driver := DCodes (drop (lib_maxCode E) ms)\<rparr>"
    have s': "sweep_codes L E reply ms s = ?s" by (simp add: sweep_codes_def Inr p)
    have g: "grows ?R (cur_rows kv d' bl')" using p(4) by (simp add: grows_def)
    have "store_inv kv E T (cf_root cfg) (cf_height cfg) ?s"
      using st p(2) g bits_ok_grows by (auto simp: store_inv_def w(2))
    moreover have "procs E T cfg (fut_rows kv ?s) (y_segs ?s) (y_tasks ?s)"
      using procs_frame [OF pr, of "cur_rows kv d' bl'"] g p(5) by (simp add: fut_rows_def w(2) same_slots_def)
    moreover have "driver_inv kv E ?all ?s" using dr d codes_left_put [OF _ p(3-5)] by (simp add: driver_inv_def)
    ultimately have "live_inv kv E T cfg ?s" by (simp add: live_inv_def)
    then show ?thesis unfolding s' by (intro live_sync_inv) simp_all
  qed
qed

lemma body_queue: "body m (KQueue h) = m (key_bytes (KQueue h))"
  by (simp add: body_def)

lemma finish_inv:
  assumes live: "live_inv kv E T cfg s" and d: "y_driver s = DFinish" and f: "Finish L (y_db s) (y_bl s) = (d', bl', err)"
  shows "sync_inv kv E T cfg (s\<lparr>y_db := d', y_bl := bl', y_driver := DRet err\<rparr>)"
proof -
  let ?all = "T (cf_root cfg)" and ?p = "pending_map kv (y_db s) (y_bl s)" and ?R = "cur_rows kv (y_db s) (y_bl s)"
  have dr: "driver_inv kv E ?all s" and st: "store_inv kv E T (cf_root cfg) (cf_height cfg) s"
    and pr: "procs E T cfg (fut_rows kv s) (y_segs s) (y_tasks s)"
    using live by (simp_all add: live_inv_def)
  have w: "y_writer s = WDone" "y_writes s = []" "segs_done (y_segs s)" "codes_left E ?all ?R []" using dr d by (auto simp: driver_inv_def)
  from st have ls: "load_store kv E T (cf_root cfg) (cf_height cfg) (y_db s) (y_bl s)" by (simp add: store_inv_def)
  then have ok: "list_all bl_ok (bl_ops (y_bl s))" and db: "db_ok kv (cf_height cfg) (y_db s)" and wf: "wf_rows (kv (env (y_db s)))"
    by (simp_all add: load_store_def db_ok_def)
  have meta: "?p (key_bytes (KMeta t)) = kv (env (y_db s)) (key_bytes (KMeta t))" for t
    by (simp add: pending_map_def bl_contents_meta [OF ok])
  have wfp: "wf_rows ?p" using bl_contents_wf [OF ok wf] by (simp add: pending_map_def)
  have bf: "body (finished_map ?p) = ?R"
    by (auto simp: body_def finished_map_def cur_rows_def fun_eq_iff split: row_key.splits)
  have full: "seg_full ?all ?R seg" if "seg < 256" for seg
  proof -
    have "fut_rows kv s = ?R" by (simp add: fut_rows_def w(2))
    with pr w(3) that show ?thesis unfolding procs_def segs_done_def by fastforce
  qed
  from Finish_kv [OF ok wf] f have fin: "if queue_empty ?p
       then err = None \<and> kv (env d') = finished_map ?p \<and> baselineDone d'
       else (\<exists>k. err = Some (ErrQueuePending k)) \<and> kv (env d') = ?p \<and> baselineDone d' = baselineDone (y_db s)"
    and gp: "genesisPlus1 d' = genesisPlus1 (y_db s)" by auto
  show ?thesis
  proof (cases "queue_empty ?p")
    case True
    with fin have e: "err = None" "kv (env d') = finished_map ?p" by auto
    have "wf_rows (finished_map ?p)" using wfp by (auto simp: finished_map_def intro!: wf_rows_upd wf_rows_del)
    then have "db_ok kv (cf_height cfg) d'" using db gp meta by (auto simp: db_ok_def e finished_map_def key_simps)
    moreover have "kv (env d') MetaBaselineProgress = None" by (simp add: e finished_map_def key_simps)
    ultimately have co: "committed_ok kv E T (cf_root cfg) (cf_height cfg) d'"
      using ls by (simp add: committed_ok_def e bf load_store_def)
    have "?R (KQueue h) = None" for h using True by (simp add: cur_rows_def body_queue queue_empty_def)
    moreover have "complete kv d'" by (simp add: e complete_def finished_map_def key_simps)
    ultimately have "loaded_db kv E ?all d'" using full w(4) by (simp add: loaded_db_def e bf)
    with co show ?thesis using w(1) by (simp add: sync_inv_def e(1))
  next
    case False
    with fin have e: "err \<noteq> None" "kv (env d') = ?p" "baselineDone d' = baselineDone (y_db s)" by auto
    have "db_ok kv (cf_height cfg) d'" using db gp meta wfp by (auto simp: db_ok_def e key_simps)
    moreover have "bits_ok ?all ?R p" if "?p MetaBaselineProgress = Some p" for p
      using ls that meta by (auto simp: load_store_def key_simps intro: bits_ok_grows)
    ultimately have "committed_ok kv E T (cf_root cfg) (cf_height cfg) d'"
      using ls by (simp add: committed_ok_def e load_store_def cur_rows_def)
    then show ?thesis using w(1) e(1) by (auto simp: sync_inv_def)
  qed
qed

lemma driver_step_inv:
  assumes inv: "sync_inv kv E T cfg s" and nc: "\<not> y_crash s" and ex: "driver_exec L E cfg s = Some s'"
  shows "sync_inv kv E T cfg s'"
proof (cases "y_driver s")
  case (DRet err)
  with ex show ?thesis by (simp add: driver_exec_def)
next
  case DPhase1
  with inv nc have live: "live_inv kv E T cfg s" by (simp add: sync_inv_def)
  from end_phase1_inv [OF live DPhase1] ex DPhase1 show ?thesis
    by (auto simp: driver_exec_def intro: live_sync_inv)
next
  case DBarrier
  let ?s = "s\<lparr>y_driver := DWait\<rparr>"
  from DBarrier inv nc have live: "live_inv kv E T cfg s" by (simp add: sync_inv_def)
  have de: "do_effect cfg (ESend barrier_bundle) ?s = Some s'" using ex DBarrier by (simp add: driver_exec_def do_effect_def)
  have be: "bundle_evs barrier_bundle = []" by (simp add: bundle_evs_def barrier_bundle_def)
  have "driver_inv kv E (T (cf_root cfg)) ?s" using live DBarrier by (simp add: live_inv_def driver_inv_def)
  then show ?thesis using live store_inv_cong [of ?s s kv]
    by (intro effect_live [OF de]) (auto simp: live_inv_def be)
next
  case DWait
  with inv nc have live: "live_inv kv E T cfg s" by (simp add: sync_inv_def)
  from ex DWait obtain dr where s': "s' = s\<lparr>y_reply := None, y_driver := dr\<rparr>" and dr: "dr = DScan None \<or> (\<exists>err. dr = DClose (Some err))"
    by (auto simp: driver_exec_def split: option.splits)
  have "driver_inv kv E (T (cf_root cfg)) s'" using live DWait dr by (auto simp: live_inv_def driver_inv_def s')
  then have "live_inv kv E T cfg s'" by (intro live_cong [OF live]) (simp_all add: s')
  then show ?thesis using dr by (intro live_sync_inv) (auto simp: s')
next
  case (DScan after)
  with inv nc have live: "live_inv kv E T cfg s" by (simp add: sync_inv_def)
  from scan_queue_inv [OF live DScan] ex DScan show ?thesis by (auto simp: driver_exec_def intro: live_sync_inv)
next
  case (DSpawn rows lst)
  with inv nc have live: "live_inv kv E T cfg s" by (simp add: sync_inv_def)
  from spawn_task_inv [OF live DSpawn] ex DSpawn show ?thesis by (auto simp: driver_exec_def intro: live_sync_inv)
next
  case DJoin
  with inv nc have live: "live_inv kv E T cfg s" by (simp add: sync_inv_def)
  have s': "s' = s\<lparr>y_driver := DClose (y_gerr s)\<rparr>" using ex DJoin by (auto simp: driver_exec_def split: if_splits)
  have "driver_inv kv E (T (cf_root cfg)) s'" using live DJoin by (simp add: live_inv_def driver_inv_def s')
  then have "live_inv kv E T cfg s'" by (intro live_cong [OF live]) (simp_all add: s')
  then show ?thesis by (intro live_sync_inv) (simp_all add: s')
next
  case (DClose err)
  with inv nc have live: "live_inv kv E T cfg s" by (simp add: sync_inv_def)
  have s': "s' = s\<lparr>y_closed := True, y_driver := DWriter err\<rparr>" using ex DClose by (auto simp: driver_exec_def)
  have "driver_inv kv E (T (cf_root cfg)) s'" using live DClose by (simp add: live_inv_def driver_inv_def s')
  then have "live_inv kv E T cfg s'" by (intro live_cong [OF live]) (simp_all add: s')
  then show ?thesis by (intro live_sync_inv) (simp_all add: s')
next
  case (DWriter err)
  with inv nc have live: "live_inv kv E T cfg s" by (simp add: sync_inv_def)
  from end_writer_inv [OF live DWriter] ex DWriter show ?thesis by (simp add: driver_exec_def)
next
  case DSweep
  with inv nc have live: "live_inv kv E T cfg s" by (simp add: sync_inv_def)
  from sweep_start_inv [OF live DSweep] ex DSweep show ?thesis by (auto simp: driver_exec_def intro: live_sync_inv)
next
  case (DCodes ms)
  with inv nc have live: "live_inv kv E T cfg s" by (simp add: sync_inv_def)
  have s': "s' = s\<lparr>y_driver := DFinish\<rparr>" and ms: "ms = []" using ex DCodes by (auto simp: driver_exec_def split: if_splits)
  have "driver_inv kv E (T (cf_root cfg)) s'" using live DCodes ms by (simp add: live_inv_def driver_inv_def s')
  then have "live_inv kv E T cfg s'" by (intro live_cong [OF live]) (simp_all add: s')
  then show ?thesis by (intro live_sync_inv) (simp_all add: s')
next
  case DFinish
  with inv nc have live: "live_inv kv E T cfg s" by (simp add: sync_inv_def)
  obtain d' bl' err where f: "Finish L (y_db s) (y_bl s) = (d', bl', err)" by (rule prod_cases3)
  from finish_inv [OF live DFinish f] ex DFinish f show ?thesis by (simp add: driver_exec_def)
qed

subsection \<open>Every reachable state\<close>

lemma start_first_step:
  "start_first segs = Some segs' \<Longrightarrow> \<exists>i seg start. i < length segs \<and> segs ! i = (seg, SegWait start)
     \<and> segs' = segs[i := (seg, SegReq (seg_start seg start))]"
proof (induction segs arbitrary: segs')
  case (Cons p segs)
  obtain seg pc where p: "p = (seg, pc)" by (cases p)
  show ?case
  proof (cases "\<exists>start. pc = SegWait start")
    case True
    then obtain start where "pc = SegWait start" ..
    with p Cons.prems have "p = (seg, SegWait start)" "segs' = (p # segs)[0 := (seg, SegReq (seg_start seg start))]" by auto
    then show ?thesis by (metis length_greater_0_conv list.distinct(1) nth_Cons_0)
  next
    case False
    with p Cons.prems obtain segs'' where s: "start_first segs = Some segs''" "segs' = p # segs''"
      by (cases pc) auto
    from Cons.IH [OF s(1)] obtain i seg' start where "i < length segs" "segs ! i = (seg', SegWait start)"
      "segs'' = segs[i := (seg', SegReq (seg_start seg' start))]" by blast
    then have "Suc i < length (p # segs) \<and> (p # segs) ! Suc i = (seg', SegWait start)
      \<and> segs' = (p # segs)[Suc i := (seg', SegReq (seg_start seg' start))]" by (simp add: s(2))
    then show ?thesis by blast
  qed
qed simp

lemma cancel_inv:
  assumes "sync_inv kv E T cfg s" and "\<not> y_crash s"
  shows "sync_inv kv E T cfg (s\<lparr>y_cancel := True\<rparr>)"
proof (cases "\<exists>err. y_driver s = DRet err")
  case True
  with assms show ?thesis by (auto intro: ret_inv)
next
  case False
  with assms have live: "live_inv kv E T cfg s" by (auto intro: inv_live)
  let ?s = "s\<lparr>y_cancel := True\<rparr>"
  have "driver_inv kv E (T (cf_root cfg)) ?s" using live unfolding live_inv_def driver_inv_def by (cases "y_driver s") simp_all
  then have "live_inv kv E T cfg ?s" by (intro live_cong [OF live]) simp_all
  then show ?thesis using False by (intro live_sync_inv) auto
qed

lemma writer_step_inv:
  assumes T: "tries_ok T" and inv: "sync_inv kv E T cfg s" and nc: "\<not> y_crash s" and we: "writer_exec L s = Some s'"
  shows "sync_inv kv E T cfg s'"
proof -
  have nd: "y_driver s \<noteq> DRet err" for err using we inv nc by (auto simp: writer_exec_def sync_inv_def)
  then have live: "live_inv kv E T cfg s" using inv nc by (auto intro: inv_live)
  then have st: "store_inv kv E T (cf_root cfg) (cf_height cfg) s" and dr: "driver_inv kv E (T (cf_root cfg)) s"
    by (simp_all add: live_inv_def)
  show ?thesis
  proof (cases "y_writes s")
    case Nil
    with we have c: "y_writer s = WRun" "y_closed s" and s': "s' = s\<lparr>y_writer := WDone\<rparr>"
      by (auto simp: writer_exec_def split: writer.splits if_splits)
    have "driver_inv kv E (T (cf_root cfg)) s'"
      using dr c Nil unfolding driver_inv_def s' by (cases "y_driver s") simp_all
    moreover have "store_inv kv E T (cf_root cfg) (cf_height cfg) s'" using st by (simp add: store_inv_def s')
    ultimately have "live_inv kv E T cfg s'" using live by (simp add: live_inv_def s' fut_rows_def)
    then show ?thesis using nd by (intro live_sync_inv) (simp_all add: s')
  next
    case (Cons b bs)
    note wb = write_bundle_store [OF T st Cons]
    have w: "y_writer s = WRun"
      using st dr Cons by (cases "y_writer s") (simp_all add: store_inv_def driver_inv_def)
    have s': "s' = write_bundle L b (s\<lparr>y_writes := bs\<rparr>)" using we w Cons by (simp add: writer_exec_def)
    from wb(3) obtain d bl bm r where eq: "s' = s\<lparr>y_db := d, y_bl := bl, y_bitmap := bm, y_reply := r, y_writes := bs\<rparr>"
      unfolding s' by blast
    then have sel: "y_segs s' = y_segs s" "y_tasks s' = y_tasks s" "y_driver s' = y_driver s" by simp_all
    have "driver_inv kv E (T (cf_root cfg)) s'"
      using dr w unfolding driver_inv_def eq by (cases "y_driver s") simp_all
    then have "live_inv kv E T cfg s'" using live wb(1,2) unfolding s' [symmetric] live_inv_def sel by simp
    then show ?thesis using nd by (intro live_sync_inv) (simp_all add: sel)
  qed
qed

lemma start_step_inv:
  assumes inv: "sync_inv kv E T cfg s" and nc: "\<not> y_crash s" and sf: "start_first (y_segs s) = Some segs"
  shows "sync_inv kv E T cfg (s\<lparr>y_segs := segs\<rparr>)" (is "sync_inv _ _ _ _ ?s")
proof -
  from start_first_step [OF sf] obtain i seg start where i: "i < length (y_segs s)" "y_segs s ! i = (seg, SegWait start)"
    "segs = (y_segs s)[i := (seg, SegReq (seg_start seg start))]" by blast
  then have mem: "(seg, SegWait start) \<in> set (y_segs s)" by (metis nth_mem)
  show ?thesis
  proof (cases "\<exists>err. y_driver s = DRet err")
    case True
    then show ?thesis using inv nc by (auto intro: ret_inv)
  next
    case False
    then have live: "live_inv kv E T cfg s" using inv nc by (auto intro: inv_live)
    then have p: "procs E T cfg (fut_rows kv s) (y_segs s) (y_tasks s)" and dr: "driver_inv kv E (T (cf_root cfg)) s"
      by (simp_all add: live_inv_def)
    have "seg_inv E (T (cf_root cfg)) (fut_rows kv s) seg (SegWait start)"
      using p mem unfolding procs_def by (metis fst_conv snd_conv)
    then have pr: "procs E T cfg (fut_rows kv s) segs (y_tasks s)"
      using procs_seg [OF p i(1), of "SegReq (seg_start seg start)"] i(2,3) by simp
    have nsd: "\<not> segs_done (y_segs s)"
    proof
      assume "segs_done (y_segs s)"
      with mem have "snd (seg, SegWait start) = SegDone" unfolding segs_done_def by blast
      then show False by simp
    qed
    have err: "\<exists>p \<in> set (y_segs s). \<exists>err. snd p = SegErr err" if "\<exists>p \<in> set segs. \<exists>err. snd p = SegErr err"
    proof -
      from that obtain p err where p: "p \<in> set segs" "snd p = SegErr err" by blast
      then have "p \<in> insert (seg, SegReq (seg_start seg start)) (set (y_segs s))"
        using set_update_subset_insert [of "y_segs s" i "(seg, SegReq (seg_start seg start))"] unfolding i(3) by blast
      with p(2) have "p \<in> set (y_segs s)" by auto
      with p(2) show ?thesis by blast
    qed
    have "driver_inv kv E (T (cf_root cfg)) ?s"
      using dr nsd err unfolding driver_inv_def by (cases "y_driver s") auto
    then have "live_inv kv E T cfg ?s" using live pr store_inv_cong [of ?s s kv] by (simp add: live_inv_def)
    then show ?thesis using False by (intro live_sync_inv) auto
  qed
qed

lemma driver_cancel_inv:
  assumes inv: "sync_inv kv E T cfg s" and nc: "\<not> y_crash s" and ex: "driver_cancel s = Some s'"
  shows "sync_inv kv E T cfg s'"
proof -
  have s': "s' = s\<lparr>y_driver := DClose (Some ErrCanceled)\<rparr>" and d: "y_driver s = DBarrier \<or> y_driver s = DWait"
    using ex by (auto simp: driver_cancel_def split: if_splits)
  then have live: "live_inv kv E T cfg s" using inv nc by (auto intro: inv_live)
  then have "driver_inv kv E (T (cf_root cfg)) s'" by (auto simp: live_inv_def driver_inv_def s')
  then have "live_inv kv E T cfg s'" by (intro live_cong [OF live]) (simp_all add: s')
  then show ?thesis by (intro live_sync_inv) (simp_all add: s')
qed

lemma sync_step_inv:
  assumes T: "tries_ok T" and inv: "sync_inv kv E T cfg s" and h: "honest E cfg T act s"
    and ex: "sync_exec L E cfg act s = Some s'"
  shows "sync_inv kv E T cfg s'"
proof -
  have nc: "\<not> y_crash s" using ex by (auto simp: sync_exec_def split: if_splits)
  show ?thesis
  proof (cases act)
    case ACancel
    with ex nc cancel_inv [OF inv nc] show ?thesis by (auto simp: sync_exec_def)
  next
    case AWriter
    with ex nc writer_step_inv [OF T inv nc, of s'] show ?thesis by (simp add: sync_exec_def)
  next
    case AStart
    then obtain segs where "start_first (y_segs s) = Some segs" and s': "s' = s\<lparr>y_segs := segs\<rparr>"
      using ex nc by (auto simp: sync_exec_def split: if_splits)
    with start_step_inv [OF inv nc] show ?thesis by blast
  next
    case (ASeg i sa)
    with ex nc seg_step_inv [OF T inv nc, of i sa s'] h show ?thesis by (simp add: sync_exec_def)
  next
    case (ATask i ta)
    with ex nc task_step_inv [OF T inv nc, of i ta s'] h show ?thesis by (simp add: sync_exec_def)
  next
    case ADriver
    with ex nc driver_step_inv [OF inv nc, of s'] show ?thesis by (simp add: sync_exec_def)
  next
    case ADriverCancel
    with ex nc driver_cancel_inv [OF inv nc, of s'] show ?thesis by (simp add: sync_exec_def)
  next
    case (ACodes reply)
    then obtain ms where d: "y_driver s = DCodes ms" and s': "s' = sweep_codes L E reply ms s"
      using ex nc by (auto simp: sync_exec_def split: driver.splits if_splits)
    then have live: "live_inv kv E T cfg s" using inv nc by (auto intro: inv_live)
    have "honest_code (lib_kc E) (take (lib_maxCode E) ms) reply" using h ACodes d by (simp add: honest_def)
    with sweep_codes_inv [OF T live d] show ?thesis by (simp add: s')
  qed
qed

lemma sync_reach_inv:
  assumes "tries_ok T" and "sync_inv kv E T cfg s0"
  shows "sync_reach L E cfg T s0 s \<Longrightarrow> sync_inv kv E T cfg s"
  by (induction rule: sync_reach.induct) (auto intro: assms sync_step_inv)

end

end
