(* ===== verification/SyncLoad.thy ===== *)
theory SyncLoad
  imports SyncSystem NodeBaseline
begin

text \<open>
  From the start of \<^verbatim>\<open>Run\<close> (\<^verbatim>\<open>src/follower/sync/sync.go\<close>) to its end: \<open>run_start\<close> establishes \<open>sync_inv\<close>
  on an empty store and on the store any earlier run left, so that every reachable state can be
  resumed, and a run that returns without an error leaves a store that serves the world of the trie.
\<close>

subsection \<open>The start\<close>

lemma watermark_resume:
  assumes T: "tries_ok T" and ld: "loading E T root R"
    and h: "be_bytes 32 h ! 0 = of_nat seg" "R (KBaseAccount h) \<noteq> None"
  shows "seg_inv E (T root) R seg (SegWait (incKey (be_bytes 32 h)))"
proof -
  let ?k = "be_bytes 32 h"
  obtain v where v: "R (KBaseAccount h) = Some v" using h(2) by blast
  with ld obtain acc where "trie_acct E (T root) h = Some acc"
    unfolding loading_def account_rows_ok_def by blast
  then have kt: "?k \<in> keys_of (T root)"
    by (auto simp: trie_acct_def keys_of_def split: option.splits dest!: map_of_SomeD intro: rev_image_eqI)
  have below: "acc_in R k" if k: "k \<in> keys_of (T root)" "seg_key seg k" "k \<le> ?k" for k
  proof (cases "k = ?k")
    case True
    with h(2) show ?thesis by (simp add: acc_in_def hashc.dec_enc)
  next
    case False
    with k(3) have "k < ?k" by simp
    moreover have "acc_in R ?k" using h(2) by (simp add: acc_in_def hashc.dec_enc)
    ultimately show ?thesis using ld k(1,2) kt h(1) by (auto simp: loading_def watermark_ok_def seg_key_def)
  qed
  show ?thesis
  proof (cases "incKey ?k")
    case None
    have "\<forall>k \<in> keys_of (T root). seg_key seg k \<longrightarrow> of_nat seg # replicate 31 0 \<le> k"
      using seg_range tries_okD(1) [OF T] by blast
    then show ?thesis by (simp add: None seg_start_def seg_from_def)
  next
    case (Some st)
    have len: "length st = 32" using incKey_next(1) [OF Some, of ?k] by simp
    have "?k < st" using incKey_next(2) [OF Some, of st] len by simp
    moreover have "of_nat seg # replicate 31 0 \<le> ?k" using seg_range [of ?k seg] h(1) by (simp add: seg_key_def)
    moreover have "acc_in R k \<or> st \<le> k" if "k \<in> keys_of (T root)" "seg_key seg k" for k
      using below [OF that] incKey_next(2) [OF Some, of k] tries_okD(1) [OF T that(1)] by (auto simp: not_le)
    ultimately show ?thesis using len by (simp add: Some seg_start_def seg_from_def)
  qed
qed

context healthy_lmdb
begin

lemma seg_tasks_inv:
  assumes T: "tries_ok T" and ld: "loading E T root (body (kv (env d)))" and wf: "wf_rows (kv (env d))"
  shows "\<exists>tasks. seg_tasks L d bm segs = Inr tasks \<and> map fst tasks = filter (\<lambda>seg. \<not> seg_bit bm seg) segs
    \<and> (\<forall>p \<in> set tasks. seg_waiting (snd p) \<and> seg_inv E (T root) (body (kv (env d))) (fst p) (snd p))"
proof (induction segs)
  case (Cons seg segs)
  then obtain tasks where t: "seg_tasks L d bm segs = Inr tasks" "map fst tasks = filter (\<lambda>seg. \<not> seg_bit bm seg) segs"
    "\<forall>p \<in> set tasks. seg_waiting (snd p) \<and> seg_inv E (T root) (body (kv (env d))) (fst p) (snd p)" by blast
  from MaxBaseAccountWithPrefix_greatest [OF wf, of "of_nat seg"] obtain r where
    r: "MaxBaseAccountWithPrefix L d (of_nat seg) = Inr r"
    and some: "\<And>h. r = Some h \<Longrightarrow> be_bytes 32 h ! 0 = of_nat seg \<and> kv (env d) (key_bytes (KBaseAccount h)) \<noteq> None"
    by (auto split: option.splits)
  have "seg_inv E (T root) (body (kv (env d))) seg (SegWait (case r of None \<Rightarrow> None | Some x \<Rightarrow> incKey (be_bytes 32 x)))"
  proof (cases r)
    case None
    have "\<forall>k \<in> keys_of (T root). seg_key seg k \<longrightarrow> of_nat seg # replicate 31 0 \<le> k"
      using seg_range tries_okD(1) [OF T] by blast
    then show ?thesis by (simp add: None seg_start_def seg_from_def)
  next
    case (Some h)
    with watermark_resume [OF T ld, of h seg] some [OF Some] show ?thesis by (simp add: body_def)
  qed
  with t r show ?case by simp
qed simp

lemma new_syncer_inv:
  assumes T: "tries_ok T" and c: "committed_ok kv E T (cf_root cfg) (cf_height cfg) d"
    and bits: "bits_ok (T (cf_root cfg)) (body (kv (env d))) bm"
    and fresh: "fresh_ok E T (T (cf_root cfg)) cfg (body (kv (env d))) {}"
  shows "\<exists>tasks. seg_tasks L d bm [0..<256] = Inr tasks
    \<and> sync_inv kv E T cfg (new_syncer d \<lparr>bl_s = S, bl_ops = [], bl_progress = None\<rparr> bm tasks)"
proof -
  let ?R = "body (kv (env d))" and ?all = "T (cf_root cfg)"
  have ld: "loading E T (cf_root cfg) ?R" and wf: "wf_rows (kv (env d))"
    using c by (auto simp: committed_ok_def db_ok_def)
  from seg_tasks_inv [OF T ld wf, of bm "[0..<256]"] obtain tasks where
    t: "seg_tasks L d bm [0..<256] = Inr tasks" "map fst tasks = filter (\<lambda>seg. \<not> seg_bit bm seg) [0..<256]"
      "\<forall>p \<in> set tasks. seg_waiting (snd p) \<and> seg_inv E ?all ?R (fst p) (snd p)" by blast
  let ?s = "new_syncer d \<lparr>bl_s = S, bl_ops = [], bl_progress = None\<rparr> bm tasks"
  have cur: "cur_rows kv d \<lparr>bl_s = S, bl_ops = [], bl_progress = None\<rparr> = ?R" by (simp add: cur_rows_def pending_map_def)
  then have fut: "fut_rows kv ?s = ?R" by (simp add: fut_rows_def new_syncer_def)
  have fs: "fst ` set tasks = {seg. seg < 256 \<and> \<not> seg_bit bm seg}" using arg_cong [OF t(2), of set] by auto
  have "store_inv kv E T (cf_root cfg) (cf_height cfg) ?s"
    using c bits ld by (simp add: store_inv_def new_syncer_def load_store_def cur committed_ok_def)
  moreover have "procs E T cfg ?R tasks []"
    using t(3) fs fresh bits by (auto simp: procs_def bits_ok_def)
  moreover have "driver_inv kv E ?all ?s" using t(3) by (auto simp: driver_inv_def new_syncer_def)
  ultimately have "live_inv kv E T cfg ?s" by (simp add: live_inv_def fut) (simp add: new_syncer_def)
  then have "sync_inv kv E T cfg ?s" by (rule live_sync_inv) (simp add: new_syncer_def)
  with t(1) show ?thesis by blast
qed

end

text \<open>
  The stores a run may be started on: one nothing was written to, or one with the same pivot that an
  earlier run left. In the second case the walk of a trie may skip what is stored only when no
  trie is stored in part, or when \<^verbatim>\<open>noResume\<close> is set.
\<close>

definition unused :: "('e \<Rightarrow> bytes \<rightharpoonup> bytes) \<Rightarrow> 'e db \<Rightarrow> bool" where
  "unused kv d \<longleftrightarrow> genesisPlus1 d = 0 \<and> \<not> baselineDone d \<and> (\<forall>r. kv (env d) (key_bytes r) = None) \<and> wf_rows (kv (env d))"

definition startable :: "('e \<Rightarrow> bytes \<rightharpoonup> bytes) \<Rightarrow> sync_lib \<Rightarrow> tries \<Rightarrow> sync_cfg \<Rightarrow> 'e db \<Rightarrow> bool" where
  "startable kv E T cfg d \<longleftrightarrow>
     unused kv d
     \<or> committed_ok kv E T (cf_root cfg) (cf_height cfg) d
       \<and> (cf_noResume cfg \<or>
          (\<forall>h. no_slots (body (kv (env d))) h \<or> stored E T (T (cf_root cfg)) (body (kv (env d))) h))"

lemma empty_loading: "loading E T root (\<lambda>_. None)"
  by (simp add: loading_defs acc_in_def)

lemma bits_zero: "bits_ok ls R (replicate 32 0)"
proof -
  have "\<not> seg_bit (replicate 32 0) seg" if "seg < 256" for seg
  proof -
    have "seg div 8 < 32" using that by simp
    then show ?thesis by (simp add: seg_bit_def)
  qed
  then show ?thesis by (simp add: bits_ok_def)
qed

context healthy_lmdb
begin

lemma run_start_inv:
  assumes T: "tries_ok T" and st: "startable kv E T cfg d"
  shows "\<exists>d' s. run_start L cfg d = (d', Inr s) \<and> y_db s = d' \<and> sync_inv kv E T cfg s
    \<and> committed_ok kv E T (cf_root cfg) (cf_height cfg) d'"
proof -
  let ?bl = "\<lparr>bl_s = cf_height cfg, bl_ops = [], bl_progress = None\<rparr>"
  have "\<exists>d'. NewBaseline L d (cf_height cfg) = (d', Inr ?bl)
    \<and> committed_ok kv E T (cf_root cfg) (cf_height cfg) d' \<and> fresh_ok E T (T (cf_root cfg)) cfg (body (kv (env d'))) {}"
  proof (cases "unused kv d")
    case True
    then have u: "genesisPlus1 d = 0" "\<not> baselineDone d" "kv (env d) MetaGenesis = None" "wf_rows (kv (env d))"
      and b: "body (kv (env d)) = (\<lambda>_. None)" and p: "kv (env d) MetaBaselineProgress = None"
      by (auto simp: unused_def key_simps body_def fun_eq_iff split: row_key.splits)
    from NewBaseline_first [OF u, of "cf_height cfg"] obtain d' where
      d': "NewBaseline L d (cf_height cfg) = (d', Inr ?bl)" "db_ok kv (cf_height cfg) d'"
        "kv (env d') = (kv (env d))(key_bytes (KMeta 1) \<mapsto> be_bytes 8 (cf_height cfg))" by blast
    have R: "body (kv (env d')) = (\<lambda>_. None)" "kv (env d') MetaBaselineProgress = None"
      using b p by (simp_all add: d'(3) key_simps)
    have "committed_ok kv E T (cf_root cfg) (cf_height cfg) d'"
      using d'(2) by (simp add: committed_ok_def R empty_loading)
    moreover have "fresh_ok E T (T (cf_root cfg)) cfg (body (kv (env d'))) {}"
      by (simp add: fresh_ok_def R no_slots_def)
    ultimately show ?thesis using d'(1) by blast
  next
    case False
    with st have c: "committed_ok kv E T (cf_root cfg) (cf_height cfg) d"
      and f: "fresh_ok E T (T (cf_root cfg)) cfg (body (kv (env d))) {}"
      by (auto simp: startable_def fresh_ok_def)
    from c have "db_ok kv (cf_height cfg) d" by (simp add: committed_ok_def)
    from NewBaseline_set [OF this, of "cf_height cfg"] obtain d' where
      "NewBaseline L d (cf_height cfg) = (d', Inr ?bl)" "env d' = env d" "db_ok kv (cf_height cfg) d'" by auto
    with c f show ?thesis by (auto simp: committed_ok_def)
  qed
  then obtain d' where nb: "NewBaseline L d (cf_height cfg) = (d', Inr ?bl)"
    and c: "committed_ok kv E T (cf_root cfg) (cf_height cfg) d'"
    and f: "fresh_ok E T (T (cf_root cfg)) cfg (body (kv (env d'))) {}" by blast
  let ?bm = "case kv (env d') MetaBaselineProgress of None \<Rightarrow> replicate 32 0 | Some p \<Rightarrow> p"
  have bits: "bits_ok (T (cf_root cfg)) (body (kv (env d'))) ?bm"
    using c bits_zero by (auto simp: committed_ok_def split: option.splits)
  have bp: "BaselineProgress L d' = Inr (kv (env d') MetaBaselineProgress)"
    by (simp add: BaselineProgress_def get_eq split: option.splits)
  from new_syncer_inv [OF T c bits f] obtain tasks where
    "seg_tasks L d' ?bm [0..<256] = Inr tasks" "sync_inv kv E T cfg (new_syncer d' ?bl ?bm tasks)" by blast
  moreover have "length ?bm = 32" using bits by (simp add: bits_ok_def)
  ultimately show ?thesis using nb c by (auto simp: run_start_def bp Let_def new_syncer_def)
qed

end

subsection \<open>The end\<close>

text \<open>The world of a state trie: accounts and slots under the hashes of their keys.\<close>

definition trie_world :: "sync_lib \<Rightarrow> tries \<Rightarrow> hash \<Rightarrow> world" where
  "trie_world E T root = \<lparr>
     w_acct = (\<lambda>a. map_option account_row (trie_acct E (T root) (lib_kc E (be_bytes 20 a)))),
     w_slot = (\<lambda>a s. case trie_acct E (T root) (lib_kc E (be_bytes 20 a)) of
        None \<Rightarrow> 0
      | Some acc \<Rightarrow>
          (if has_storage E acc
           then (case trie_slot E (T (sa_Root acc)) (lib_kc E (be_bytes 32 s)) of None \<Rightarrow> 0 | Some x \<Rightarrow> x) else 0))\<rparr>"

definition codes_present :: "('e \<Rightarrow> bytes \<rightharpoonup> bytes) \<Rightarrow> sync_lib \<Rightarrow> tries \<Rightarrow> hash \<Rightarrow> 'e db \<Rightarrow> bool" where
  "codes_present kv E T root d \<longleftrightarrow> (\<forall>h acc. trie_acct E (T root) h = Some acc \<longrightarrow>
     CodeHash (account_row acc) \<noteq> 0 \<longrightarrow> CodeHash (account_row acc) \<noteq> lib_kc E [] \<longrightarrow>
     (\<exists>b. kv (env d) (key_bytes (KCode (CodeHash (account_row acc)))) = Some b
        \<and> lib_kc E b = CodeHash (account_row acc)))"

lemma trie_key:
  "trie_acct E ls h = Some acc \<Longrightarrow> be_bytes 32 h \<in> keys_of ls"
  "trie_slot E ls k = Some x \<Longrightarrow> be_bytes 32 k \<in> keys_of ls"
  by (auto simp: trie_acct_def trie_slot_def keys_of_def split: option.splits dest!: map_of_SomeD intro: rev_image_eqI)

lemma loaded_account:
  assumes c: "committed_ok kv E T root S d" and l: "loaded_db kv E (T root) d"
  shows "kv (env d) (key_bytes (KBaseAccount h)) = map_option (EncodeAccount [] \<circ> account_row) (trie_acct E (T root) h)"
proof (cases "kv (env d) (key_bytes (KBaseAccount h))")
  case None
  have "trie_acct E (T root) h = None"
  proof (rule ccontr)
    assume "trie_acct E (T root) h \<noteq> None"
    then have k: "be_bytes 32 h \<in> keys_of (T root)" using trie_key(1) by blast
    have "unat (be_bytes 32 h ! 0) < 256" using unsigned_less [of "be_bytes 32 h ! 0", where 'a = nat] by simp
    with l have "seg_full (T root) (body (kv (env d))) (unat (be_bytes 32 h ! 0))" by (simp add: loaded_db_def)
    with k have "acc_in (body (kv (env d))) (be_bytes 32 h)" by (simp add: seg_full_def)
    with None show False by (simp add: acc_in_def body_def hashc.dec_enc)
  qed
  with None show ?thesis by simp
next
  case (Some v)
  then have "body (kv (env d)) (KBaseAccount h) = Some v" by (simp add: body_def)
  then obtain acc where "trie_acct E (T root) h = Some acc" "v = EncodeAccount [] (account_row acc)"
    using c unfolding committed_ok_def loading_def account_rows_ok_def by blast
  with Some show ?thesis by simp
qed

lemma loaded_slot:
  assumes c: "committed_ok kv E T root S d" and l: "loaded_db kv E (T root) d"
  shows "kv (env d) (key_bytes (KBaseSlot h k)) =
    (case trie_acct E (T root) h of
       None \<Rightarrow> None
     | Some acc \<Rightarrow> if has_storage E acc then map_option (be_bytes 32) (trie_slot E (T (sa_Root acc)) k) else None)"
proof (cases "kv (env d) (key_bytes (KBaseSlot h k))")
  case None
  have "trie_slot E (T (sa_Root acc)) k = None" if a: "trie_acct E (T root) h = Some acc" "has_storage E acc" for acc
  proof (rule ccontr)
    assume "trie_slot E (T (sa_Root acc)) k \<noteq> None"
    then have kk: "be_bytes 32 k \<in> keys_of (T (sa_Root acc))" using trie_key(2) by blast
    have "body (kv (env d)) (KBaseAccount h) \<noteq> None" using loaded_account [OF c l, of h] a(1) by (simp add: body_def)
    moreover have "body (kv (env d)) (KQueue h) = None" using l by (simp add: loaded_db_def)
    ultimately have "stored E T (T root) (body (kv (env d))) h"
      using c unfolding committed_ok_def loading_def dequeued_ok_def by blast
    with a have "slots_full (T (sa_Root acc)) (body (kv (env d))) h" by (simp add: stored_def)
    with kk have "slot_in (body (kv (env d))) h (be_bytes 32 k)" by (simp add: slots_full_def)
    with None show False by (simp add: slot_in_def body_def hashc.dec_enc)
  qed
  with None show ?thesis by (auto split: option.split)
next
  case (Some v)
  then have "body (kv (env d)) (KBaseSlot h k) = Some v" by (simp add: body_def)
  then obtain acc x where "trie_acct E (T root) h = Some acc" "has_storage E acc"
    "trie_slot E (T (sa_Root acc)) k = Some x" "v = be_bytes 32 x"
    using c unfolding committed_ok_def loading_def slot_rows_ok_def by blast
  with Some show ?thesis by simp
qed

lemma committed_history:
  assumes "committed_ok kv E T root S d"
  shows "last_write (kv (env d)) (KAccount a) at = None" "last_write (kv (env d)) (KSlot a s) at = None"
    "last_write (kv (env d)) (KDestruct a) at = None" "no_edge (kv (env d))"
  using assms by (auto simp: committed_ok_def loading_def no_history_def body_def last_write_None no_edge_def)

lemma loaded_trie_world:
  assumes c: "committed_ok kv E T root S d" and l: "loaded_db kv E (T root) d"
  shows "world_at (lib_kc E) (kv (env d)) at = trie_world E T root"
  by (rule world_eqI)
    (simp_all add: trie_world_def acct_at_def slot_at_def committed_history [OF c] loaded_account [OF c l]
      loaded_slot [OF c l] acct_dec_def accountc.dec_enc hashc.dec_enc option.map_comp comp_def
      split: option.split)

lemma loaded_codes:
  assumes c: "committed_ok kv E T root S d" and l: "loaded_db kv E (T root) d"
  shows "codes_present kv E T root d"
  unfolding codes_present_def
proof (intro allI impI)
  fix h acc
  let ?c = "CodeHash (account_row acc)"
  assume a: "trie_acct E (T root) h = Some acc" and n: "?c \<noteq> 0" "?c \<noteq> lib_kc E []"
  have "body (kv (env d)) (KBaseAccount h) \<noteq> None" using loaded_account [OF c l, of h] a by (simp add: body_def)
  with l a n have "body (kv (env d)) (KCode ?c) \<noteq> None" by (auto simp: loaded_db_def codes_left_def)
  then obtain b where b: "body (kv (env d)) (KCode ?c) = Some b" by blast
  with c have "lib_kc E b = ?c" unfolding committed_ok_def loading_def codes_ok_def by blast
  with b show "\<exists>b. kv (env d) (key_bytes (KCode ?c)) = Some b \<and> lib_kc E b = ?c" by (auto simp: body_def)
qed

lemma loaded_serving:
  "committed_ok kv E T root S d \<Longrightarrow> loaded_db kv E (T root) d \<Longrightarrow> serving kv S d"
  using committed_history(4) [of kv E T root S d] by (simp add: serving_def committed_ok_def loaded_db_def)

text \<open>
  Interrupted runs. The process may stop in any state a run reaches; the next one opens the
  environment again, with nothing cached.
\<close>

definition reopen :: "'e db \<Rightarrow> 'e db" where
  "reopen d = d\<lparr>genesisPlus1 := 0, baselineDone := False\<rparr>"

inductive sync_life :: "'e lmdb_ops \<Rightarrow> ('e \<Rightarrow> bytes \<rightharpoonup> bytes) \<Rightarrow> sync_lib \<Rightarrow> tries \<Rightarrow> u64 \<Rightarrow> hash \<Rightarrow> 'e db \<Rightarrow> bool"
  for L kv E T S root where
  first: "unused kv d \<Longrightarrow> sync_life L kv E T S root d"
| again: "sync_life L kv E T S root d \<Longrightarrow> cf_height cfg = S \<Longrightarrow> cf_root cfg = root
    \<Longrightarrow> unused kv d \<or> cf_noResume cfg \<Longrightarrow> run_start L cfg d = (d', Inr s0) \<Longrightarrow> sync_reach L E cfg T s0 s
    \<Longrightarrow> sync_life L kv E T S root (reopen (y_db s))"

context healthy_lmdb
begin

lemma reach_committed:
  assumes T: "tries_ok T" and st: "startable kv E T cfg d" and rs: "run_start L cfg d = (d', Inr s0)"
    and r: "sync_reach L E cfg T s0 s"
  shows "committed_ok kv E T (cf_root cfg) (cf_height cfg) (y_db s)" "sync_inv kv E T cfg s"
proof -
  from run_start_inv [OF T st] rs have "sync_inv kv E T cfg s0" by auto
  from sync_reach_inv [OF T this r] show "sync_inv kv E T cfg s" .
  then show "committed_ok kv E T (cf_root cfg) (cf_height cfg) (y_db s)" by (simp add: sync_inv_def)
qed

lemma reopen_committed: "committed_ok kv E T root S d \<Longrightarrow> committed_ok kv E T root S (reopen d)"
  by (auto simp: committed_ok_def reopen_def db_ok_def)

lemma life_committed:
  assumes T: "tries_ok T"
  shows "sync_life L kv E T S root d \<Longrightarrow> unused kv d \<or> committed_ok kv E T root S d"
proof (induction rule: sync_life.induct)
  case (again d cfg d' s0 s)
  then have "startable kv E T cfg d" by (auto simp: startable_def)
  from reach_committed(1) [OF T this again.hyps(5,6)] again.hyps(2,3) show ?case by (auto intro: reopen_committed)
qed blast

lemma Run_loaded:
  assumes T: "tries_ok T" and st: "startable kv E T cfg d" and rs: "run_start L cfg d = (d', Inr s0)"
    and r: "sync_reach L E cfg T s0 s" and e: "y_driver s = DRet None" "\<not> y_crash s"
  shows "serving kv (cf_height cfg) (y_db s)"
    and "world_at (lib_kc E) (kv (env (y_db s))) at = trie_world E T (cf_root cfg)"
    and "codes_present kv E T (cf_root cfg) (y_db s)"
proof -
  note c = reach_committed(1) [OF T st rs r]
  have l: "loaded_db kv E (T (cf_root cfg)) (y_db s)"
    using reach_committed(2) [OF T st rs r] e by (simp add: sync_inv_def)
  show "serving kv (cf_height cfg) (y_db s)" using loaded_serving [OF c l] .
  show "world_at (lib_kc E) (kv (env (y_db s))) at = trie_world E T (cf_root cfg)" using loaded_trie_world [OF c l] .
  show "codes_present kv E T (cf_root cfg) (y_db s)" using loaded_codes [OF c l] .
qed

end

end
