(* ===== verification/SyncExample.thy ===== *)
theory SyncExample
  imports SyncLoad
begin

text \<open>
  A small state and schedules of the loader that are evaluated: an account with three storage slots, the
  account trie under the root 7 and its storage under 8.
\<close>

definition xs_key :: "8 word \<Rightarrow> bytes" where
  "xs_key b = b # replicate 31 0"

text \<open>The hash of a key: the key itself, filled up with zeros.\<close>

definition xs_kc :: "bytes \<Rightarrow> hash" where
  "xs_kc bs = be_word (bs @ replicate (32 - length bs) 0)"

definition xs_lib :: sync_lib where
  "xs_lib = \<lparr>
     lib_account = (\<lambda>v. if v = [] then Inl (ErrMsg ''rlp'')
        else Inr \<lparr>sa_Nonce = 1, sa_Balance = Some 5, sa_Root = 8, sa_CodeHash = []\<rparr>),
     lib_split = Inr, lib_kc = xs_kc, lib_emptyRoot = 9, lib_maxCode = 5\<rparr>"

definition xs_slots :: leafs where
  "xs_slots = [(xs_key 0x00, [1]), (xs_key 0x40, [2]), (xs_key 0x70, [3]), (xs_key 0x88, [4])]"

definition xs_tries :: tries where
  "xs_tries r = (if r = 7 then [(xs_key 5, [1])] else if r = 8 then xs_slots else [])"

definition xs_cfg :: sync_cfg where
  "xs_cfg = \<lparr>cf_height = 100, cf_root = 7, cf_workers = 2, cf_splitAfter = 1, cf_splitWays = 2, cf_noResume = False\<rparr>"

definition xs_meta :: "bytes \<Rightarrow> alist_env" where
  "xs_meta bm = [(key_bytes (KMeta 1), be_bytes 8 (100 :: u64)), (key_bytes (KMeta 4), bm)]"

definition xs_db :: "alist_env \<Rightarrow> alist_env db" where
  "xs_db e = \<lparr>env = e, ro = False, genesisPlus1 = 0, baselineDone = False\<rparr>"

text \<open>All segments but the fifth are done.\<close>

definition xs_bits :: bytes where
  "xs_bits = 0xdf # replicate 31 0xff"

definition xs_phase1 :: "sync_act list" where
  "xs_phase1 = [AStart, ASeg 0 (SaLeafs (Inr ([(xs_key 5, [1])], False))), ASeg 0 (SaAccount 0 (Inl ErrCanceled)),
     ASeg 0 SaRows, ASeg 0 SaSend, AWriter, ASeg 0 SaNext, ASeg 0 SaSend, AWriter, ADriver]"

definition xs_spawn :: "sync_act list" where
  "xs_spawn = [ADriver, AWriter, ADriver, ADriver, ADriver, ADriver, ADriver]"

definition xs_walk :: "sync_act list" where
  "xs_walk = [ATask 0 (TaWarm RaInit), ATask 0 (TaWarm (RaLeafs (Inr (take 2 xs_slots, True)))),
     ATask 0 (TaWarm RaSend), AWriter, ATask 0 (TaWarm RaCap), ATask 0 TaSplit,
     ATask 0 (TaFan 0 RaInit), ATask 0 (TaFan 0 (RaLeafs (Inr (drop 2 xs_slots, False)))), ATask 0 (TaFan 0 RaSend), AWriter,
     ATask 0 (TaFan 1 RaInit), ATask 0 (TaFan 1 (RaLeafs (Inr ([], False)))), ATask 0 (TaFan 1 RaSend), AWriter,
     ATask 0 TaJoin, ATask 0 TaSend, AWriter]"

definition xs_end :: "sync_act list" where
  "xs_end = [ADriver, ADriver, AWriter, ADriver, ADriver, ADriver, ADriver]"

subsection \<open>Evaluation\<close>

text \<open>A schedule whose answers are honest, and what holds at its end.\<close>

fun honest_run ::
  "'e lmdb_ops \<Rightarrow> sync_lib \<Rightarrow> sync_cfg \<Rightarrow> tries \<Rightarrow> sync_act list \<Rightarrow> ('e syncer \<Rightarrow> bool) \<Rightarrow> 'e syncer \<Rightarrow> bool" where
  "honest_run L E cfg T [] P s \<longleftrightarrow> P s"
| "honest_run L E cfg T (a # as) P s \<longleftrightarrow>
     honest E cfg T a s \<and> (case sync_exec L E cfg a s of None \<Rightarrow> False | Some s' \<Rightarrow> honest_run L E cfg T as P s')"

lemma honest_run_reach:
  "honest_run L E cfg T as P s \<Longrightarrow> sync_reach L E cfg T s0 s \<Longrightarrow> \<exists>s'. sync_reach L E cfg T s0 s' \<and> P s'"
  by (induction as arbitrary: s) (auto split: option.splits intro: sync_reach.step)

lemma rep31: "replicate 31 x = [x,x,x,x,x,x,x,x,x,x,x,x,x,x,x,x,x,x,x,x,x,x,x,x,x,x,x,x,x,x,x]"
  by (simp add: numeral_eq_Suc)

lemma rep32: "replicate 32 x = x # replicate 31 x"
  by (simp add: numeral_eq_Suc)

lemma be_key: "length bs = 32 \<Longrightarrow> be_bytes 32 (be_word bs :: hash) = bs"
  by (simp add: be_bytes_be_word)

lemma be_key_inj: "length x = 32 \<Longrightarrow> length y = 32 \<Longrightarrow> (be_word x :: hash) = be_word y \<longleftrightarrow> x = y"
  by (metis be_key)

lemma queue_loop_num:
  "queue_loop L e (numeral n) r addrs roots =
     (case r of
        Inl MDB_NOTFOUND \<Rightarrow> Inr (addrs, roots)
      | Inl m \<Rightarrow> Inl (ErrLmdb m)
      | Inr (k, v) \<Rightarrow>
          (if length k \<noteq> 33 \<or> k ! 0 \<noteq> PrefStorageQueue then Inr (addrs, roots)
           else if length v \<noteq> 32 then Inl (ErrBadLength (length v))
           else queue_loop L e (pred_numeral n) (cur_next L e k)
                  (addrs @ [be_word (take 32 (drop 1 k))]) (roots @ [be_word v])))"
  by (simp only: numeral_eq_Suc queue_loop.simps)

lemma incKey_step: "key \<noteq> [] \<Longrightarrow> last key + 1 \<noteq> 0 \<Longrightarrow> incKey key = Some (butlast key @ [last key + 1])"
  by (cases key rule: rev_cases) (simp_all add: incKey_def Let_def nth_append)

lemma split_loop_num:
  "split_loop len stp (numeral n) cur out =
     (case (if pred_numeral n = 0 then Inr [] else pad len (cur + stp)) of
        Inl err \<Rightarrow> Inl err
      | Inr endB \<Rightarrow>
          (case pad len cur of
             Inl err \<Rightarrow> Inl err
           | Inr k \<Rightarrow> split_loop len stp (pred_numeral n) (cur + stp + 1) (out @ [(k, endB)])))"
  by (simp only: numeral_eq_Suc split_loop.simps)

lemma nat_be_num: "nat_be (numeral n) k = of_nat (k div 256 ^ pred_numeral n) # nat_be (pred_numeral n) (k mod 256 ^ pred_numeral n)"
  by (simp only: numeral_eq_Suc nat_be.simps)

lemma be_word_Nil: "be_word [] = 0"
  by (simp add: be_word_def)

lemmas sync_defs = sync_exec_def seg_step_def task_step_def task_exec_def driver_exec_def writer_exec_def
  write_bundle_def enqueue_def do_effect_def effect_of_def group_err_def gone_def workers_def end_phase1_def
  scan_queue_def spawn_task_def end_writer_def sweep_start_def barrier_bundle_def scanBatch_def new_task_def
  seg_start_def seg_end_def seg_leafs_def after_leafs_def seg_next_def handleAccount_def account_row_def has_storage_def
  walk_resume_def walk_leafs_def walk_next_def capped_def storage_bundle_def opt_key_def warm_return_def fan_out_def
  fan_join_def walk_errors_def walk_act_ok_def set_seg_bit_def new_syncer_def truncateAt_def

lemmas store_defs = bl_Code_def bl_BaseAccount_def bl_BaseSlot_def bl_QueueStorage_def bl_DequeueStorage_def
  bl_add_def bl_addDel_def bl_push_def baselineChunk_def Flush_def flush_txn_def Update_def lift_mdb_def Finish_def
  finish_txn_def SetProgress_def StorageQueueAfter_def MaxBaseSlot_def MissingCodeHashes_def seek_floor_def
  alist_lmdb_def least_key_def greatest_key_def key_ok_def append_key_defs 

lemmas xs_defs = xs_lib_def xs_cfg_def xs_db_def xs_meta_def xs_key_def xs_bits_def xs_slots_def

lemmas sync_eval =
  sync_defs store_defs xs_defs rep31 rep32 Let_def key_bytes.simps key_bytes_layout pref_defs
  MetaGenesis_def MetaBaselineComplete_def MetaBaselineProgress_def be_key be_key_inj queue_loop_num
  hashc.dec_enc incKey_step splitRange_def pad_def nat_be_num split_loop_num copy_into_def code_loop.simps
  honest_def honest_seg_def honest_task_def honest_walk_def honest_leafs_def honest_code_def from_key_def
  xs_tries_def xs_kc_def be_word_Nil

subsection \<open>A run that loads\<close>

definition xs_run :: "sync_act list" where
  "xs_run = xs_phase1 @ xs_spawn @ xs_walk @ xs_end"

definition xs_start :: "alist_env syncer" where
  "xs_start = new_syncer ((xs_db (xs_meta xs_bits))\<lparr>genesisPlus1 := 101\<rparr>) \<lparr>bl_s = 100, bl_ops = [], bl_progress = None\<rparr> xs_bits [(5, SegWait None)]"

lemma xs_runs:
  "honest_run alist_lmdb xs_lib xs_cfg xs_tries xs_run (\<lambda>s. y_driver s = DRet None \<and> \<not> y_crash s) xs_start"
  by (simp add: xs_run_def xs_start_def xs_phase1_def xs_spawn_def xs_walk_def xs_end_def sync_eval)

lemma xs_tries_ok: "tries_ok xs_tries"
  by (auto simp: tries_ok_def xs_tries_def xs_slots_def keys_of_def xs_key_def)

lemma bit_ff: "n < 8 \<Longrightarrow> bit (0xff :: byte) n"
proof -
  assume "n < 8"
  moreover have "(0xff :: byte) = - 1" by simp
  ultimately show ?thesis by (simp only: bit_minus_1_iff) simp
qed

lemma xs_bits_seg: "seg < 256 \<Longrightarrow> seg_bit xs_bits seg \<longleftrightarrow> seg \<noteq> 5"
proof (cases "seg < 8")
  case True
  then have "seg \<in> {0, 1, 2, 3, 4, 5, 6, 7}" by auto
  then show ?thesis by (auto simp: seg_bit_def xs_bits_def)
next
  case False
  moreover assume "seg < 256"
  ultimately have "seg div 8 - 1 < 31" "seg div 8 \<noteq> 0" by (auto simp: div_eq_0_iff)
  then have "xs_bits ! (seg div 8) = 0xff" by (simp add: xs_bits_def nth_Cons')
  with False bit_ff [of "seg mod 8"] show ?thesis by (auto simp: seg_bit_iff)
qed

lemma seg_tasks_skip:
  "(\<And>seg. seg \<in> set xs \<Longrightarrow> seg_bit bm seg) \<Longrightarrow> seg_tasks L d bm (xs @ ys) = seg_tasks L d bm ys"
  by (induction xs) auto

lemma xs_seg_tasks:
  "seg_tasks alist_lmdb ((xs_db (xs_meta xs_bits))\<lparr>genesisPlus1 := 101\<rparr>) xs_bits [0..<256] = Inr [(5, SegWait None)]"
proof -
  let ?d = "(xs_db (xs_meta xs_bits))\<lparr>genesisPlus1 := 101\<rparr>"
  have split: "[0..<256] = [0..<5] @ 5 # [6..<256]"
    using upt_add_eq_append [of 0 5 251] upt_conv_Cons [of 5 256] by simp
  have "seg_tasks alist_lmdb ?d xs_bits [0..<256] = seg_tasks alist_lmdb ?d xs_bits (5 # [6..<256])"
    unfolding split by (rule seg_tasks_skip) (simp add: xs_bits_seg)
  moreover have "seg_bit xs_bits seg" if "seg \<in> set [6..<256]" for seg
    using that xs_bits_seg [of seg] unfolding set_upt atLeastLessThan_iff by auto
  then have "seg_tasks alist_lmdb ?d xs_bits ([6..<256] @ []) = seg_tasks alist_lmdb ?d xs_bits []"
    by (rule seg_tasks_skip)
  moreover have "MaxBaseAccountWithPrefix alist_lmdb ?d 5 = Inr None"
    by (simp add: MaxBaseAccountWithPrefix_def sync_eval)
  ultimately show ?thesis using xs_bits_seg [of 5] by (simp del: upt_rec_numeral)
qed

lemma xs_run_start:
  "run_start alist_lmdb xs_cfg (xs_db (xs_meta xs_bits)) = ((xs_db (xs_meta xs_bits))\<lparr>genesisPlus1 := 101\<rparr>, Inr xs_start)"
proof -
  let ?d = "(xs_db (xs_meta xs_bits))\<lparr>genesisPlus1 := 101\<rparr>"
  have "NewBaseline alist_lmdb (xs_db (xs_meta xs_bits)) 100 = (?d, Inr \<lparr>bl_s = 100, bl_ops = [], bl_progress = None\<rparr>)"
    by (simp add: NewBaseline_def Genesis_def getMetaU64_def alist_lmdb_def xs_db_def xs_meta_def key_simps u64c.dec_enc)
  moreover have "BaselineProgress alist_lmdb ?d = Inr (Some xs_bits)"
    by (simp add: BaselineProgress_def alist_lmdb_def xs_db_def xs_meta_def key_simps)
  moreover have "length xs_bits = 32" by (simp add: xs_bits_def)
  ultimately show ?thesis
    using xs_seg_tasks by (simp add: run_start_def xs_start_def Let_def xs_cfg_def del: upt_rec_numeral)
qed

lemma xs_meta_rows:
  "map_of (xs_meta bm) (key_bytes r) = (if r = KMeta 1 then Some (be_bytes 8 (100 :: u64)) else if r = KMeta 4 then Some bm else None)"
  by (simp add: xs_meta_def)

lemma xs_startable: "startable map_of xs_lib xs_tries xs_cfg (xs_db (xs_meta xs_bits))"
proof -
  let ?d = "xs_db (xs_meta xs_bits)"
  have b: "body (map_of (env ?d)) = (\<lambda>_. None)"
    by (auto simp: body_def fun_eq_iff xs_db_def xs_meta_rows split: row_key.splits)
  have "wf_rows (map_of (env ?d))" by (auto simp: wf_rows_def xs_db_def xs_meta_def split: if_splits)
  then have "db_ok map_of 100 ?d" by (simp add: db_ok_def xs_db_def xs_meta_rows key_simps)
  moreover have "bits_ok (xs_tries 7) (\<lambda>_. None) xs_bits"
  proof -
    have "seg = 5" if "seg < 256" "of_nat seg = (5 :: byte)" for seg
    proof -
      have "unat (of_nat seg :: byte) = 5" using that(2) by simp
      with that(1) show ?thesis by (simp add: unat_of_nat)
    qed
    moreover have "length xs_bits = 32" by (simp add: xs_bits_def)
    ultimately show ?thesis using xs_bits_seg by (fastforce simp: bits_ok_def seg_full_def xs_tries_def xs_key_def keys_of_def)
  qed
  ultimately have "committed_ok map_of xs_lib xs_tries 7 100 ?d"
    unfolding committed_ok_def b using empty_loading by (simp add: xs_db_def xs_meta_rows key_simps)
  then show ?thesis by (simp add: startable_def b no_slots_def xs_cfg_def)
qed

subsection \<open>A run that resumes over a hole\<close>

text \<open>
  What an earlier run may leave when it was stopped in the fan-out: its first response had one slot,
  so that the second sub-range began at 0x80, and the walker of that range was ahead.
\<close>

definition xs_left :: "alist_env db" where
  "xs_left = xs_db (xs_meta (replicate 32 0xff) @
     [(key_bytes (KBaseAccount (be_word (xs_key 5))), EncodeAccount [] \<lparr>Balance = 5, Nonce = 1, CodeHash = 0\<rparr>),
      (key_bytes (KQueue (be_word (xs_key 5))), be_bytes 32 (8 :: hash)),
      (key_bytes (KBaseSlot (be_word (xs_key 5)) (be_word (xs_key 0x00))), be_bytes 32 (1 :: hash)),
      (key_bytes (KBaseSlot (be_word (xs_key 5)) (be_word (xs_key 0x88))), be_bytes 32 (4 :: hash))])"

definition xs_resume :: "sync_act list" where
  "xs_resume = [ATask 0 (TaWarm RaInit), ATask 0 (TaWarm (RaLeafs (Inr (take 2 xs_slots, True)))),
     ATask 0 (TaWarm RaSend), AWriter, ATask 0 (TaWarm RaCap), ATask 0 TaSplit,
     ATask 0 (TaFan 0 RaInit), ATask 0 (TaFan 0 (RaLeafs (Inr ([], False)))), ATask 0 (TaFan 0 RaSend), AWriter,
     ATask 0 (TaFan 1 RaInit), ATask 0 (TaFan 1 (RaLeafs (Inr ([], False)))), ATask 0 (TaFan 1 RaSend), AWriter,
     ATask 0 TaJoin, ATask 0 TaSend, AWriter]"

definition xs_again :: "alist_env syncer" where
  "xs_again = new_syncer (xs_left\<lparr>genesisPlus1 := 101\<rparr>) \<lparr>bl_s = 100, bl_ops = [], bl_progress = None\<rparr> (replicate 32 0xff) []"

lemma xs_skips:
  "honest_run alist_lmdb xs_lib xs_cfg xs_tries (ADriver # xs_spawn @ xs_resume @ xs_end)
     (\<lambda>s. y_driver s = DRet None \<and> \<not> y_crash s
        \<and> map_of (env (y_db s)) (key_bytes (KBaseSlot (be_word (xs_key 5)) (be_word (xs_key 0x70)))) = None
        \<and> list_all (\<lambda>p. hd (fst p) \<notin> {PrefAccount, PrefSlot, PrefDestruct}) (env (y_db s))) xs_again"
  by (simp add: xs_again_def xs_left_def xs_spawn_def xs_resume_def xs_end_def sync_eval)

lemma seg_bit_all: "seg < 256 \<Longrightarrow> seg_bit (replicate 32 0xff) seg"
proof -
  assume "seg < 256"
  then have "seg div 8 < 32" by simp
  then show ?thesis using bit_ff [of "seg mod 8"] by (simp add: seg_bit_iff)
qed

lemma xs_run_again: "run_start alist_lmdb xs_cfg xs_left = (xs_left\<lparr>genesisPlus1 := 101\<rparr>, Inr xs_again)"
proof -
  let ?d = "xs_left\<lparr>genesisPlus1 := 101\<rparr>"
  have "NewBaseline alist_lmdb xs_left 100 = (?d, Inr \<lparr>bl_s = 100, bl_ops = [], bl_progress = None\<rparr>)"
    by (simp add: NewBaseline_def Genesis_def getMetaU64_def alist_lmdb_def xs_left_def xs_db_def xs_meta_def key_simps u64c.dec_enc)
  moreover have "BaselineProgress alist_lmdb ?d = Inr (Some (replicate 32 0xff))"
    by (simp add: BaselineProgress_def alist_lmdb_def xs_left_def xs_db_def xs_meta_def key_simps)
  moreover have "seg_bit (replicate 32 0xff) seg" if "seg \<in> set [0..<256]" for seg
    using that seg_bit_all [of seg] unfolding set_upt atLeastLessThan_iff by blast
  then have "seg_tasks alist_lmdb ?d (replicate 32 0xff) ([0..<256] @ []) = seg_tasks alist_lmdb ?d (replicate 32 0xff) []"
    by (rule seg_tasks_skip)
  ultimately show ?thesis by (simp add: run_start_def xs_again_def Let_def xs_cfg_def del: upt_rec_numeral)
qed

abbreviation xs_addr :: hash where
  "xs_addr \<equiv> be_word (xs_key 5)"

lemma xs_left_rows:
  "body (map_of (env xs_left)) r =
     (if r = KBaseAccount xs_addr then Some (EncodeAccount [] \<lparr>Balance = 5, Nonce = 1, CodeHash = 0\<rparr>)
      else if r = KQueue xs_addr then Some (be_bytes 32 (8 :: hash))
      else if r = KBaseSlot xs_addr (be_word (xs_key 0x00)) then Some (be_bytes 32 (1 :: hash))
      else if r = KBaseSlot xs_addr (be_word (xs_key 0x88)) then Some (be_bytes 32 (4 :: hash)) else None)"
  by (cases r) (simp_all add: body_def xs_left_def xs_db_def map_add_def xs_meta_rows)

lemma xs_trie_acct:
  "trie_acct xs_lib (xs_tries 7) h =
     (if h = xs_addr then Some \<lparr>sa_Nonce = 1, sa_Balance = Some 5, sa_Root = 8, sa_CodeHash = []\<rparr> else None)"
  by (auto simp: trie_acct_def xs_tries_def xs_lib_def xs_key_def be_key hashc.dec_enc split: if_splits)
    (metis hashc.dec_enc)

lemma be_word_single: "be_word [b :: byte] = of_nat (unat b)"
  by (simp add: be_word_def)

lemma xs_trie_slot:
  "trie_slot xs_lib (xs_tries 8) (be_word (xs_key 0x00)) = Some 1"
  "trie_slot xs_lib (xs_tries 8) (be_word (xs_key 0x70)) = Some 3"
  "trie_slot xs_lib (xs_tries 8) (be_word (xs_key 0x88)) = Some 4"
  by (simp_all add: trie_slot_def xs_tries_def xs_lib_def xs_slots_def xs_key_def be_key be_word_single)

lemma xs_loading: "loading xs_lib xs_tries 7 (body (map_of (env xs_left)))"
proof -
  let ?R = "body (map_of (env xs_left))"
  have "account_rows_ok xs_lib (xs_tries 7) ?R"
    by (auto simp: account_rows_ok_def xs_left_rows xs_trie_acct account_row_def be_word_Nil)
  moreover have "slot_rows_ok xs_lib xs_tries (xs_tries 7) ?R"
    by (auto simp: slot_rows_ok_def xs_left_rows xs_trie_acct has_storage_def xs_lib_def [THEN arg_cong, of lib_emptyRoot] xs_trie_slot split: if_splits)
  moreover have "queue_rows_ok xs_lib (xs_tries 7) ?R"
    by (auto simp: queue_rows_ok_def xs_left_rows xs_trie_acct has_storage_def xs_lib_def [THEN arg_cong, of lib_emptyRoot])
  moreover have "dequeued_ok xs_lib xs_tries (xs_tries 7) ?R" by (auto simp: dequeued_ok_def xs_left_rows)
  moreover have "watermark_ok (xs_tries 7) ?R" by (auto simp: watermark_ok_def xs_tries_def keys_of_def)
  ultimately show ?thesis by (simp add: loading_def codes_ok_def no_history_def xs_left_rows)
qed

lemma xs_left_committed: "committed_ok map_of xs_lib xs_tries 7 100 xs_left"
proof -
  have "wf_rows (map_of (env xs_left))"
    by (auto simp: wf_rows_def xs_left_def xs_db_def xs_meta_def length_EncodeAccount split: if_splits)
  then have "db_ok map_of 100 xs_left" by (simp add: db_ok_def xs_left_def xs_db_def xs_meta_def key_simps)
  moreover have "bits_ok (xs_tries 7) (body (map_of (env xs_left))) (replicate 32 0xff)"
    by (auto simp: bits_ok_def seg_full_def xs_tries_def keys_of_def acc_in_def xs_left_rows)
  ultimately show ?thesis
    using xs_loading by (simp add: committed_ok_def) (simp add: xs_left_def xs_db_def xs_meta_def key_simps)
qed

lemma no_history_rows:
  assumes "list_all (\<lambda>p. hd (fst p) \<notin> {PrefAccount, PrefSlot, PrefDestruct}) e"
    and "key_prefix r \<in> {PrefAccount, PrefSlot, PrefDestruct}"
  shows "map_of e (key_bytes r) = None"
proof (rule ccontr)
  assume "map_of e (key_bytes r) \<noteq> None"
  then obtain v where "(key_bytes r, v) \<in> set e" by (auto dest: map_of_SomeD)
  with assms show False by (auto simp: list_all_iff hd_key_bytes)
qed

lemma xs_hole_world:
  assumes h: "list_all (\<lambda>p. hd (fst p) \<notin> {PrefAccount, PrefSlot, PrefDestruct}) (env d)"
    and n: "map_of (env d) (key_bytes (KBaseSlot xs_addr (be_word (xs_key 0x70)))) = None"
  shows "w_slot (world_at xs_kc (map_of (env d)) 100) (be_word (5 # replicate 19 0)) (be_word (xs_key 0x70)) = 0"
    and "w_slot (trie_world xs_lib xs_tries 7) (be_word (5 # replicate 19 0)) (be_word (xs_key 0x70)) = 3"
proof -
  have k: "xs_kc (be_bytes 20 (be_word (5 # replicate 19 0) :: address)) = xs_addr"
    "xs_kc (be_bytes 32 (be_word (xs_key 0x70) :: hash)) = be_word (xs_key 0x70)"
    by (simp_all add: xs_kc_def be_bytes_be_word xs_key_def be_key flip: replicate_add)
  show "w_slot (world_at xs_kc (map_of (env d)) 100) (be_word (5 # replicate 19 0)) (be_word (xs_key 0x70)) = 0"
    using n no_history_rows [OF h] by (simp add: slot_at_def k last_write_None [THEN iffD2])
  show "w_slot (trie_world xs_lib xs_tries 7) (be_word (5 # replicate 19 0)) (be_word (xs_key 0x70)) = 3"
    using k by (simp add: trie_world_def xs_lib_def [THEN arg_cong, of lib_kc] xs_trie_acct has_storage_def
        xs_lib_def [THEN arg_cong, of lib_emptyRoot] xs_trie_slot)
qed

end
