(* ===== verification/Exec.thy ===== *)
theory Exec
  imports Mem
begin

text \<open>
  Package \<^verbatim>\<open>follower/exec\<close> (\<^verbatim>\<open>src/follower/exec/statedb.go\<close>, \<^verbatim>\<open>exec.go\<close>): execution of a block against the
  state of its parent. The packages it runs (coreth's state transition and libevm's state database) are
  outside the repository: a record \<open>coreth\<close> of programs (\<open>cprog\<close>) that call the database given to them and
  end in a result. Everything the calls reach is modelled: the capturing database, its two tries, the view
  through the pending layers, and the header map.

  The answers of a program come from a function, which is the capturing database in \<open>exec_run\<close> and a world
  in the specification; \<open>Execute_spec\<close> shows that both give the same result. \<open>exec_world\<close> is the world of a
  block: the store with the pending layers of its chain on top. Executing a block adds its world
  (\<open>Execute_world\<close>), finalizing it moves it from the layers to the store and leaves every world above as it
  is (\<open>OnFinalized_world\<close>, \<open>FoldFinalized_world\<close>).
\<close>

subsection \<open>Layers\<close>

record xlayer =
  xl_block :: u64
  xl_parent :: hash
  xl_accounts :: "address \<rightharpoonup> account"
  xl_slots :: "skey \<rightharpoonup> hash"
  xl_destructed :: "address set"
  xl_codes :: "hash \<rightharpoonup> bytes"

fun layer_apply_op :: "op \<Rightarrow> xlayer \<Rightarrow> xlayer" where
  "layer_apply_op (OpAccount a acc) l = l\<lparr>xl_accounts := (xl_accounts l)(a \<mapsto> acc)\<rparr>"
| "layer_apply_op (OpSlot a s v) l = l\<lparr>xl_slots := (xl_slots l)((a, s) \<mapsto> v)\<rparr>"
| "layer_apply_op (OpDeleteSlot a s) l = l\<lparr>xl_slots := (xl_slots l)((a, s) \<mapsto> 0)\<rparr>"
| "layer_apply_op (OpDestruct a) l =
     l\<lparr>xl_destructed := insert a (xl_destructed l), xl_accounts := (xl_accounts l)(a := None),
       xl_slots := (\<lambda>k. if fst k = a then None else xl_slots l k)\<rparr>"
| "layer_apply_op (OpCode h c) l = l\<lparr>xl_codes := (xl_codes l)(h \<mapsto> c)\<rparr>"
| "layer_apply_op (OpUnknown k) l = l"

definition layer_apply :: "op list \<Rightarrow> xlayer \<Rightarrow> xlayer" where
  "layer_apply ops l = fold layer_apply_op ops l"

definition exec_newLayer :: "batch \<Rightarrow> xlayer" where
  "exec_newLayer b = layer_apply (Ops b)
     \<lparr>xl_block = Block b, xl_parent = Parent b, xl_accounts = Map.empty, xl_slots = Map.empty,
      xl_destructed = {}, xl_codes = Map.empty\<rparr>"

subsection \<open>Views\<close>

record 'e xview =
  xv_db :: "'e db"
  xv_layers :: "xlayer list"

fun xlayers_account :: "xlayer list \<Rightarrow> address \<Rightarrow> (account \<times> bool) option" where
  "xlayers_account [] addr = None"
| "xlayers_account (l # ls) addr =
     (case xl_accounts l addr of
        Some a \<Rightarrow> Some (a, True)
      | None \<Rightarrow> if addr \<in> xl_destructed l then Some (zero_account, False) else xlayers_account ls addr)"

definition xview_account ::
  "'e lmdb_ops \<Rightarrow> (bytes \<Rightarrow> hash) \<Rightarrow> 'e xview \<Rightarrow> address \<Rightarrow> 'e xview \<times> (error + account \<times> bool)" where
  "xview_account L kc v addr =
     (case xlayers_account (xv_layers v) addr of
        Some r \<Rightarrow> (v, Inr r)
      | None \<Rightarrow> (case GetAccount L kc (xv_db v) addr Latest of (d, r) \<Rightarrow> (v\<lparr>xv_db := d\<rparr>, r)))"

fun xlayers_slot :: "xlayer list \<Rightarrow> address \<Rightarrow> hash \<Rightarrow> hash option" where
  "xlayers_slot [] addr s = None"
| "xlayers_slot (l # ls) addr s =
     (case xl_slots l (addr, s) of
        Some v \<Rightarrow> Some v
      | None \<Rightarrow> if addr \<in> xl_destructed l then Some 0 else xlayers_slot ls addr s)"

definition xview_slot ::
  "'e lmdb_ops \<Rightarrow> (bytes \<Rightarrow> hash) \<Rightarrow> 'e xview \<Rightarrow> address \<Rightarrow> hash \<Rightarrow> 'e xview \<times> (error + hash)" where
  "xview_slot L kc v addr s =
     (case xlayers_slot (xv_layers v) addr s of
        Some r \<Rightarrow> (v, Inr r)
      | None \<Rightarrow> (case GetSlot L kc (xv_db v) addr s Latest of (d, r) \<Rightarrow> (v\<lparr>xv_db := d\<rparr>, r)))"

fun xlayers_code :: "xlayer list \<Rightarrow> hash \<Rightarrow> bytes option" where
  "xlayers_code [] h = None"
| "xlayers_code (l # ls) h = (case xl_codes l h of Some c \<Rightarrow> Some c | None \<Rightarrow> xlayers_code ls h)"

definition xview_code :: "'e lmdb_ops \<Rightarrow> 'e xview \<Rightarrow> hash \<Rightarrow> error + bytes" where
  "xview_code L v h =
     (case xlayers_code (xv_layers v) h of Some c \<Rightarrow> Inr c | None \<Rightarrow> GetCode L (xv_db v) h)"

subsection \<open>The capturing database\<close>

record 'e captureDB =
  cd_v :: "'e xview"
  cd_ops :: "op list"

definition newCaptureDB :: "'e xview \<Rightarrow> 'e captureDB" where
  "newCaptureDB v = \<lparr>cd_v = v, cd_ops = []\<rparr>"

definition capture_op :: "op \<Rightarrow> 'e captureDB \<Rightarrow> 'e captureDB" where
  "capture_op x c = c\<lparr>cd_ops := cd_ops c @ [x]\<rparr>"

definition ContractCode :: "'e lmdb_ops \<Rightarrow> 'e captureDB \<Rightarrow> hash \<Rightarrow> error + bytes" where
  "ContractCode L c h = xview_code L (cd_v c) h"

definition ContractCodeSize :: "'e lmdb_ops \<Rightarrow> 'e captureDB \<Rightarrow> hash \<Rightarrow> nat \<times> error option" where
  "ContractCodeSize L c h =
     (case ContractCode L c h of Inl err \<Rightarrow> (0, Some err) | Inr x \<Rightarrow> (length x, None))"

text \<open>For a \<^verbatim>\<open>StateAccount\<close> of libevm, \<open>er\<close> is its \<^verbatim>\<open>EmptyRootHash\<close>, and \<^verbatim>\<open>EmptyCodeHash\<close> is the hash of no code.\<close>

definition acct_GetAccount ::
  "'e lmdb_ops \<Rightarrow> (bytes \<Rightarrow> hash) \<Rightarrow> hash \<Rightarrow> 'e captureDB \<Rightarrow> address
     \<Rightarrow> 'e captureDB \<times> (error + state_account option)" where
  "acct_GetAccount L kc er c a =
     (case xview_account L kc (cd_v c) a of
        (v, Inl err) \<Rightarrow> (c\<lparr>cd_v := v\<rparr>, Inl err)
      | (v, Inr (acc, ok)) \<Rightarrow>
          (if \<not> ok then (c\<lparr>cd_v := v\<rparr>, Inr None)
           else let codeHash = (if CodeHash acc = 0 then kc [] else CodeHash acc)
                in (c\<lparr>cd_v := v\<rparr>, Inr (Some \<lparr>sa_Nonce = Nonce acc, sa_Balance = Some (Balance acc),
                     sa_Root = er, sa_CodeHash = be_bytes 32 codeHash\<rparr>))))"

definition acct_UpdateAccount :: "(bytes \<Rightarrow> hash) \<Rightarrow> 'e captureDB \<Rightarrow> address \<Rightarrow> state_account \<Rightarrow> 'e captureDB" where
  "acct_UpdateAccount kc c a acc =
     capture_op (OpAccount a
       \<lparr>Balance = (case sa_Balance acc of None \<Rightarrow> 0 | Some b \<Rightarrow> b), Nonce = sa_Nonce acc,
        CodeHash = (if length (sa_CodeHash acc) = 32 then be_word (sa_CodeHash acc) else kc [])\<rparr>) c"

definition acct_DeleteAccount :: "'e captureDB \<Rightarrow> address \<Rightarrow> 'e captureDB" where
  "acct_DeleteAccount c a = capture_op (OpDestruct a) c"

definition acct_UpdateContractCode :: "'e captureDB \<Rightarrow> hash \<Rightarrow> bytes \<Rightarrow> 'e captureDB" where
  "acct_UpdateContractCode c h bc = capture_op (OpCode h bc) c"

definition key_error :: "bytes \<Rightarrow> error" where
  "key_error key = ErrBadLength (length key)"

definition st_GetStorage ::
  "'e lmdb_ops \<Rightarrow> (bytes \<Rightarrow> hash) \<Rightarrow> 'e captureDB \<Rightarrow> address \<Rightarrow> bytes \<Rightarrow> 'e captureDB \<times> (error + bytes option)" where
  "st_GetStorage L kc c a key =
     (if length key \<noteq> 32 then (c, Inl (key_error key))
      else case xview_slot L kc (cd_v c) a (be_word key) of
             (v, Inl err) \<Rightarrow> (c\<lparr>cd_v := v\<rparr>, Inl err)
           | (v, Inr x) \<Rightarrow> (c\<lparr>cd_v := v\<rparr>, Inr (if x = 0 then None else Some (be_bytes 32 x))))"

definition st_UpdateStorage :: "'e captureDB \<Rightarrow> address \<Rightarrow> bytes \<Rightarrow> bytes \<Rightarrow> 'e captureDB \<times> error option" where
  "st_UpdateStorage c a key val =
     (if length key \<noteq> 32 then (c, Some (key_error key))
      else (capture_op (OpSlot a (be_word key) (be_word val)) c, None))"

definition st_DeleteStorage :: "'e captureDB \<Rightarrow> address \<Rightarrow> bytes \<Rightarrow> 'e captureDB \<times> error option" where
  "st_DeleteStorage c a key =
     (if length key \<noteq> 32 then (c, Some (key_error key))
      else (capture_op (OpDeleteSlot a (be_word key)) c, None))"

text \<open>
  The calls of \<^verbatim>\<open>state.Database\<close> and \<^verbatim>\<open>state.Trie\<close>. An account call on a storage trie and a storage call on
  the account trie (\<open>CWrong\<close>) are refused with a message, as are iteration and proofs (\<open>CUnsupported\<close>).
\<close>

datatype cdb_call =
    CGetAccount address
  | CUpdateAccount address state_account
  | CDeleteAccount address
  | CUpdateCode hash bytes
  | CGetStorage address bytes
  | CUpdateStorage address bytes bytes
  | CDeleteStorage address bytes
  | CCode hash
  | CCodeSize hash
  | CHash
  | CCommit
  | CGetKey bytes
  | CWrong string
  | CUnsupported string

datatype cdb_ans =
    AAccount "error + state_account option"
  | AErr "error option"
  | AStorage "error + bytes option"
  | ACode "error + bytes"
  | ASize "nat \<times> error option"
  | ARoot hash
  | AKey "bytes option"

fun cdb_do ::
  "'e lmdb_ops \<Rightarrow> (bytes \<Rightarrow> hash) \<Rightarrow> hash \<Rightarrow> 'e captureDB \<Rightarrow> cdb_call \<Rightarrow> 'e captureDB \<times> cdb_ans" where
  "cdb_do L kc er c (CGetAccount a) = (case acct_GetAccount L kc er c a of (c', r) \<Rightarrow> (c', AAccount r))"
| "cdb_do L kc er c (CUpdateAccount a acc) = (acct_UpdateAccount kc c a acc, AErr None)"
| "cdb_do L kc er c (CDeleteAccount a) = (acct_DeleteAccount c a, AErr None)"
| "cdb_do L kc er c (CUpdateCode h bc) = (acct_UpdateContractCode c h bc, AErr None)"
| "cdb_do L kc er c (CGetStorage a k) = (case st_GetStorage L kc c a k of (c', r) \<Rightarrow> (c', AStorage r))"
| "cdb_do L kc er c (CUpdateStorage a k v) = (case st_UpdateStorage c a k v of (c', r) \<Rightarrow> (c', AErr r))"
| "cdb_do L kc er c (CDeleteStorage a k) = (case st_DeleteStorage c a k of (c', r) \<Rightarrow> (c', AErr r))"
| "cdb_do L kc er c (CCode h) = (c, ACode (ContractCode L c h))"
| "cdb_do L kc er c (CCodeSize h) = (c, ASize (ContractCodeSize L c h))"
| "cdb_do L kc er c CHash = (c, ARoot er)"
| "cdb_do L kc er c CCommit = (c, ARoot er)"
| "cdb_do L kc er c (CGetKey k) = (c, AKey None)"
| "cdb_do L kc er c (CWrong m) = (c, AErr (Some (ErrMsg m)))"
| "cdb_do L kc er c (CUnsupported m) = (c, AErr (Some (ErrMsg m)))"

subsection \<open>Blocks, headers, and what coreth provides\<close>

record eth_header =
  hd_hash :: hash
  hd_number :: u64
  hd_time :: u64
  hd_gasLimit :: u64
  hd_gasUsed :: u64
  hd_receipts :: hash
  hd_bloom :: bytes

record 't eth_block =
  eb_header :: eth_header
  eb_parentHash :: hash
  eb_txs :: "'t list"
  eb_ext :: bytes

datatype 'x cprog =
    Ret 'x
  | Call cdb_call "cdb_ans \<Rightarrow> 'x cprog"
  | GetHeader hash u64 "eth_header option \<Rightarrow> 'x cprog"

text \<open>
  \<^verbatim>\<open>state.New\<close>, \<^verbatim>\<open>ApplyUpgrades\<close>, \<^verbatim>\<open>ApplyTransaction\<close> (with the gas pool and the gas used so far),
  \<^verbatim>\<open>ExtractAtomicTxs\<close> with the state transfer of each, \<^verbatim>\<open>Commit\<close>, and the two digests of the receipts.
\<close>

record ('s, 't, 'r) coreth =
  co_open :: "(error + 's) cprog"
  co_upgrades :: "u64 \<Rightarrow> eth_header \<Rightarrow> 's \<Rightarrow> (error + 's) cprog"
  co_tx :: "eth_header \<Rightarrow> nat \<Rightarrow> 't \<Rightarrow> 's \<Rightarrow> u64 \<Rightarrow> u64 \<Rightarrow> (error + 's \<times> u64 \<times> u64 \<times> 'r) cprog"
  co_atomic :: "eth_header \<Rightarrow> bytes \<Rightarrow> error + ('s \<Rightarrow> (error + 's) cprog) list"
  co_commit :: "eth_header \<Rightarrow> 's \<Rightarrow> (error + unit) cprog"
  co_receiptsRoot :: "'r list \<Rightarrow> hash"
  co_bloom :: "'r list \<Rightarrow> bytes"

subsection \<open>The executor\<close>

definition headerHistory :: u64 where
  "headerHistory = 300"

record 'e exec =
  x_db :: "'e db"
  x_pending :: "hash \<rightharpoonup> xlayer"
  x_dryBase :: "xlayer option"
  x_finalized :: u64
  x_headers :: "hash \<rightharpoonup> eth_header"

definition exec_New :: "'e db \<Rightarrow> 'e exec" where
  "exec_New d = \<lparr>x_db = d, x_pending = Map.empty, x_dryBase = None, x_finalized = 0, x_headers = Map.empty\<rparr>"

definition SeedHeaders :: "eth_header list \<Rightarrow> 'e exec \<Rightarrow> 'e exec" where
  "SeedHeaders hs e = e\<lparr>x_headers := fold (\<lambda>h m. m(hd_hash h \<mapsto> h)) hs (x_headers e)\<rparr>"

definition prune :: "u64 \<Rightarrow> 'e exec \<Rightarrow> 'e exec" where
  "prune height e =
     (let e1 = e\<lparr>x_finalized := height,
                 x_pending := (\<lambda>h. case x_pending e h of None \<Rightarrow> None
                                 | Some l \<Rightarrow> if xl_block l \<le> height then None else Some l)\<rparr>
      in if height > headerHistory
         then e1\<lparr>x_headers := (\<lambda>h. case x_headers e h of None \<Rightarrow> None
                                | Some hdr \<Rightarrow> if hd_number hdr < height - headerHistory then None else Some hdr)\<rparr>
         else e1)"

definition OnFinalized :: "u64 \<Rightarrow> 'e exec \<Rightarrow> 'e exec" where
  "OnFinalized height e = prune height e"

definition emptyBatch :: batch where
  "emptyBatch = \<lparr>Block = 0, Hash = 0, Parent = 0, Time = 0, Ops = []\<rparr>"

definition FoldFinalized :: "batch \<Rightarrow> 'e exec \<Rightarrow> 'e exec" where
  "FoldFinalized b e =
     (let bl = (case x_dryBase e of None \<Rightarrow> exec_newLayer emptyBatch | Some l \<Rightarrow> l)
      in prune (Block b) (e\<lparr>x_dryBase := Some (layer_apply (Ops b) bl)\<rparr>))"

partial_function (option) layers_from :: "(hash \<rightharpoonup> xlayer) \<Rightarrow> hash \<Rightarrow> xlayer list \<Rightarrow> xlayer list option" where
  "layers_from p h acc =
     (case p h of
        None \<Rightarrow> Some acc
      | Some l \<Rightarrow> layers_from p (xl_parent l) (acc @ [l]))"

definition viewAt :: "'e exec \<Rightarrow> hash \<Rightarrow> 'e xview option" where
  "viewAt e parent =
     map_option (\<lambda>ls. \<lparr>xv_db = x_db e,
        xv_layers = (case x_dryBase e of None \<Rightarrow> ls | Some b \<Rightarrow> ls @ [b])\<rparr>)
       (layers_from (x_pending e) parent [])"

definition chain_GetHeader :: "(hash \<rightharpoonup> eth_header) \<Rightarrow> hash \<Rightarrow> u64 \<Rightarrow> eth_header option" where
  "chain_GetHeader hs h n =
     (case hs h of None \<Rightarrow> None | Some hdr \<Rightarrow> if hd_number hdr \<noteq> n then None else Some hdr)"

text \<open>A program runs against a function that answers its calls, and the header map.\<close>

primrec cprog_run ::
  "('c \<Rightarrow> cdb_call \<Rightarrow> 'c \<times> cdb_ans) \<Rightarrow> (hash \<rightharpoonup> eth_header) \<Rightarrow> 'x cprog \<Rightarrow> 'c \<Rightarrow> 'c \<times> 'x" where
  "cprog_run f hs (Ret x) = (\<lambda>c. (c, x))"
| "cprog_run f hs (Call q k) = (\<lambda>c. case f c q of (c', a) \<Rightarrow> cprog_run f hs (k a) c')"
| "cprog_run f hs (GetHeader h n k) = (\<lambda>c. cprog_run f hs (k (chain_GetHeader hs h n)) c)"

fun run_txs ::
  "('s, 't, 'r) coreth \<Rightarrow> ('c \<Rightarrow> cdb_call \<Rightarrow> 'c \<times> cdb_ans) \<Rightarrow> (hash \<rightharpoonup> eth_header) \<Rightarrow> eth_header
     \<Rightarrow> nat \<Rightarrow> 't list \<Rightarrow> 's \<Rightarrow> u64 \<Rightarrow> u64 \<Rightarrow> 'r list \<Rightarrow> 'c \<Rightarrow> 'c \<times> (error + 's \<times> u64 \<times> 'r list)" where
  "run_txs C f hs hdr i [] s gp used rs c = (c, Inr (s, used, rs))"
| "run_txs C f hs hdr i (tx # txs) s gp used rs c =
     (case cprog_run f hs (co_tx C hdr i tx s gp used) c of
        (c', Inl err) \<Rightarrow> (c', Inl err)
      | (c', Inr (s', gp', used', r)) \<Rightarrow> run_txs C f hs hdr (Suc i) txs s' gp' used' (rs @ [r]) c')"

fun run_atomic ::
  "('c \<Rightarrow> cdb_call \<Rightarrow> 'c \<times> cdb_ans) \<Rightarrow> (hash \<rightharpoonup> eth_header) \<Rightarrow> ('s \<Rightarrow> (error + 's) cprog) list \<Rightarrow> 's
     \<Rightarrow> 'c \<Rightarrow> 'c \<times> (error + 's)" where
  "run_atomic f hs [] s c = (c, Inr s)"
| "run_atomic f hs (t # ts) s c =
     (case cprog_run f hs (t s) c of
        (c', Inl err) \<Rightarrow> (c', Inl err)
      | (c', Inr s') \<Rightarrow> run_atomic f hs ts s' c')"

text \<open>The part of \<^verbatim>\<open>run\<close> after the parent header was found: everything that touches the state database.\<close>

definition run_state ::
  "('s, 't, 'r) coreth \<Rightarrow> ('c \<Rightarrow> cdb_call \<Rightarrow> 'c \<times> cdb_ans) \<Rightarrow> (hash \<rightharpoonup> eth_header) \<Rightarrow> u64 \<Rightarrow> 't eth_block
     \<Rightarrow> 'c \<Rightarrow> 'c \<times> (error + u64 \<times> 'r list)" where
  "run_state C f hs parentTime blk c =
     (let hdr = eb_header blk in
      case cprog_run f hs (co_open C) c of
        (c0, Inl err) \<Rightarrow> (c0, Inl err)
      | (c0, Inr s0) \<Rightarrow>
     (case cprog_run f hs (co_upgrades C parentTime hdr s0) c0 of
        (c1, Inl err) \<Rightarrow> (c1, Inl err)
      | (c1, Inr s1) \<Rightarrow>
     (case run_txs C f hs hdr 0 (eb_txs blk) s1 (hd_gasLimit hdr) 0 [] c1 of
        (c2, Inl err) \<Rightarrow> (c2, Inl err)
      | (c2, Inr (s2, used, rs)) \<Rightarrow>
     (case (if eb_ext blk = [] then (c2, Inr s2)
            else case co_atomic C hdr (eb_ext blk) of
                   Inl err \<Rightarrow> (c2, Inl err)
                 | Inr ts \<Rightarrow> run_atomic f hs ts s2 c2) of
        (c3, Inl err) \<Rightarrow> (c3, Inl err)
      | (c3, Inr s3) \<Rightarrow>
     (case cprog_run f hs (co_commit C hdr s3) c3 of
        (c4, Inl err) \<Rightarrow> (c4, Inl err)
      | (c4, Inr _) \<Rightarrow> (c4, Inr (used, rs)))))))"

definition exec_run ::
  "'e lmdb_ops \<Rightarrow> (bytes \<Rightarrow> hash) \<Rightarrow> hash \<Rightarrow> ('s, 't, 'r) coreth \<Rightarrow> 'e exec \<Rightarrow> hash \<Rightarrow> 't eth_block
     \<Rightarrow> ('e exec \<times> (error + op list \<times> u64 \<times> 'r list)) option" where
  "exec_run L kc er C e parent blk =
     (let num = hd_number (eb_header blk) in
      case x_headers e parent of
        None \<Rightarrow> Some (e, Inl (ErrMsg ''exec: parent header not seeded''))
      | Some ph \<Rightarrow>
          (if hd_number ph \<noteq> num - 1 then Some (e, Inl (ErrHeight (hd_number ph) num))
           else case viewAt e parent of
                  None \<Rightarrow> None
                | Some v \<Rightarrow>
                    (case run_state C (cdb_do L kc er) (x_headers e) (hd_time ph) blk (newCaptureDB v) of
                       (c, Inl err) \<Rightarrow> Some (e\<lparr>x_db := xv_db (cd_v c)\<rparr>, Inl err)
                     | (c, Inr (used, rs)) \<Rightarrow> Some (e\<lparr>x_db := xv_db (cd_v c)\<rparr>, Inr (cd_ops c, used, rs)))))"

definition check_block :: "('s, 't, 'r) coreth \<Rightarrow> eth_header \<Rightarrow> u64 \<Rightarrow> 'r list \<Rightarrow> error option" where
  "check_block C hdr used rs =
     (if used \<noteq> hd_gasUsed hdr then Some (ErrMsg ''exec: gasUsed mismatch'')
      else if co_receiptsRoot C rs \<noteq> hd_receipts hdr then Some (ErrMsg ''exec: receiptsRoot mismatch'')
      else if co_bloom C rs \<noteq> hd_bloom hdr then Some (ErrMsg ''exec: logsBloom mismatch'')
      else None)"

definition block_batch :: "hash \<Rightarrow> 't eth_block \<Rightarrow> op list \<Rightarrow> batch" where
  "block_batch parent blk ops =
     \<lparr>Block = hd_number (eb_header blk), Hash = hd_hash (eb_header blk), Parent = parent,
      Time = hd_time (eb_header blk) * 1000, Ops = ops\<rparr>"

definition exec_Execute ::
  "'e lmdb_ops \<Rightarrow> (bytes \<Rightarrow> hash) \<Rightarrow> hash \<Rightarrow> ('s, 't, 'r) coreth \<Rightarrow> 'e exec \<Rightarrow> hash \<Rightarrow> 't eth_block
     \<Rightarrow> ('e exec \<times> (error + batch)) option" where
  "exec_Execute L kc er C e parent blk =
     (case exec_run L kc er C e parent blk of
        None \<Rightarrow> None
      | Some (e1, Inl err) \<Rightarrow> Some (e1, Inl err)
      | Some (e1, Inr (ops, used, rs)) \<Rightarrow>
          (case check_block C (eb_header blk) used rs of
             Some err \<Rightarrow> Some (e1, Inl err)
           | None \<Rightarrow>
               (let b = block_batch parent blk ops
                in Some (e1\<lparr>x_pending := (x_pending e1)(Hash b \<mapsto> exec_newLayer b),
                            x_headers := (x_headers e1)(hd_hash (eb_header blk) \<mapsto> eb_header blk)\<rparr>, Inr b))))"

subsection \<open>Layers denote effects\<close>

text \<open>What a layer makes of the world below it.\<close>

definition layer_world :: "xlayer \<Rightarrow> world \<Rightarrow> world" where
  "layer_world l w =
     \<lparr>w_acct = (\<lambda>a. case xl_accounts l a of Some x \<Rightarrow> Some x
        | None \<Rightarrow> if a \<in> xl_destructed l then None else w_acct w a),
      w_slot = (\<lambda>a s. case xl_slots l (a, s) of Some v \<Rightarrow> v
        | None \<Rightarrow> if a \<in> xl_destructed l then 0 else w_slot w a s)\<rparr>"

lemma layer_world_op: "layer_world (layer_apply_op x l) w = apply_op x (layer_world l w)"
  by (cases x) (auto simp: layer_world_def fun_eq_iff)

lemma layer_world_apply: "layer_world (layer_apply ops l) w = apply_ops ops (layer_world l w)"
  unfolding layer_apply_def by (induction ops arbitrary: l) (simp_all add: layer_world_op)

lemma layer_apply_frame [simp]:
  "xl_block (layer_apply ops l) = xl_block l" "xl_parent (layer_apply ops l) = xl_parent l"
proof -
  have op: "xl_block (layer_apply_op x l) = xl_block l" "xl_parent (layer_apply_op x l) = xl_parent l" for x l
    by (cases x; simp)+
  show "xl_block (layer_apply ops l) = xl_block l" "xl_parent (layer_apply ops l) = xl_parent l"
    unfolding layer_apply_def by (induction ops arbitrary: l) (simp_all add: op)
qed

lemma layer_world_new [simp]: "layer_world (exec_newLayer b) w = apply_batch b w"
proof -
  have "layer_world \<lparr>xl_block = x, xl_parent = y, xl_accounts = Map.empty, xl_slots = Map.empty,
    xl_destructed = {}, xl_codes = Map.empty\<rparr> w = w" for x y
    by (rule world_eqI) (simp_all add: layer_world_def)
  then show ?thesis by (simp add: exec_newLayer_def layer_world_apply apply_batch_def)
qed

lemma newLayer_frame [simp]: "xl_block (exec_newLayer b) = Block b" "xl_parent (exec_newLayer b) = Parent b"
  by (simp_all add: exec_newLayer_def)

lemma layer_codes_op: "xl_codes (layer_apply_op x l) = (case x of OpCode h c \<Rightarrow> (xl_codes l)(h \<mapsto> c) | _ \<Rightarrow> xl_codes l)"
  by (cases x) simp_all

text \<open>The layers of a view, newest first, over a world.\<close>

abbreviation layers_world :: "xlayer list \<Rightarrow> world \<Rightarrow> world" where
  "layers_world ls w \<equiv> foldr layer_world ls w"

lemma xlayers_account_world:
  "acct_res (w_acct (layers_world ls w) a) =
     (case xlayers_account ls a of Some r \<Rightarrow> r | None \<Rightarrow> acct_res (w_acct w a))"
  by (induction ls) (auto simp: layer_world_def split: option.splits)

lemma xlayers_slot_world:
  "w_slot (layers_world ls w) a s = (case xlayers_slot ls a s of Some v \<Rightarrow> v | None \<Rightarrow> w_slot w a s)"
  by (induction ls) (auto simp: layer_world_def split: option.splits)

subsection \<open>The specification: a world that answers\<close>

text \<open>
  A database that is a world and a table of codes. Only the two reads of accounts and slots and those of
  code differ from the capturing database.
\<close>

record cworld =
  cw_world :: world
  cw_codes :: "hash \<rightharpoonup> bytes"
  cw_ops :: "op list"

definition cw_op :: "op \<Rightarrow> cworld \<Rightarrow> cworld" where
  "cw_op x c = c\<lparr>cw_ops := cw_ops c @ [x]\<rparr>"

definition cw_code :: "cworld \<Rightarrow> hash \<Rightarrow> error + bytes" where
  "cw_code c h = (case cw_codes c h of None \<Rightarrow> Inl ErrNotFound | Some x \<Rightarrow> Inr x)"

fun cw_do :: "(bytes \<Rightarrow> hash) \<Rightarrow> hash \<Rightarrow> cworld \<Rightarrow> cdb_call \<Rightarrow> cworld \<times> cdb_ans" where
  "cw_do kc er c (CGetAccount a) =
     (c, AAccount (Inr (map_option (\<lambda>acc. \<lparr>sa_Nonce = Nonce acc, sa_Balance = Some (Balance acc), sa_Root = er,
        sa_CodeHash = be_bytes 32 (if CodeHash acc = 0 then kc [] else CodeHash acc)\<rparr>) (w_acct (cw_world c) a))))"
| "cw_do kc er c (CUpdateAccount a acc) =
     (cw_op (OpAccount a \<lparr>Balance = (case sa_Balance acc of None \<Rightarrow> 0 | Some b \<Rightarrow> b), Nonce = sa_Nonce acc,
        CodeHash = (if length (sa_CodeHash acc) = 32 then be_word (sa_CodeHash acc) else kc [])\<rparr>) c, AErr None)"
| "cw_do kc er c (CDeleteAccount a) = (cw_op (OpDestruct a) c, AErr None)"
| "cw_do kc er c (CUpdateCode h bc) = (cw_op (OpCode h bc) c, AErr None)"
| "cw_do kc er c (CGetStorage a k) =
     (c, AStorage (if length k \<noteq> 32 then Inl (key_error k)
        else Inr (let x = w_slot (cw_world c) a (be_word k) in if x = 0 then None else Some (be_bytes 32 x))))"
| "cw_do kc er c (CUpdateStorage a k v) =
     (if length k \<noteq> 32 then (c, AErr (Some (key_error k)))
      else (cw_op (OpSlot a (be_word k) (be_word v)) c, AErr None))"
| "cw_do kc er c (CDeleteStorage a k) =
     (if length k \<noteq> 32 then (c, AErr (Some (key_error k)))
      else (cw_op (OpDeleteSlot a (be_word k)) c, AErr None))"
| "cw_do kc er c (CCode h) = (c, ACode (cw_code c h))"
| "cw_do kc er c (CCodeSize h) =
     (c, ASize (case cw_code c h of Inl err \<Rightarrow> (0, Some err) | Inr x \<Rightarrow> (length x, None)))"
| "cw_do kc er c CHash = (c, ARoot er)"
| "cw_do kc er c CCommit = (c, ARoot er)"
| "cw_do kc er c (CGetKey k) = (c, AKey None)"
| "cw_do kc er c (CWrong m) = (c, AErr (Some (ErrMsg m)))"
| "cw_do kc er c (CUnsupported m) = (c, AErr (Some (ErrMsg m)))"

text \<open>Two databases that answer alike run a block alike.\<close>

locale database_refinement =
  fixes f :: "'c \<Rightarrow> cdb_call \<Rightarrow> 'c \<times> cdb_ans" and g :: "'d \<Rightarrow> cdb_call \<Rightarrow> 'd \<times> cdb_ans"
    and rel :: "'c \<Rightarrow> 'd \<Rightarrow> bool"
  assumes step: "rel c d \<Longrightarrow> rel (fst (f c q)) (fst (g d q)) \<and> snd (f c q) = snd (g d q)"
begin

abbreviation same :: "'c \<times> 'x \<Rightarrow> 'd \<times> 'x \<Rightarrow> bool" where
  "same p q \<equiv> rel (fst p) (fst q) \<and> snd p = snd q"

lemma cprog_run_same: "rel c d \<Longrightarrow> same (cprog_run f hs p c) (cprog_run g hs p d)"
proof (induction p arbitrary: c d)
  case (Call q k)
  from step [OF Call.prems, of q] show ?case
    by (cases "f c q", cases "g d q") (auto intro!: Call.IH)
qed auto

lemma run_txs_same:
  "rel c d \<Longrightarrow> same (run_txs C f hs hdr i txs s gp used rs c) (run_txs C g hs hdr i txs s gp used rs d)"
proof (induction txs arbitrary: i s gp used rs c d)
  case (Cons tx txs)
  from cprog_run_same [OF Cons.prems, of hs "co_tx C hdr i tx s gp used"] Cons.IH show ?case
    by (cases "cprog_run f hs (co_tx C hdr i tx s gp used) c";
        cases "cprog_run g hs (co_tx C hdr i tx s gp used) d") (auto split: sum.splits prod.splits)
qed simp

lemma run_atomic_same: "rel c d \<Longrightarrow> same (run_atomic f hs ts s c) (run_atomic g hs ts s d)"
proof (induction ts arbitrary: s c d)
  case (Cons t ts)
  from cprog_run_same [OF Cons.prems, of hs "t s"] Cons.IH show ?case
    by (cases "cprog_run f hs (t s) c"; cases "cprog_run g hs (t s) d") (auto split: sum.splits)
qed simp

text \<open>One stage of a run: related stages followed by related stages are related.\<close>

lemma stage:
  assumes "same p q" and "\<And>c d x. rel c d \<Longrightarrow> snd p = Inr x \<Longrightarrow> same (h x c) (k x d)"
  shows "same (case p of (c, Inl err) \<Rightarrow> (c, Inl err) | (c, Inr x) \<Rightarrow> h x c)
              (case q of (c, Inl err) \<Rightarrow> (c, Inl err) | (c, Inr x) \<Rightarrow> k x c)"
  using assms by (cases p; cases q; cases "snd p") auto

lemma run_state_same:
  assumes "rel c d"
  shows "same (run_state C f hs t blk c) (run_state C g hs t blk d)"
proof -
  let ?hdr = "eb_header blk"
  have at: "same (if eb_ext blk = [] then (c2, Inr s2) else case co_atomic C ?hdr (eb_ext blk) of
        Inl err \<Rightarrow> (c2, Inl err) | Inr ts \<Rightarrow> run_atomic f hs ts s2 c2)
      (if eb_ext blk = [] then (d2, Inr s2) else case co_atomic C ?hdr (eb_ext blk) of
        Inl err \<Rightarrow> (d2, Inl err) | Inr ts \<Rightarrow> run_atomic g hs ts s2 d2)" if "rel c2 d2" for c2 d2 s2
    using that by (auto simp: run_atomic_same [OF that] split: sum.split)
  have fin: "same (case cprog_run f hs (co_commit C ?hdr s3) c3 of (c4, Inl err) \<Rightarrow> (c4, Inl err)
        | (c4, Inr _) \<Rightarrow> (c4, Inr (used, rs)))
      (case cprog_run g hs (co_commit C ?hdr s3) d3 of (c4, Inl err) \<Rightarrow> (c4, Inl err)
        | (c4, Inr _) \<Rightarrow> (c4, Inr (used, rs)))" if "rel c3 d3" for c3 d3 s3 used rs
    by (rule stage [OF cprog_run_same [OF that]]) simp
  show ?thesis
    unfolding run_state_def Let_def
    apply (rule stage [OF cprog_run_same [OF assms]])
    apply (rule stage, erule cprog_run_same)
    apply (rule stage, erule run_txs_same)
    subgoal for c0 d0 x c1 d1 y c2 d2 z
      by (cases z, simp only: prod.case) (rule stage, erule at, erule fin)
    done
qed

end

text \<open>The capturing database over a view whose store serves.\<close>

definition cdb_rel ::
  "(bytes \<Rightarrow> hash) \<Rightarrow> ('e \<Rightarrow> bytes \<rightharpoonup> bytes) \<Rightarrow> u64 \<Rightarrow> 'e \<Rightarrow> xlayer list \<Rightarrow> 'e captureDB \<Rightarrow> cworld \<Rightarrow> bool" where
  "cdb_rel kc kv S e ls c d \<longleftrightarrow>
     serving kv S (xv_db (cd_v c)) \<and> env (xv_db (cd_v c)) = e \<and> xv_layers (cd_v c) = ls
     \<and> cw_world d = layers_world ls (world_at kc (kv e) Latest)
     \<and> cw_codes d = (\<lambda>h. case xlayers_code ls h of Some x \<Rightarrow> Some x | None \<Rightarrow> kv e (key_bytes (KCode h)))
     \<and> cw_ops d = cd_ops c"

lemma cdb_rel_op: "cdb_rel kc kv S e ls c d \<Longrightarrow> cdb_rel kc kv S e ls (capture_op x c) (cw_op x d)"
  by (simp add: cdb_rel_def capture_op_def cw_op_def)

context healthy_lmdb
begin

lemma xview_account_ok:
  assumes "serving kv S (xv_db v)"
  shows "\<exists>d'. xview_account L kc v a =
      (v\<lparr>xv_db := d'\<rparr>, Inr (acct_res (w_acct (layers_world (xv_layers v) (db_world kc kv (xv_db v))) a)))
    \<and> serving kv S d' \<and> env d' = env (xv_db v)"
proof (cases "xlayers_account (xv_layers v) a")
  case None
  from GetAccount_serving [OF assms, of kc a] obtain d' where
    "GetAccount L kc (xv_db v) a Latest = (d', Inr (acct_res (w_acct (db_world kc kv (xv_db v)) a)))"
    "env d' = env (xv_db v)" "serving kv S d'" by blast
  with None show ?thesis
    by (intro exI [of _ d']) (simp add: xview_account_def xlayers_account_world)
next
  case (Some r)
  with assms show ?thesis
    by (intro exI [of _ "xv_db v"]) (simp add: xview_account_def xlayers_account_world)
qed

lemma xview_slot_ok:
  assumes "serving kv S (xv_db v)"
  shows "\<exists>d'. xview_slot L kc v a s =
      (v\<lparr>xv_db := d'\<rparr>, Inr (w_slot (layers_world (xv_layers v) (db_world kc kv (xv_db v))) a s))
    \<and> serving kv S d' \<and> env d' = env (xv_db v)"
proof (cases "xlayers_slot (xv_layers v) a s")
  case None
  from GetSlot_serving [OF assms, of kc a s] obtain d' where
    "GetSlot L kc (xv_db v) a s Latest = (d', Inr (w_slot (db_world kc kv (xv_db v)) a s))"
    "env d' = env (xv_db v)" "serving kv S d'" by blast
  with None show ?thesis
    by (intro exI [of _ d']) (simp add: xview_slot_def xlayers_slot_world)
next
  case (Some r)
  with assms show ?thesis
    by (intro exI [of _ "xv_db v"]) (simp add: xview_slot_def xlayers_slot_world)
qed

lemma cdb_rel_code: "cdb_rel kc kv S e ls c d \<Longrightarrow> ContractCode L c h = cw_code d h"
  by (auto simp: cdb_rel_def ContractCode_def xview_code_def cw_code_def GetCode_eq split: option.splits)

lemma cdb_rel_account:
  assumes "cdb_rel kc kv S e ls c d"
  shows "\<exists>c'. cdb_do L kc er c (CGetAccount a) = (c', snd (cw_do kc er d (CGetAccount a))) \<and> cdb_rel kc kv S e ls c' d"
proof -
  from assms have "serving kv S (xv_db (cd_v c))" by (simp add: cdb_rel_def)
  from xview_account_ok [OF this, of kc a] assms obtain d' where
    "xview_account L kc (cd_v c) a = ((cd_v c)\<lparr>xv_db := d'\<rparr>, Inr (acct_res (w_acct (cw_world d) a)))"
    "serving kv S d'" "env d' = e" by (auto simp: cdb_rel_def db_world_def)
  with assms show ?thesis
    by (cases "w_acct (cw_world d) a") (simp_all add: acct_GetAccount_def cdb_rel_def Let_def)
qed

lemma cdb_rel_storage:
  assumes "cdb_rel kc kv S e ls c d"
  shows "\<exists>c'. cdb_do L kc er c (CGetStorage a k) = (c', snd (cw_do kc er d (CGetStorage a k))) \<and> cdb_rel kc kv S e ls c' d"
proof -
  from assms have "serving kv S (xv_db (cd_v c))" by (simp add: cdb_rel_def)
  from xview_slot_ok [OF this, of kc a "be_word k"] assms obtain d' where
    "xview_slot L kc (cd_v c) a (be_word k) = ((cd_v c)\<lparr>xv_db := d'\<rparr>, Inr (w_slot (cw_world d) a (be_word k)))"
    "serving kv S d'" "env d' = e" by (auto simp: cdb_rel_def db_world_def)
  with assms show ?thesis by (simp add: st_GetStorage_def cdb_rel_def Let_def)
qed

lemma cdb_step:
  assumes "cdb_rel kc kv S e ls c d"
  shows "cdb_rel kc kv S e ls (fst (cdb_do L kc er c q)) (fst (cw_do kc er d q))
    \<and> snd (cdb_do L kc er c q) = snd (cw_do kc er d q)"
proof (cases q)
  case (CGetAccount a)
  with cdb_rel_account [OF assms, of er a] show ?thesis by auto
next
  case (CGetStorage a k)
  with cdb_rel_storage [OF assms, of er a k] show ?thesis by auto
qed (use assms cdb_rel_op [OF assms] cdb_rel_code [OF assms] in
    \<open>simp_all add: acct_UpdateAccount_def acct_DeleteAccount_def acct_UpdateContractCode_def
      st_UpdateStorage_def st_DeleteStorage_def ContractCodeSize_def\<close>)

end

sublocale healthy_lmdb \<subseteq> capture: database_refinement "cdb_do L kc er" "cw_do kc er" "cdb_rel kc kv S e ls"
  for kc er S e ls
  by unfold_locales (rule cdb_step)

subsection \<open>The world of a block\<close>

text \<open>\<open>num\<close> is the height a block hash commits to. The pending layers form a forest, by height.\<close>

definition pending_ok :: "(hash \<Rightarrow> u64) \<Rightarrow> (hash \<rightharpoonup> xlayer) \<Rightarrow> bool" where
  "pending_ok num p \<longleftrightarrow> (\<forall>h l. p h = Some l \<longrightarrow> xl_block l = num h \<and> num (xl_parent l) < num h)"

fun xpath :: "(hash \<rightharpoonup> xlayer) \<Rightarrow> hash \<Rightarrow> xlayer list \<Rightarrow> bool" where
  "xpath p h [] \<longleftrightarrow> p h = None"
| "xpath p h (l # ls) \<longleftrightarrow> p h = Some l \<and> xpath p (xl_parent l) ls"

lemma layers_from_path: "xpath p h ls \<Longrightarrow> layers_from p h acc = Some (acc @ ls)"
proof (induction ls arbitrary: h acc)
  case (Cons l ls)
  then show ?case by (simp add: layers_from.simps [of p h])
qed (simp add: layers_from.simps)

lemma xpath_exists:
  assumes "pending_ok num p"
  shows "\<exists>ls. xpath p h ls"
proof (induction "unat (num h)" arbitrary: h rule: less_induct)
  case less
  show ?case
  proof (cases "p h")
    case None
    then show ?thesis by (intro exI [of _ "[]"]) simp
  next
    case (Some l)
    with assms have "num (xl_parent l) < num h" by (simp add: pending_ok_def)
    with less [of "xl_parent l"] obtain ls where "xpath p (xl_parent l) ls"
      by (auto simp: word_less_nat_alt)
    with Some show ?thesis by (intro exI [of _ "l # ls"]) simp
  qed
qed

lemma xpath_unique: "xpath p h ls \<Longrightarrow> xpath p h ls' \<Longrightarrow> ls = ls'"
proof (induction ls arbitrary: h ls')
  case Nil
  then show ?case by (cases ls') simp_all
next
  case (Cons l ls)
  then show ?case by (cases ls') auto
qed

lemma viewAt_path:
  "xpath (x_pending e) h ls \<Longrightarrow> viewAt e h =
     Some \<lparr>xv_db = x_db e, xv_layers = (case x_dryBase e of None \<Rightarrow> ls | Some b \<Rightarrow> ls @ [b])\<rparr>"
  by (simp add: viewAt_def layers_from_path)

definition exec_world :: "(bytes \<Rightarrow> hash) \<Rightarrow> ('e \<Rightarrow> bytes \<rightharpoonup> bytes) \<Rightarrow> 'e exec \<Rightarrow> hash \<Rightarrow> world" where
  "exec_world kc kv e h =
     (case viewAt e h of
        None \<Rightarrow> db_world kc kv (x_db e)
      | Some v \<Rightarrow> layers_world (xv_layers v) (db_world kc kv (xv_db v)))"

definition exec_codes :: "('e \<Rightarrow> bytes \<rightharpoonup> bytes) \<Rightarrow> 'e exec \<Rightarrow> hash \<Rightarrow> hash \<rightharpoonup> bytes" where
  "exec_codes kv e h x =
     (case viewAt e h of
        None \<Rightarrow> None
      | Some v \<Rightarrow> (case xlayers_code (xv_layers v) x of
                    Some c \<Rightarrow> Some c | None \<Rightarrow> kv (env (xv_db v)) (key_bytes (KCode x))))"

lemma exec_world_path:
  "xpath (x_pending e) h ls \<Longrightarrow> exec_world kc kv e h =
     layers_world ls ((case x_dryBase e of None \<Rightarrow> id | Some b \<Rightarrow> layer_world b) (db_world kc kv (x_db e)))"
  by (simp add: exec_world_def viewAt_path split: option.split)

definition exec_ok :: "(hash \<Rightarrow> u64) \<Rightarrow> ('e \<Rightarrow> bytes \<rightharpoonup> bytes) \<Rightarrow> u64 \<Rightarrow> 'e exec \<Rightarrow> bool" where
  "exec_ok num kv S e \<longleftrightarrow>
     serving kv S (x_db e) \<and> pending_ok num (x_pending e)
     \<and> (\<forall>h hdr. x_headers e h = Some hdr \<longrightarrow> hd_number hdr = num h)"

lemma exec_New_ok: "serving kv S d \<Longrightarrow> exec_ok num kv S (exec_New d)"
  by (simp add: exec_ok_def exec_New_def pending_ok_def)

lemma seeded:
  "fold (\<lambda>h m. m(hd_hash h \<mapsto> h)) hs m h = Some hdr \<Longrightarrow> m h = Some hdr \<or> hdr \<in> set hs \<and> hd_hash hdr = h"
proof (induction hs arbitrary: m)
  case (Cons x hs)
  from Cons.IH [of "m(hd_hash x \<mapsto> x)"] Cons.prems show ?case by (auto split: if_splits)
qed simp

lemma SeedHeaders_ok:
  assumes "exec_ok num kv S e" and "\<forall>h \<in> set hs. hd_number h = num (hd_hash h)"
  shows "exec_ok num kv S (SeedHeaders hs e)"
  using assms by (auto simp: exec_ok_def SeedHeaders_def dest!: seeded)

text \<open>The execution of a block as a function of a world, a table of codes and the headers.\<close>

definition exec_spec ::
  "(bytes \<Rightarrow> hash) \<Rightarrow> hash \<Rightarrow> ('s, 't, 'r) coreth \<Rightarrow> (hash \<rightharpoonup> eth_header) \<Rightarrow> world \<Rightarrow> (hash \<rightharpoonup> bytes) \<Rightarrow> hash
     \<Rightarrow> 't eth_block \<Rightarrow> error + batch" where
  "exec_spec kc er C hs w codes parent blk =
     (let num = hd_number (eb_header blk) in
      case hs parent of
        None \<Rightarrow> Inl (ErrMsg ''exec: parent header not seeded'')
      | Some ph \<Rightarrow>
          (if hd_number ph \<noteq> num - 1 then Inl (ErrHeight (hd_number ph) num)
           else case run_state C (cw_do kc er) hs (hd_time ph) blk \<lparr>cw_world = w, cw_codes = codes, cw_ops = []\<rparr> of
                  (c, Inl err) \<Rightarrow> Inl err
                | (c, Inr (used, rs)) \<Rightarrow>
                    (case check_block C (eb_header blk) used rs of
                       Some err \<Rightarrow> Inl err
                     | None \<Rightarrow> Inr (block_batch parent blk (cw_ops c)))))"

context healthy_lmdb
begin

lemma Execute_spec:
  assumes ok: "exec_ok num kv S e"
  shows "\<exists>e' r. exec_Execute L kc er C e parent blk = Some (e', r)
    \<and> r = exec_spec kc er C (x_headers e) (exec_world kc kv e parent) (exec_codes kv e parent) parent blk
    \<and> serving kv S (x_db e') \<and> env (x_db e') = env (x_db e) \<and> x_dryBase e' = x_dryBase e
    \<and> (case r of
         Inl _ \<Rightarrow> x_pending e' = x_pending e \<and> x_headers e' = x_headers e
       | Inr b \<Rightarrow> x_pending e' = (x_pending e)(Hash b \<mapsto> exec_newLayer b)
           \<and> x_headers e' = (x_headers e)(hd_hash (eb_header blk) \<mapsto> eb_header blk))"
proof -
  from ok have sv: "serving kv S (x_db e)" by (simp add: exec_ok_def)
  from ok have "pending_ok num (x_pending e)" by (simp add: exec_ok_def)
  from xpath_exists [OF this, of parent] obtain ls where ls: "xpath (x_pending e) parent ls" ..
  obtain v where v: "viewAt e parent = Some v" "xv_db v = x_db e" using viewAt_path [OF ls] by simp
  show ?thesis
  proof (cases "x_headers e parent")
    case None
    with sv show ?thesis by (simp add: exec_Execute_def exec_run_def exec_spec_def Let_def)
  next
    case (Some ph)
    let ?c = "newCaptureDB v" and ?d = "\<lparr>cw_world = exec_world kc kv e parent, cw_codes = exec_codes kv e parent, cw_ops = []\<rparr>"
    have "cdb_rel kc kv S (env (x_db e)) (xv_layers v) ?c ?d"
      using v sv by (auto simp: cdb_rel_def newCaptureDB_def exec_world_def exec_codes_def db_world_def split: option.split)
    note same = capture.run_state_same [OF this, of C er "x_headers e" "hd_time ph" blk]
    obtain c r where run: "run_state C (cdb_do L kc er) (x_headers e) (hd_time ph) blk ?c = (c, r)"
      by (rule prod.exhaust)
    obtain d r' where run': "run_state C (cw_do kc er) (x_headers e) (hd_time ph) blk ?d = (d, r')"
      by (rule prod.exhaust)
    from same have "r' = r" "cdb_rel kc kv S (env (x_db e)) (xv_layers v) c d" unfolding run run' by simp_all
    then have c: "serving kv S (xv_db (cd_v c))" "env (xv_db (cd_v c)) = env (x_db e)" "cd_ops c = cw_ops d"
      and run2: "run_state C (cw_do kc er) (x_headers e) (hd_time ph) blk ?d = (d, r)"
      using run' by (simp_all add: cdb_rel_def)
    show ?thesis
    proof (cases "hd_number ph \<noteq> hd_number (eb_header blk) - 1")
      case True
      with Some sv show ?thesis by (simp add: exec_Execute_def exec_run_def exec_spec_def Let_def)
    next
      case False
      then have sp: "exec_spec kc er C (x_headers e) (exec_world kc kv e parent) (exec_codes kv e parent) parent blk =
          (case r of Inl err \<Rightarrow> Inl err | Inr (used, rs) \<Rightarrow>
             (case check_block C (eb_header blk) used rs of
                Some err \<Rightarrow> Inl err | None \<Rightarrow> Inr (block_batch parent blk (cw_ops d))))"
        using Some run2 by (simp add: exec_spec_def)
      show ?thesis
      proof (cases r)
        case (Inl err)
        with False Some v run c show ?thesis unfolding sp by (simp add: exec_Execute_def exec_run_def)
      next
        case (Inr ur)
        obtain used rs where ur: "ur = (used, rs)" by (cases ur)
        with Inr False Some v run c show ?thesis unfolding sp
          by (cases "check_block C (eb_header blk) used rs")
            (simp_all add: exec_Execute_def exec_run_def Let_def block_batch_def)
      qed
    qed
  qed
qed

lemma Execute_world:
  assumes ok: "exec_ok num kv S e" and x: "exec_Execute L kc er C e parent blk = Some (e', Inr b)"
    and blk: "hd_number (eb_header blk) = num (hd_hash (eb_header blk))" "hd_number (eb_header blk) \<noteq> 0"
  shows "exec_ok num kv S e'" and "exec_world kc kv e' (Hash b) = apply_batch b (exec_world kc kv e parent)"
    and "num h < Block b \<Longrightarrow> exec_world kc kv e' h = exec_world kc kv e h"
    and "Block b = num (Hash b)" "Parent b = parent" "Hash b = hd_hash (eb_header blk)"
proof -
  from Execute_spec [OF ok, of kc er C parent blk] x have
    sp: "exec_spec kc er C (x_headers e) (exec_world kc kv e parent) (exec_codes kv e parent) parent blk = Inr b"
    and e': "serving kv S (x_db e')" "env (x_db e') = env (x_db e)" "x_dryBase e' = x_dryBase e"
      "x_pending e' = (x_pending e)(Hash b \<mapsto> exec_newLayer b)"
      "x_headers e' = (x_headers e)(hd_hash (eb_header blk) \<mapsto> eb_header blk)"
    by auto
  from sp obtain ph where ph: "x_headers e parent = Some ph" "hd_number ph = hd_number (eb_header blk) - 1"
    and b: "Block b = hd_number (eb_header blk)" "Hash b = hd_hash (eb_header blk)" "Parent b = parent"
    by (auto simp: exec_spec_def Let_def block_batch_def split: option.splits if_splits sum.splits prod.splits)
  show bn: "Block b = num (Hash b)" "Parent b = parent" "Hash b = hd_hash (eb_header blk)" using b blk by simp_all
  from ok ph have "num parent = Block b - 1" by (simp add: exec_ok_def b)
  with blk b have lt: "num parent < num (Hash b)"
    using u64_le_minus_one [of "Block b" "Block b - 1"] bn(1) by (simp add: word_gt_0)
  have pe: "pending_ok num (x_pending e)" using ok by (simp add: exec_ok_def)
  with lt bn have pe': "pending_ok num (x_pending e')" by (simp add: pending_ok_def e'(4))
  with ok e' blk show "exec_ok num kv S e'" by (simp add: exec_ok_def)
  have below: "xpath (x_pending e') h ls" if "xpath (x_pending e) h ls" "num h < Block b" for h ls
    using that
  proof (induction ls arbitrary: h)
    case Nil
    then show ?case using bn(1) by (auto simp: e'(4))
  next
    case (Cons l ls)
    then have "num (xl_parent l) < num h" using pe by (simp add: pending_ok_def)
    with Cons have "xpath (x_pending e') (xl_parent l) ls" by (intro Cons.IH) (auto elim: less_trans)
    moreover from Cons bn(1) have "x_pending e' h = Some l" by (auto simp: e'(4))
    ultimately show ?case by simp
  qed
  note db = db_world_cong [OF e'(2), of kc kv]
  from xpath_exists [OF pe] obtain ls where ls: "xpath (x_pending e) parent ls" by blast
  from below [OF this] lt bn(1) have "xpath (x_pending e') (Hash b) (exec_newLayer b # ls)"
    by (simp add: e'(4) b(3))
  from exec_world_path [OF this, of kc kv] exec_world_path [OF ls, of kc kv]
  show "exec_world kc kv e' (Hash b) = apply_batch b (exec_world kc kv e parent)" by (simp add: e'(3) db)
  assume h: "num h < Block b"
  from xpath_exists [OF pe] obtain hs where hs: "xpath (x_pending e) h hs" by blast
  from exec_world_path [OF below [OF hs h], of kc kv] exec_world_path [OF hs, of kc kv]
  show "exec_world kc kv e' h = exec_world kc kv e h" by (simp add: e'(3) db)
qed

end

lemma prune_frame [simp]:
  "x_db (prune n e) = x_db e" "x_dryBase (prune n e) = x_dryBase e"
  by (simp_all add: prune_def Let_def)

lemma prune_pending:
  "x_pending (prune n e) h = (case x_pending e h of None \<Rightarrow> None
     | Some l \<Rightarrow> if xl_block l \<le> n then None else Some l)"
  by (simp_all add: prune_def Let_def)

lemma prune_ok: "exec_ok num kv S e \<Longrightarrow> exec_ok num kv S (prune n e)"
  by (auto simp: exec_ok_def pending_ok_def prune_pending split: option.splits if_splits)
    (auto simp: prune_def Let_def split: option.splits if_splits)

text \<open>Above a finalized block, the path is what it was without the block and what is below it.\<close>

lemma prune_path:
  assumes "pending_ok num (x_pending e)"
  shows "xpath (x_pending e) h (ls @ [l]) \<Longrightarrow> xpath (x_pending (prune (xl_block l) e)) h ls
    \<and> list_all (\<lambda>x. xl_block l < xl_block x) ls"
proof (induction ls arbitrary: h)
  case (Cons x ls)
  then have x: "x_pending e h = Some x" "xpath (x_pending e) (xl_parent x) (ls @ [l])" by simp_all
  from Cons.IH [OF x(2)] have IH: "xpath (x_pending (prune (xl_block l) e)) (xl_parent x) ls"
    "list_all (\<lambda>x. xl_block l < xl_block x) ls" by blast+
  obtain y ys where y: "ls @ [l] = y # ys" by (cases "ls @ [l]") auto
  with x(2) have "x_pending e (xl_parent x) = Some y" by simp
  with assms x(1) have "xl_block y < xl_block x" by (simp add: pending_ok_def)
  moreover from y IH(2) have "xl_block l \<le> xl_block y" by (cases ls) auto
  ultimately have lt: "xl_block l < xl_block x" by simp
  with x(1) have "x_pending (prune (xl_block l) e) h = Some x" by (simp add: prune_pending flip: not_less)
  with IH lt show ?case by simp
qed (simp add: prune_pending)

lemma OnFinalized_world:
  assumes ok: "exec_ok num kv S e" and dry: "x_dryBase e = None"
    and path: "xpath (x_pending e) h (ls @ [exec_newLayer b])"
    and d: "serving kv S d" "db_world kc kv d = apply_batch b (db_world kc kv (x_db e))"
  shows "exec_ok num kv S (OnFinalized (Block b) (e\<lparr>x_db := d\<rparr>))"
    and "exec_world kc kv (OnFinalized (Block b) (e\<lparr>x_db := d\<rparr>)) h = exec_world kc kv e h"
proof -
  let ?e = "e\<lparr>x_db := d\<rparr>"
  have "exec_ok num kv S ?e" using ok d by (simp add: exec_ok_def)
  then show "exec_ok num kv S (OnFinalized (Block b) ?e)" by (simp add: OnFinalized_def prune_ok)
  from ok have "pending_ok num (x_pending ?e)" by (simp add: exec_ok_def)
  from prune_path [OF this, of h ls "exec_newLayer b"] path
  have "xpath (x_pending (OnFinalized (Block b) ?e)) h ls" by (simp add: OnFinalized_def)
  from exec_world_path [OF this, of kc kv] exec_world_path [OF path, of kc kv] dry d(2)
  show "exec_world kc kv (OnFinalized (Block b) ?e) h = exec_world kc kv e h" by (simp add: OnFinalized_def)
qed

text \<open>The dry run: the store stays, the block is folded into the base layer.\<close>

lemma FoldFinalized_world:
  assumes ok: "exec_ok num kv S e" and path: "xpath (x_pending e) h (ls @ [exec_newLayer b])"
  shows "exec_ok num kv S (FoldFinalized b e)"
    and "exec_world kc kv (FoldFinalized b e) h = exec_world kc kv e h"
proof -
  let ?bl = "case x_dryBase e of None \<Rightarrow> exec_newLayer emptyBatch | Some l \<Rightarrow> l"
  let ?e = "e\<lparr>x_dryBase := Some (layer_apply (Ops b) ?bl)\<rparr>"
  have "exec_ok num kv S ?e" using ok by (simp add: exec_ok_def)
  then show "exec_ok num kv S (FoldFinalized b e)" by (simp add: FoldFinalized_def prune_ok)
  from ok have "pending_ok num (x_pending ?e)" by (simp add: exec_ok_def)
  from prune_path [OF this, of h ls "exec_newLayer b"] path
  have p: "xpath (x_pending (FoldFinalized b e)) h ls" by (simp add: FoldFinalized_def)
  have "apply_batch emptyBatch w = w" for w by (simp add: apply_batch_def emptyBatch_def)
  then show "exec_world kc kv (FoldFinalized b e) h = exec_world kc kv e h"
    using exec_world_path [OF p, of kc kv] exec_world_path [OF path, of kc kv]
    by (simp add: FoldFinalized_def layer_world_apply apply_batch_def [of b] split: option.split)
qed

end
