(* ===== verification/FollowerProperties.thy ===== *)
theory FollowerProperties
  imports SyncExample Exec Examples
begin

text \<open>
  The properties of the follower's components that load and execute: state sync (\<^verbatim>\<open>src/follower/sync\<close>) and
  block execution (\<^verbatim>\<open>src/follower/exec\<close>).
\<close>

section \<open>State sync\<close>






definition hanging :: "'e syncer \<Rightarrow> bool" where
  "hanging s \<longleftrightarrow> (y_driver s = DBarrier \<or> y_driver s = DWait) \<and> (\<exists>err. y_writer s = WFail err)
     \<and> y_reply s = None \<and> \<not> y_cancel s"

lemma do_effect_frame:
  "do_effect cfg eff s = Some s' \<Longrightarrow> y_driver s' = y_driver s \<and> y_writer s' = y_writer s \<and> y_reply s' = y_reply s
     \<and> y_cancel s' = y_cancel s"
  by (auto simp: do_effect_def enqueue_def split: effect.splits if_splits)

lemma hanging_step:
  assumes h: "hanging s" and a: "act \<noteq> ACancel" and ex: "sync_exec L E cfg act s = Some s'"
  shows "hanging s'"
proof -
  from ex have nc: "\<not> y_crash s" by (auto simp: sync_exec_def)
  show ?thesis
  proof (cases act)
    case AWriter
    with ex nc h show ?thesis by (auto simp: sync_exec_def hanging_def writer_exec_def split: list.splits)
  next
    case (ASeg i sa)
    with ex nc have "seg_step E cfg i sa s = Some s'" by (simp add: sync_exec_def)
    then show ?thesis using h by (auto simp: seg_step_def hanging_def group_err_def split: if_splits option.splits dest!: do_effect_frame)
  next
    case (ATask i ta)
    with ex nc have "task_step L E cfg i ta s = Some s'" by (simp add: sync_exec_def)
    then show ?thesis using h by (auto simp: task_step_def hanging_def group_err_def split: if_splits option.splits dest!: do_effect_frame)
  next
    case ADriver
    with ex nc h show ?thesis
      by (auto simp: sync_exec_def hanging_def driver_exec_def enqueue_def split: if_splits)
  qed (use ex nc h a in \<open>auto simp: sync_exec_def hanging_def driver_cancel_def split: if_splits driver.splits\<close>)
qed

text \<open>
  C35. A write error in phase 1 makes \<^verbatim>\<open>Run\<close> wait forever: the writer drops the bundles that follow, the
  barrier of \<^verbatim>\<open>drainStorageQueue\<close> among them, and nobody answers it. Unless the caller cancels, no schedule
  takes the driver past the barrier, so the error is never returned.
\<close>

theorem sync_barrier_hangs:
  assumes "y_driver s = DBarrier \<or> y_driver s = DWait" and "y_writer s = WFail err" and "y_reply s = None"
    and "\<not> y_cancel s" and "ACancel \<notin> set as" and "sync_run L E cfg as s = Some s'"
  shows "y_driver s' = DBarrier \<or> y_driver s' = DWait"
proof -
  have "hanging s" using assms(1-4) by (simp add: hanging_def)
  with assms(5,6) have "hanging s'"
    by (induction as arbitrary: s) (auto split: option.splits dest!: hanging_step [rotated 2])
  then show ?thesis by (simp add: hanging_def)
qed

theorem sync_barrier_hangs_witness:
  "\<exists>s'. sync_run alist_lmdb xs_lib xs_cfg [ADriver, AWriter] (xs_start\<lparr>y_driver := DBarrier, y_writer := WFail (ErrLmdb (MDB_OTHER 28))\<rparr>) = Some s'
    \<and> y_writes s' = [] \<and> (y_driver s' = DBarrier \<or> y_driver s' = DWait)"
proof -
  let ?s = "xs_start\<lparr>y_driver := DBarrier, y_writer := WFail (ErrLmdb (MDB_OTHER 28))\<rparr>"
  have "\<exists>s'. sync_run alist_lmdb xs_lib xs_cfg [ADriver, AWriter] ?s = Some s' \<and> y_writes s' = []"
    by (simp add: xs_start_def sync_defs xs_cfg_def)
  then obtain s' where s': "sync_run alist_lmdb xs_lib xs_cfg [ADriver, AWriter] ?s = Some s'" "y_writes s' = []" by blast
  from sync_barrier_hangs [OF _ _ _ _ _ s'(1)] s' show ?thesis by (simp add: xs_start_def new_syncer_def)
qed

text \<open>
  C36. When a scan of the storage queue fails, \<^verbatim>\<open>drainStorageQueue\<close> returns without waiting for the walkers
  it started. \<^verbatim>\<open>Run\<close> closes the channel, and the next walker that sends into it panics.
\<close>

theorem sync_scan_error_panics:
  assumes "\<not> y_crash s" and "y_driver s = DScan after" and "StorageQueueAfter L (y_db s) after scanBatch = Inl err"
    and "i < length (y_tasks s)" and "t_pc (y_tasks s ! i) = TDequeue"
  shows "\<exists>s'. sync_run L E cfg [ADriver, ADriver, ATask i TaSend] s = Some s' \<and> y_crash s' \<and> y_driver s' = DWriter (Some err)"
  using assms
  by (simp add: sync_exec_def driver_exec_def scan_queue_def task_step_def task_exec_def do_effect_def enqueue_def
      group_err_def)

theorem sync_scan_error_panics_witness:
  "\<exists>s'. sync_run (alist_lmdb\<lparr>cur_set_range := \<lambda>_ _. Inl (MDB_OTHER 5)\<rparr>) xs_lib xs_cfg [ADriver, ADriver, ATask 0 TaSend]
      (xs_start\<lparr>y_driver := DScan (Some 1), y_tasks := [\<lparr>t_addr = 1, t_root = 8, t_pc = TDequeue\<rparr>]\<rparr>) = Some s' \<and> y_crash s'"
  using sync_scan_error_panics [of "xs_start\<lparr>y_driver := DScan (Some 1), y_tasks := [\<lparr>t_addr = 1, t_root = 8, t_pc = TDequeue\<rparr>]\<rparr>"
      "Some 1" "alist_lmdb\<lparr>cur_set_range := \<lambda>_ _. Inl (MDB_OTHER 5)\<rparr>" "ErrLmdb (MDB_OTHER 5)" 0 xs_lib xs_cfg]
  by (auto simp: xs_start_def new_syncer_def StorageQueueAfter_def scanBatch_def queue_loop_num Let_def)

lemma splitRange_panics: "splitRange (replicate 31 0xff @ [0xfa]) 4 = Inl (Panic ''slice bounds out of range'')"
  by (simp add: splitRange_def pad_def split_loop_num rep31 Let_def)



section \<open>Execution\<close>

text \<open>A machine whose transactions credit an account with one and write a slot; and a block with one of them.\<close>

definition ex_coreth :: "(unit, address, unit) coreth" where
  "ex_coreth = \<lparr>co_open = Ret (Inr ()), co_upgrades = (\<lambda>_ _ s. Ret (Inr s)),
     co_tx = (\<lambda>hdr i a s gp used.
       Call (CGetAccount a) (\<lambda>ans. case ans of
          AAccount (Inr (Some acc)) \<Rightarrow>
            Call (CUpdateAccount a (acc\<lparr>sa_Balance := map_option (\<lambda>b. b + 1) (sa_Balance acc)\<rparr>)) (\<lambda>_.
            Call (CUpdateStorage a (be_bytes 32 (1 :: hash)) [42]) (\<lambda>_. Ret (Inr (s, gp, used + 21000, ()))))
        | _ \<Rightarrow> Ret (Inl (ErrMsg ''no account'')))),
     co_atomic = (\<lambda>_ _. Inr []), co_commit = (\<lambda>_ _. Ret (Inr ())),
     co_receiptsRoot = (\<lambda>rs. of_nat (length rs)), co_bloom = (\<lambda>_. [])\<rparr>"

definition ex_header :: "hash \<Rightarrow> u64 \<Rightarrow> eth_header" where
  "ex_header h n = \<lparr>hd_hash = h, hd_number = n, hd_time = 1, hd_gasLimit = 8000000, hd_gasUsed = 21000,
     hd_receipts = 1, hd_bloom = []\<rparr>"

definition ex_block :: "address eth_block" where
  "ex_block = \<lparr>eb_header = ex_header 11 101, eb_parentHash = 10, eb_txs = [7], eb_ext = []\<rparr>"

definition ex_num :: "hash \<Rightarrow> u64" where
  "ex_num h = (if h = 10 then 100 else if h = 11 then 101 else 0)"

definition ex_exec :: "alist_env exec" where
  "ex_exec = SeedHeaders [ex_header 10 100] (exec_New ex_db)"

lemma ex_exec_ok: "exec_ok ex_num map_of 100 ex_exec"
  unfolding ex_exec_def
  by (rule SeedHeaders_ok [OF exec_New_ok [OF ex_serving]]) (simp add: ex_header_def ex_num_def)

lemma ex_exec_world: "exec_world ex_kc map_of ex_exec 10 = ex_w0"
proof -
  have "xpath (x_pending ex_exec) 10 []" by (simp add: ex_exec_def SeedHeaders_def exec_New_def)
  from exec_world_path [OF this, of ex_kc map_of] ex_world [of Latest] show ?thesis
    by (simp add: ex_exec_def SeedHeaders_def exec_New_def db_world_def Latest_def)
qed

definition ex_out :: batch where
  "ex_out = block_batch 10 ex_block [OpAccount 7 (ex_acct 6), OpSlot 7 1 42]"

lemma ex_out_sel [simp]:
  "Hash ex_out = 11" "Block ex_out = 101" "Parent ex_out = 10" "Ops ex_out = [OpAccount 7 (ex_acct 6), OpSlot 7 1 42]"
  by (simp_all add: ex_out_def block_batch_def ex_block_def ex_header_def)


lemma ex_spec: "exec_spec ex_kc 5 ex_coreth (x_headers ex_exec) ex_w0 codes 10 ex_block = Inr ex_out"
  by (simp add: exec_spec_def ex_exec_def SeedHeaders_def exec_New_def ex_header_def ex_block_def run_state_def
      ex_coreth_def Let_def ex_w0_def ex_acct_def cw_op_def check_block_def hashc.dec_enc ex_out_def block_batch_def
      be_word_single)


text \<open>
  C39. After a successful execution the world of the block is its parent's with the batch applied, the worlds
  of all lower blocks are what they were, and blocks still stand above their parents, so that the next walk
  up the layers ends.
\<close>

theorem executed_worlds:
  assumes "healthy_lmdb L kv" and "exec_ok num kv S e" and "exec_Execute L kc er C e parent blk = Some (e', Inr b)"
    and "hd_number (eb_header blk) = num (hd_hash (eb_header blk))" and "hd_number (eb_header blk) \<noteq> 0"
  shows "exec_ok num kv S e' \<and> exec_world kc kv e' (Hash b) = apply_batch b (exec_world kc kv e parent)
    \<and> (\<forall>h. num h < Block b \<longrightarrow> exec_world kc kv e' h = exec_world kc kv e h)
    \<and> Hash b = hd_hash (eb_header blk) \<and> Parent b = parent"
  using healthy_lmdb.Execute_world [OF assms] by blast

lemma ex_executed:
  obtains e' where "exec_Execute alist_lmdb ex_kc 5 ex_coreth ex_exec 10 ex_block = Some (e', Inr ex_out)"
    and "x_pending e' = (x_pending ex_exec)(11 \<mapsto> exec_newLayer ex_out)" and "x_dryBase e' = None"
    and "env (x_db e') = env ex_db"
proof -
  from healthy_lmdb.Execute_spec [OF alist.healthy_lmdb_axioms ex_exec_ok, of ex_kc 5 ex_coreth 10 ex_block]
  obtain e' where "exec_Execute alist_lmdb ex_kc 5 ex_coreth ex_exec 10 ex_block = Some (e', Inr ex_out)"
    "x_pending e' = (x_pending ex_exec)(Hash ex_out \<mapsto> exec_newLayer ex_out)" "x_dryBase e' = x_dryBase ex_exec"
    "env (x_db e') = env (x_db ex_exec)"
    by (auto simp: ex_exec_world ex_spec)
  then show ?thesis
    by (intro that) (simp_all add: ex_exec_def SeedHeaders_def exec_New_def)
qed

theorem executed_worlds_witness:
  "\<exists>e'. exec_Execute alist_lmdb ex_kc 5 ex_coreth ex_exec 10 ex_block = Some (e', Inr ex_out)
    \<and> w_slot (exec_world ex_kc map_of e' 11) 7 1 = 42 \<and> exec_world ex_kc map_of e' 10 = ex_w0"
proof -
  obtain e' where x: "exec_Execute alist_lmdb ex_kc 5 ex_coreth ex_exec 10 ex_block = Some (e', Inr ex_out)"
    by (rule ex_executed)
  have n: "hd_number (eb_header ex_block) = ex_num (hd_hash (eb_header ex_block))" "hd_number (eb_header ex_block) \<noteq> 0"
    by (simp_all add: ex_block_def ex_header_def ex_num_def)
  from executed_worlds [OF alist.healthy_lmdb_axioms ex_exec_ok x n] x show ?thesis
    by (simp add: ex_exec_world apply_batch_def ex_num_def)
qed



end
